(* ===== verification/Go_Prelude.thy ===== *)
theory Go_Prelude
  imports Main "HOL-Library.Word" "HOL-Library.List_Lexorder"
begin

text \<open>
  The fragment of the Go language and its standard library that every component of the store
  uses: byte slices, \<^verbatim>\<open>bytes.Compare\<close>, \<^verbatim>\<open>sort.Search\<close>, \<^verbatim>\<open>copy\<close>, the append idiom
  that clones a slice, \<^verbatim>\<open>io.ReadFull\<close> and the fixed-width codecs of \<^verbatim>\<open>encoding/binary\<close>.
  A Go string and a Go byte slice are both a list of bytes; a slice that may be nil is a
  \<^verbatim>\<open>bytes option\<close> with \<open>None\<close> for nil. Machine integers keep their width.
  The general lemmas about these operations are declared for the simplifier or collected in
  \<^verbatim>\<open>codec_simps\<close>, so that the component theories can use them by name.
\<close>

unbundle bit_operations_syntax

named_theorems codec_simps "reading back what the codecs wrote"
named_theorems invar_intros "operations that keep a component's invariant"

type_synonym byte = "8 word"
type_synonym u32 = "32 word"
type_synonym u64 = "64 word"
type_synonym bytes = "byte list"
type_synonym slice = "bytes option"

section \<open>Slices and strings\<close>

fun bytes_Compare :: "bytes \<Rightarrow> bytes \<Rightarrow> int" where
  "bytes_Compare [] [] = 0"
| "bytes_Compare [] (y # ys) = - 1"
| "bytes_Compare (x # xs) [] = 1"
| "bytes_Compare (x # xs) (y # ys) =
     (if x < y then - 1 else if y < x then 1 else bytes_Compare xs ys)"

text \<open>\<^verbatim>\<open>len\<close> of a slice that may be nil: the length of a nil slice is 0.\<close>

definition slice_len :: "slice \<Rightarrow> int" where
  "slice_len v = (case v of None \<Rightarrow> 0 | Some bs \<Rightarrow> int (length bs))"

text \<open>The idiom \<^verbatim>\<open>append([]byte(nil), v...)\<close>: with no element to append, the nil slice is
  returned as it is, so an empty slice is cloned to nil.\<close>

definition clone_append :: "slice \<Rightarrow> slice" where
  "clone_append v =
     (case v of None \<Rightarrow> None | Some bs \<Rightarrow> (if bs = [] then None else Some bs))"

text \<open>\<^verbatim>\<open>copy(xs[i:], src)\<close>, which moves as many elements as both sides have.\<close>

definition copy_at :: "'a list \<Rightarrow> nat \<Rightarrow> 'a list \<Rightarrow> 'a list" where
  "copy_at xs i src =
     take i xs @ take (length xs - i) src @ drop (i + length src) xs"

section \<open>Binary search: sort.Search\<close>

function search_loop :: "(nat \<Rightarrow> bool) \<Rightarrow> nat \<Rightarrow> nat \<Rightarrow> nat" where
  "search_loop f i j =
     (if i < j
      then let h = (i + j) div 2
           in if \<not> f h then search_loop f (h + 1) j else search_loop f i h
      else i)"
  by pat_completeness auto
termination
  by (relation "measure (\<lambda>(f, i, j). j - i)") auto

declare search_loop.simps [simp del]

definition sort_Search :: "nat \<Rightarrow> (nat \<Rightarrow> bool) \<Rightarrow> nat" where
  "sort_Search n f = search_loop f 0 n"

section \<open>Fixed-width integers: encoding/binary\<close>

fun put_le :: "nat \<Rightarrow> 'a::len word \<Rightarrow> bytes" where
  "put_le 0 v = []"
| "put_le (Suc n) v = ucast v # put_le n (drop_bit 8 v)"

fun get_le :: "bytes \<Rightarrow> 'a::len word" where
  "get_le [] = 0"
| "get_le (b # bs) = ucast b OR push_bit 8 (get_le bs)"

definition le_PutUint32 :: "u32 \<Rightarrow> bytes" where
  "le_PutUint32 v = put_le 4 v"

definition le_Uint32 :: "bytes \<Rightarrow> u32" where
  "le_Uint32 bs = get_le bs"

definition le_PutUint64 :: "u64 \<Rightarrow> bytes" where
  "le_PutUint64 v = put_le 8 v"

definition le_Uint64 :: "bytes \<Rightarrow> u64" where
  "le_Uint64 bs = get_le bs"

definition be_PutUint32 :: "u32 \<Rightarrow> bytes" where
  "be_PutUint32 v = rev (put_le 4 v)"

definition be_Uint32 :: "bytes \<Rightarrow> u32" where
  "be_Uint32 bs = get_le (rev bs)"

section \<open>Readers: io.ReadFull\<close>

text \<open>A reader is the list of bytes it has still to deliver. A full read of \<open>n\<close> bytes fails with
  \<open>EOF\<close> when nothing is left and with \<open>UnexpectedEOF\<close> when too little is left.\<close>

datatype io_error = EOF | UnexpectedEOF

definition io_ReadFull :: "nat \<Rightarrow> bytes \<Rightarrow> io_error + bytes \<times> bytes" where
  "io_ReadFull n r =
     (if n \<le> length r then Inr (take n r, drop n r)
      else if r = [] then Inl EOF else Inl UnexpectedEOF)"

section \<open>Lemmas\<close>

subsection \<open>bytes.Compare is the lexicographic order\<close>

lemma bytes_Compare_cases:
  "(bytes_Compare a b = - 1 \<and> a < b) \<or> (bytes_Compare a b = 0 \<and> a = b) \<or>
   (bytes_Compare a b = 1 \<and> b < a)"
  by (induction a b rule: bytes_Compare.induct) auto

lemma bytes_Compare_less [simp]: "bytes_Compare a b < 0 \<longleftrightarrow> a < b"
  using bytes_Compare_cases [of a b] by auto

lemma bytes_Compare_greater [simp]: "bytes_Compare a b > 0 \<longleftrightarrow> b < a"
  using bytes_Compare_cases [of a b] by auto

lemma bytes_Compare_eq [simp]: "bytes_Compare a b = 0 \<longleftrightarrow> a = b"
  using bytes_Compare_cases [of a b] by auto

lemma bytes_Compare_ge [simp]: "bytes_Compare a b \<ge> 0 \<longleftrightarrow> b \<le> a"
  by (metis bytes_Compare_less linorder_not_less)

subsection \<open>Binary search\<close>

text \<open>The contract of \<^verbatim>\<open>sort.Search\<close>: once the predicate holds it goes on holding.\<close>

definition up_closed :: "nat \<Rightarrow> (nat \<Rightarrow> bool) \<Rightarrow> bool" where
  "up_closed n f \<longleftrightarrow> (\<forall>b < n. \<forall>a \<le> b. f a \<longrightarrow> f b)"

definition first_true :: "nat \<Rightarrow> (nat \<Rightarrow> bool) \<Rightarrow> nat \<Rightarrow> bool" where
  "first_true n f r \<longleftrightarrow> r \<le> n \<and> (\<forall>a < r. \<not> f a) \<and> (r < n \<longrightarrow> f r)"

lemma first_true_unique: "first_true n f r \<Longrightarrow> first_true n f r' \<Longrightarrow> r = r'"
  unfolding first_true_def by (metis linorder_neqE_nat order_less_le_trans)

lemma search_loop_least:
  "up_closed n f \<Longrightarrow> i \<le> j \<Longrightarrow> j \<le> n \<Longrightarrow> \<forall>a < i. \<not> f a \<Longrightarrow> (j < n \<longrightarrow> f j) \<Longrightarrow>
   first_true n f (search_loop f i j)"
proof (induction f i j rule: search_loop.induct)
  case (1 f i j)
  show ?case
  proof (cases "i < j")
    case False
    then have "search_loop f i j = i" by (simp add: search_loop.simps)
    with False "1.prems" show ?thesis by (simp add: first_true_def)
  next
    case True
    define h where "h = (i + j) div 2"
    have h: "i \<le> h" "h < j" using True by (auto simp: h_def)
    show ?thesis
    proof (cases "f h")
      case fh: True
      then have eq: "search_loop f i j = search_loop f i h"
        using True by (simp add: search_loop.simps [of f i j] h_def)
      show ?thesis unfolding eq
        by (rule "1.IH"(2) [OF True h_def]) (use fh "1.prems" h in auto)
    next
      case fh: False
      then have eq: "search_loop f i j = search_loop f (h + 1) j"
        using True by (simp add: search_loop.simps [of f i j] h_def)
      have below: "\<forall>a < h + 1. \<not> f a"
        using "1.prems"(1,3) fh h(2) unfolding up_closed_def
        by (metis Suc_eq_plus1 less_Suc_eq_le order_less_le_trans)
      show ?thesis unfolding eq
        by (rule "1.IH"(1) [OF True h_def]) (use fh "1.prems" h below in auto)
    qed
  qed
qed

lemma sort_Search_first_true: "up_closed n f \<Longrightarrow> first_true n f (sort_Search n f)"
  unfolding sort_Search_def by (rule search_loop_least) auto

lemma sort_Search_eqI: "up_closed n f \<Longrightarrow> first_true n f m \<Longrightarrow> sort_Search n f = m"
  by (rule first_true_unique [OF sort_Search_first_true])

text \<open>On a sorted list of keys the search stops right after the keys below the target.\<close>

lemma sort_Search_sorted:
  assumes "sorted_wrt (<) (map key (xs @ ys))"
    and "\<And>x. x \<in> set xs \<Longrightarrow> key x < (k :: 'k::linorder)"
    and "\<And>y. y \<in> set ys \<Longrightarrow> k \<le> key y"
  shows "sort_Search (length (xs @ ys)) (\<lambda>i. k \<le> key ((xs @ ys) ! i)) = length xs"
proof (rule sort_Search_eqI)
  have "key ((xs @ ys) ! a) \<le> key ((xs @ ys) ! b)" if "a \<le> b" "b < length (xs @ ys)" for a b
  proof (cases "a = b")
    case False
    with that show ?thesis
      using sorted_wrt_nth_less [OF assms(1), of a b] by (simp del: map_append)
  qed simp
  then show "up_closed (length (xs @ ys)) (\<lambda>i. k \<le> key ((xs @ ys) ! i))"
    unfolding up_closed_def by (meson order_trans)
  show "first_true (length (xs @ ys)) (\<lambda>i. k \<le> key ((xs @ ys) ! i)) (length xs)"
    using assms(2,3) by (auto simp: first_true_def nth_append not_le)
qed

text \<open>Every list sorted by its keys splits at a target.\<close>

lemma sorted_split:
  assumes "sorted_wrt (<) (map key zs)"
  obtains xs ys where "zs = xs @ ys" and "\<And>x. x \<in> set xs \<Longrightarrow> key x < (k :: 'k::linorder)"
    and "\<And>y. y \<in> set ys \<Longrightarrow> k \<le> key y"
proof
  let ?P = "\<lambda>z. key z < k"
  show "zs = takeWhile ?P zs @ dropWhile ?P zs" by simp
  show "key x < k" if "x \<in> set (takeWhile ?P zs)" for x
    using set_takeWhileD [OF that] by simp
  show "k \<le> key y" if "y \<in> set (dropWhile ?P zs)" for y
    using assms that
  proof (induction zs)
    case (Cons z zs)
    then show ?case by (auto split: if_splits)
  qed simp
qed

subsection \<open>Codecs\<close>

lemma length_put_le [simp]: "length (put_le n v) = n"
  by (induction n v rule: put_le.induct) auto

lemma get_put_le: "get_le (put_le n v) = take_bit (8 * n) v"
proof (induction n v rule: put_le.induct)
  case (2 n v)
  show ?case
    by (rule bit_word_eqI) (auto simp: 2 bit_simps)
qed simp

lemma length_le_PutUint32 [simp]: "length (le_PutUint32 v) = 4"
  and length_le_PutUint64 [simp]: "length (le_PutUint64 w) = 8"
  and length_be_PutUint32 [simp]: "length (be_PutUint32 v) = 4"
  by (simp_all add: le_PutUint32_def le_PutUint64_def be_PutUint32_def)

lemma put_nonempty [simp]:
  "le_PutUint32 v \<noteq> []" "le_PutUint64 w \<noteq> []" "be_PutUint32 v \<noteq> []"
  by (metis length_le_PutUint32 list.size(3) zero_neq_numeral,
      metis length_le_PutUint64 list.size(3) zero_neq_numeral,
      metis length_be_PutUint32 list.size(3) zero_neq_numeral)

lemma le_Uint32_Put [simp, codec_simps]: "le_Uint32 (le_PutUint32 v) = v"
  by (simp add: le_Uint32_def le_PutUint32_def get_put_le take_bit_word_eq_self)

lemma le_Uint64_Put [simp, codec_simps]: "le_Uint64 (le_PutUint64 v) = v"
  by (simp add: le_Uint64_def le_PutUint64_def get_put_le take_bit_word_eq_self)

lemma be_Uint32_Put [simp, codec_simps]: "be_Uint32 (be_PutUint32 v) = v"
  by (simp add: be_Uint32_def be_PutUint32_def get_put_le take_bit_word_eq_self)

lemma io_ReadFull_append [simp, codec_simps]:
  "n = length xs \<Longrightarrow> io_ReadFull n (xs @ ys) = Inr (xs, ys)"
  by (simp add: io_ReadFull_def)

text \<open>The same read from a reader that was cut off after \<open>m\<close> bytes.\<close>

lemma io_ReadFull_take:
  assumes "n = length xs"
  shows "io_ReadFull n (take m (xs @ ys)) =
     (if n \<le> m then Inr (xs, take (m - n) ys)
      else Inl (if m = 0 then EOF else UnexpectedEOF))"
  using assms by (auto simp: io_ReadFull_def)

lemma io_ReadFull_Inr:
  "io_ReadFull n r = Inr (x, r') \<longleftrightarrow> n = length x \<and> r = x @ r'"
  by (auto simp: io_ReadFull_def)

lemma io_ReadFull_Inl:
  "io_ReadFull n r = Inl e \<longleftrightarrow> length r < n \<and> e = (if r = [] then EOF else UnexpectedEOF)"
  by (auto simp: io_ReadFull_def)

lemma unat_of_nat32: "n < 2 ^ 32 \<Longrightarrow> unat (of_nat n :: u32) = n"
  by (simp add: unat_of_nat take_bit_nat_eq_self)

lemma unat_of_nat64: "n < 2 ^ 64 \<Longrightarrow> unat (of_nat n :: u64) = n"
  by (simp add: unat_of_nat take_bit_nat_eq_self)

lemma unat_Suc64: "n + 1 < 2 ^ 64 \<Longrightarrow> unat (1 + of_nat n :: u64) = Suc n"
  using unat_of_nat64 [of "Suc n"] by simp

subsection \<open>Options and copying\<close>

lemma option_case_id [simp]: "(case r of None \<Rightarrow> None | Some v \<Rightarrow> Some v) = r"
  by (cases r) simp_all


lemma copy_at_shift:
  "i \<le> length xs \<Longrightarrow> (copy_at (xs @ [z]) (i + 1) (drop i (xs @ [z])))[i := x] =
     take i xs @ x # drop i xs"
  by (auto simp: copy_at_def list_update_append Suc_diff_le take_Suc_conv_app_nth
      split: nat.splits)

end
