(* ===== verification/KV_Spec.thy ===== *)
theory KV_Spec
  imports Go_Prelude
begin

text \<open>
  The abstract key-value contract that the layers of the store promise to each other. A table maps
  a key to the last write of that key: \<open>Some (Some v)\<close> for a stored value, \<open>Some None\<close> for a
  tombstone and \<open>None\<close> for a key the table knows nothing about. \<^verbatim>\<open>KVPair\<close> of
  \<^verbatim>\<open>internal/lsm/memtable.go\<close> is the record that every layer exchanges; the locale
  \<open>kv_table\<close> states what a table that accepts writes must satisfy, and proves once what a
  sequence of writes leaves behind.
\<close>

record KVPair =
  Key :: bytes
  Value :: slice

type_synonym kv_write = "bytes \<times> slice"

text \<open>The entries of a list of pairs, as an association list and as a map.\<close>

definition kv_entry :: "KVPair \<Rightarrow> kv_write" where
  "kv_entry p = (Key p, Value p)"

definition pairs_map :: "KVPair list \<Rightarrow> bytes \<Rightarrow> slice option" where
  "pairs_map ps = map_of (map kv_entry ps)"

definition sorted_pairs :: "KVPair list \<Rightarrow> bool" where
  "sorted_pairs ps \<longleftrightarrow> sorted_wrt (<) (map Key ps)"

text \<open>Reading through a stack of layers, the newest first: the first layer that knows the key
  answers.\<close>

fun layered :: "('k \<Rightarrow> 'v option) list \<Rightarrow> 'k \<Rightarrow> 'v option" where
  "layered [] k = None"
| "layered (m # ms) k = (case m k of None \<Rightarrow> layered ms k | Some v \<Rightarrow> Some v)"

text \<open>What a client sees: a tombstone and an unknown key are both absent.\<close>

definition visible :: "slice option \<Rightarrow> slice" where
  "visible r = (case r of None \<Rightarrow> None | Some v \<Rightarrow> v)"

section \<open>Tables that accept writes\<close>

locale kv_table =
  fixes empty :: "'t"
    and put :: "'t \<Rightarrow> bytes \<Rightarrow> slice \<Rightarrow> 't"
    and get :: "'t \<Rightarrow> bytes \<Rightarrow> slice option"
    and invar :: "'t \<Rightarrow> bool"
  assumes invar_empty: "invar empty"
    and invar_put: "invar t \<Longrightarrow> invar (put t k v)"
    and get_empty: "get empty k = None"
    and get_put: "invar t \<Longrightarrow> get (put t k v) k' = (if k' = k then Some v else get t k')"
begin

text \<open>A sequence of writes, oldest first.\<close>

definition put_all :: "kv_write list \<Rightarrow> 't \<Rightarrow> 't" where
  "put_all ws t = fold (\<lambda>(k, v) t. put t k v) ws t"

lemma put_all_simps [simp]:
  "put_all [] t = t" "put_all (w # ws) t = put_all ws (put t (fst w) (snd w))"
  "put_all (ws @ ws') t = put_all ws' (put_all ws t)"
  by (simp_all add: put_all_def case_prod_beta)

lemma invar_put_all: "invar t \<Longrightarrow> invar (put_all ws t)"
  by (induction ws arbitrary: t) (auto intro: invar_put)

lemma get_put_all:
  "invar t \<Longrightarrow> get (put_all ws t) k =
     (case map_of (rev ws) k of None \<Rightarrow> get t k | Some v \<Rightarrow> Some v)"
  by (induction ws rule: rev_induct) (auto simp: invar_put_all get_put)

lemma get_put_all_empty: "get (put_all ws empty) k = map_of (rev ws) k"
  by (simp add: get_put_all invar_empty get_empty split: option.splits)

text \<open>Writes of one key do not disturb the others, and replaying a sequence after a prefix of it
  has the effect of the sequence alone.\<close>

lemma get_put_all_other: "invar t \<Longrightarrow> k \<notin> fst ` set ws \<Longrightarrow> get (put_all ws t) k = get t k"
  by (force simp: get_put_all split: option.splits dest!: map_of_SomeD)

lemma put_all_replay:
  assumes "invar t" and "ws = us @ vs"
  shows "get (put_all ws (put_all us t)) k = get (put_all ws t) k"
  using assms by (auto simp: get_put_all invar_put_all map_of_append split: option.splits)

end

section \<open>Lemmas\<close>

lemma pairs_map_simps [simp]:
  "pairs_map [] k = None"
  "pairs_map (p # ps) k = (if k = Key p then Some (Value p) else pairs_map ps k)"
  "pairs_map (ps @ qs) k = (case pairs_map ps k of None \<Rightarrow> pairs_map qs k | Some v \<Rightarrow> Some v)"
  by (auto simp: pairs_map_def kv_entry_def map_of_append map_add_def split: option.splits)

lemma pairs_map_None: "pairs_map ps k = None \<longleftrightarrow> k \<notin> Key ` set ps"
  by (induction ps) auto

lemma pairs_map_SomeD: "pairs_map ps k = Some v \<Longrightarrow> \<exists>p \<in> set ps. Key p = k \<and> Value p = v"
  by (induction ps) (auto split: if_splits)

lemma sorted_pairs_Nil [simp]: "sorted_pairs []"
  by (simp add: sorted_pairs_def)

lemma sorted_pairs_Cons [simp]:
  "sorted_pairs (p # ps) \<longleftrightarrow> (\<forall>q \<in> set ps. Key p < Key q) \<and> sorted_pairs ps"
  by (simp add: sorted_pairs_def)

lemma sorted_pairs_append:
  "sorted_pairs (ps @ qs) \<longleftrightarrow>
     sorted_pairs ps \<and> sorted_pairs qs \<and> (\<forall>p \<in> set ps. \<forall>q \<in> set qs. Key p < Key q)"
  by (auto simp: sorted_pairs_def sorted_wrt_append)

lemma sorted_pairs_distinct: "sorted_pairs ps \<Longrightarrow> distinct (map Key ps)"
  by (induction ps) auto

lemma pairs_map_mem: "sorted_pairs ps \<Longrightarrow> p \<in> set ps \<Longrightarrow> pairs_map ps (Key p) = Some (Value p)"
  by (induction ps) auto

lemma sorted_pairs_unique:
  assumes "sorted_pairs ps" and "sorted_pairs qs" and "\<And>k. pairs_map ps k = pairs_map qs k"
  shows "ps = qs"
proof -
  have canon: "xs = map (\<lambda>k. \<lparr>Key = k, Value = the (pairs_map xs k)\<rparr>) (map Key xs)" if "sorted_pairs xs" for xs
    using pairs_map_mem [OF that] by (simp add: map_idI comp_def)
  have "Key ` set xs = {k. pairs_map xs k \<noteq> None}" for xs
    by (simp add: pairs_map_None)
  then have "Key ` set ps = Key ` set qs" by (simp only: assms(3))
  then have "map Key ps = map Key qs"
    using assms(1,2) by (intro strict_sorted_equal) (auto simp: sorted_pairs_def)
  then have "map (\<lambda>k. \<lparr>Key = k, Value = the (pairs_map ps k)\<rparr>) (map Key ps) =
      map (\<lambda>k. \<lparr>Key = k, Value = the (pairs_map qs k)\<rparr>) (map Key qs)"
    by (simp only: assms(3))
  then show ?thesis by (simp only: canon [OF assms(1), symmetric] canon [OF assms(2), symmetric])
qed

lemma layered_append:
  "layered (ms @ ns) k = (case layered ms k of None \<Rightarrow> layered ns k | Some v \<Rightarrow> Some v)"
  by (induction ms) (auto split: option.splits)

lemma layered_snoc_empty [simp]: "layered (ms @ [\<lambda>x. None]) k = layered ms k"
  by (induction ms) (auto split: option.splits)

lemma visible_simps [simp]: "visible None = None" "visible (Some v) = v"
  by (simp_all add: visible_def)

end
