(* ===== verification/MemTable.thy ===== *)
theory MemTable
  imports KV_Spec
begin

text \<open>
  The memory table of \<^verbatim>\<open>internal/lsm/memtable.go\<close>: a slice of pairs kept in key order, found
  by binary search, with a running estimate of its size that triggers the flush. \<open>MemTable_Put\<close>
  and \<open>MemTable_Get\<close> translate \<^verbatim>\<open>Put\<close> and \<^verbatim>\<open>Get\<close> branch by branch, the shifting insert
  included. The lemmas show that the table stays sorted, that its size is the sum of its parts,
  and that it is a \<open>kv_table\<close>.
\<close>

record MemTable =
  pairs :: "KVPair list"
  mt_size :: int

definition NewMemTable :: MemTable where
  "NewMemTable = \<lparr>pairs = [], mt_size = 0\<rparr>"

definition mt_search :: "KVPair list \<Rightarrow> bytes \<Rightarrow> nat" where
  "mt_search ps key = sort_Search (length ps) (\<lambda>i. bytes_Compare (Key (ps ! i)) key \<ge> 0)"

definition MemTable_Put :: "MemTable \<Rightarrow> bytes \<Rightarrow> slice \<Rightarrow> MemTable" where
  "MemTable_Put m key val =
     (let idx = mt_search (pairs m) key
      in if idx < length (pairs m) \<and> Key (pairs m ! idx) = key
         then m\<lparr>mt_size := mt_size m + (slice_len val - slice_len (Value (pairs m ! idx))),
                pairs := (pairs m)[idx := (pairs m ! idx)\<lparr>Value := val\<rparr>]\<rparr>
         else let grown = pairs m @ [\<lparr>Key = [], Value = None\<rparr>];
                  moved = copy_at grown (idx + 1) (drop idx grown)
              in m\<lparr>pairs := moved[idx := \<lparr>Key = key, Value = val\<rparr>],
                   mt_size := mt_size m + (int (length key) + slice_len val)\<rparr>)"

definition MemTable_Get :: "MemTable \<Rightarrow> bytes \<Rightarrow> slice option" where
  "MemTable_Get m key =
     (let idx = mt_search (pairs m) key
      in if idx < length (pairs m) \<and> Key (pairs m ! idx) = key
         then Some (Value (pairs m ! idx)) else None)"

section \<open>Invariant\<close>

definition pair_bytes :: "KVPair \<Rightarrow> int" where
  "pair_bytes p = int (length (Key p)) + slice_len (Value p)"

definition mt_invar :: "MemTable \<Rightarrow> bool" where
  "mt_invar m \<longleftrightarrow> sorted_pairs (pairs m) \<and> mt_size m = sum_list (map pair_bytes (pairs m))"

section \<open>Lemmas\<close>

text \<open>Where the search lands: either at the key's pair or at the gap where it belongs.\<close>

lemma mt_search_split:
  assumes "sorted_pairs ps"
  obtains xs ys where "ps = xs @ ys" and "mt_search ps key = length xs"
    and "\<forall>x \<in> set xs. Key x < key" and "\<forall>y \<in> set ys. key \<le> Key y"
proof -
  obtain xs ys where s: "ps = xs @ ys" "\<And>x. x \<in> set xs \<Longrightarrow> Key x < key"
    "\<And>y. y \<in> set ys \<Longrightarrow> key \<le> Key y"
    using assms unfolding sorted_pairs_def by (rule sorted_split [where k = key]) blast
  have "mt_search ps key = length xs"
    unfolding mt_search_def bytes_Compare_ge s(1)
    by (rule sort_Search_sorted) (use assms s in \<open>auto simp: sorted_pairs_def\<close>)
  with s that show thesis by blast
qed

lemma MemTable_cases:
  assumes "sorted_pairs (pairs m)"
  obtains (found) xs p ys where "pairs m = xs @ p # ys" "Key p = key"
      "mt_search (pairs m) key = length xs"
      "\<forall>x \<in> set xs. Key x < key" "\<forall>y \<in> set ys. key < Key y"
    | (gap) xs ys where "pairs m = xs @ ys" "mt_search (pairs m) key = length xs"
      "\<forall>x \<in> set xs. Key x < key" "\<forall>y \<in> set ys. key < Key y"
proof -
  obtain xs ys where s: "pairs m = xs @ ys" "mt_search (pairs m) key = length xs"
    "\<forall>x \<in> set xs. Key x < key" "\<forall>y \<in> set ys. key \<le> Key y"
    using mt_search_split [OF assms] .
  show thesis
  proof (cases ys)
    case Nil
    with s show thesis by (auto intro: gap)
  next
    case (Cons y zs)
    have "\<forall>z \<in> set zs. Key y < Key z" using assms s(1) Cons by (simp add: sorted_pairs_append)
    show thesis
    proof (cases "Key y = key")
      case True
      with s Cons \<open>\<forall>z \<in> set zs. Key y < Key z\<close> show thesis by (auto intro: found)
    next
      case False
      with s(4) Cons \<open>\<forall>z \<in> set zs. Key y < Key z\<close> have "\<forall>z \<in> set ys. key < Key z"
        by (auto simp: order_le_less intro: order.strict_trans)
      with s(1-3) show thesis by (rule gap)
    qed
  qed
qed

lemma MemTable_Put_found:
  assumes "pairs m = xs @ p # ys" "Key p = key" "mt_search (pairs m) key = length xs"
  shows "pairs (MemTable_Put m key val) = xs @ p\<lparr>Value := val\<rparr> # ys"
    and "mt_size (MemTable_Put m key val) = mt_size m + (slice_len val - slice_len (Value p))"
  using assms by (simp_all add: MemTable_Put_def Let_def)

lemma MemTable_Put_gap:
  assumes "pairs m = xs @ ys" "mt_search (pairs m) key = length xs" "\<forall>y \<in> set ys. key < Key y"
  shows "pairs (MemTable_Put m key val) = xs @ \<lparr>Key = key, Value = val\<rparr> # ys"
    and "mt_size (MemTable_Put m key val) = mt_size m + (int (length key) + slice_len val)"
proof -
  have "\<not> (length xs < length (pairs m) \<and> Key (pairs m ! length xs) = key)"
    using assms(1,3) by (auto simp: nth_append)
  then show "pairs (MemTable_Put m key val) = xs @ \<lparr>Key = key, Value = val\<rparr> # ys"
    and "mt_size (MemTable_Put m key val) = mt_size m + (int (length key) + slice_len val)"
    unfolding MemTable_Put_def Let_def assms(2)
    using copy_at_shift [of "length xs" "xs @ ys"] by (simp_all only: if_False) (simp_all add: assms(1))
qed

lemma MemTable_Get_pairs_map:
  assumes "sorted_pairs (pairs m)"
  shows "MemTable_Get m key = pairs_map (pairs m) key"
  using assms
proof (cases rule: MemTable_cases [where key = key])
  case (found xs p ys)
  moreover have "pairs_map xs key = None" using found by (auto simp: pairs_map_None)
  ultimately show ?thesis by (simp add: MemTable_Get_def)
next
  case (gap xs ys)
  moreover have "key \<notin> Key ` set (pairs m)" using gap by auto
  then have "pairs_map (pairs m) key = None" unfolding pairs_map_None .
  ultimately show ?thesis by (auto simp: MemTable_Get_def nth_append)
qed

lemma MemTable_Put_pairs_map:
  assumes "sorted_pairs (pairs m)"
  shows "pairs_map (pairs (MemTable_Put m key val)) = (pairs_map (pairs m))(key \<mapsto> val)"
  using assms
proof (cases rule: MemTable_cases [where key = key])
  case (found xs p ys)
  moreover have "pairs_map xs key = None" using found by (auto simp: pairs_map_None)
  ultimately show ?thesis by (auto simp: MemTable_Put_found fun_eq_iff split: option.splits)
next
  case (gap xs ys)
  moreover have "pairs_map xs key = None" using gap by (auto simp: pairs_map_None)
  ultimately show ?thesis by (auto simp: MemTable_Put_gap fun_eq_iff split: option.splits)
qed

lemma mt_invar_New [simp, intro, invar_intros]: "mt_invar NewMemTable"
  by (simp add: mt_invar_def NewMemTable_def)

lemma mt_invar_Put [intro, invar_intros]:
  assumes "mt_invar m"
  shows "mt_invar (MemTable_Put m key val)"
proof -
  have "sorted_pairs (pairs m)" using assms by (simp add: mt_invar_def)
  then show ?thesis
  proof (cases rule: MemTable_cases [where key = key])
    case (found xs p ys)
    with assms show ?thesis
      by (auto simp: mt_invar_def MemTable_Put_found sorted_pairs_append pair_bytes_def)
  next
    case (gap xs ys)
    with assms show ?thesis
      by (auto simp: mt_invar_def MemTable_Put_gap sorted_pairs_append pair_bytes_def)
  qed
qed

interpretation mt: kv_table NewMemTable MemTable_Put MemTable_Get mt_invar
proof unfold_locales
  show "MemTable_Get NewMemTable k = None" for k
    by (simp add: MemTable_Get_pairs_map NewMemTable_def)
  show "MemTable_Get (MemTable_Put t k v) k' = (if k' = k then Some v else MemTable_Get t k')"
    if "mt_invar t" for t k v k'
    using mt_invar_Put [OF that] that
    by (simp add: mt_invar_def MemTable_Get_pairs_map MemTable_Put_pairs_map)
qed (auto intro: mt_invar_Put)

lemma MemTable_Put_nonempty [simp]: "pairs (MemTable_Put m key val) \<noteq> []"
  by (auto simp: MemTable_Put_def Let_def copy_at_def)

lemma mt_size_nonneg: "mt_invar m \<Longrightarrow> 0 \<le> mt_size m"
  by (auto simp: mt_invar_def pair_bytes_def slice_len_def intro!: sum_list_nonneg
      split: option.splits)

end
