(* ===== verification/Disk.thy ===== *)
theory Disk
  imports Go_Prelude "HOL-Library.AList" "HOL-Library.Char_ord"
begin

text \<open>
  The files of one node and the system calls the store makes on them (\<^verbatim>\<open>os.Create\<close>,
  \<^verbatim>\<open>os.OpenFile\<close>, \<^verbatim>\<open>File.Write\<close>, \<^verbatim>\<open>File.Sync\<close>, \<^verbatim>\<open>os.Remove\<close>, \<^verbatim>\<open>os.ReadDir\<close>,
  \<^verbatim>\<open>File.ReadAt\<close>). A file is the list of its bytes. Calls that change a file draw their
  outcome from the list \<open>faults\<close>: \<open>None\<close> lets the next call succeed, \<open>Some n\<close> makes it fail, a
  write after \<open>n\<close> of its bytes; when the list is used up every call succeeds. Reads fail
  exactly when the file is missing or too short. Names carry the directory they live in, so that
  \<^verbatim>\<open>data/sst\<close>, \<^verbatim>\<open>data/wal\<close> and \<^verbatim>\<open>data\<close> itself stay apart.
\<close>

datatype dirname = SstDir | WalDir | DataDir

type_synonym path = "dirname \<times> string"

datatype go_error =
    PathError \<comment> \<open>a system call failed\<close>
  | NotExist
  | ErrInvalid \<comment> \<open>a call on a nil file\<close>
  | ReadError io_error
  | UnknownWalOp byte
  | BadMagic string
  | NilMeta
  | NilPointer \<comment> \<open>the panic of a call on a nil pointer\<close>

record disk =
  files :: "(path \<times> bytes) list"
  faults :: "nat option list"

definition disk_file :: "disk \<Rightarrow> path \<Rightarrow> bytes option" where
  "disk_file d p = map_of (files d) p"

definition next_fault :: "disk \<Rightarrow> nat option \<times> disk" where
  "next_fault d =
     (case faults d of [] \<Rightarrow> (None, d) | f # fs \<Rightarrow> (f, d\<lparr>faults := fs\<rparr>))"

definition set_file :: "path \<Rightarrow> bytes \<Rightarrow> disk \<Rightarrow> disk" where
  "set_file p bs d = d\<lparr>files := AList.update p bs (files d)\<rparr>"

text \<open>\<^verbatim>\<open>os.Create\<close> truncates a file that exists; opening for append creates a missing file and
  keeps the contents of one that exists.\<close>

definition os_Create :: "path \<Rightarrow> disk \<Rightarrow> go_error option \<times> disk" where
  "os_Create p d =
     (case next_fault d of
        (Some n, d') \<Rightarrow> (Some PathError, d')
      | (None, d') \<Rightarrow> (None, set_file p [] d'))"

definition os_OpenAppend :: "path \<Rightarrow> disk \<Rightarrow> go_error option \<times> disk" where
  "os_OpenAppend p d =
     (case next_fault d of
        (Some n, d') \<Rightarrow> (Some PathError, d')
      | (None, d') \<Rightarrow>
          (None, case disk_file d' p of None \<Rightarrow> set_file p [] d' | Some bs \<Rightarrow> d'))"

text \<open>A write goes to the end of the file. Through a handle whose file was removed it reaches no
  file that can be opened again.\<close>

definition append_file :: "path \<Rightarrow> bytes \<Rightarrow> disk \<Rightarrow> disk" where
  "append_file p bs d =
     (case disk_file d p of None \<Rightarrow> d | Some old \<Rightarrow> set_file p (old @ bs) d)"

definition file_Write :: "path \<Rightarrow> bytes \<Rightarrow> disk \<Rightarrow> go_error option \<times> disk" where
  "file_Write p bs d =
     (case next_fault d of
        (Some n, d') \<Rightarrow> (Some PathError, append_file p (take n bs) d')
      | (None, d') \<Rightarrow> (None, append_file p bs d'))"

definition file_Sync :: "path \<Rightarrow> disk \<Rightarrow> go_error option \<times> disk" where
  "file_Sync p d =
     (case next_fault d of (Some n, d') \<Rightarrow> (Some PathError, d') | (None, d') \<Rightarrow> (None, d'))"

definition file_Close :: "path \<Rightarrow> disk \<Rightarrow> go_error option \<times> disk" where
  "file_Close p d =
     (case next_fault d of (Some n, d') \<Rightarrow> (Some PathError, d') | (None, d') \<Rightarrow> (None, d'))"

definition file_Truncate :: "path \<Rightarrow> disk \<Rightarrow> go_error option \<times> disk" where
  "file_Truncate p d =
     (case next_fault d of
        (Some n, d') \<Rightarrow> (Some PathError, d')
      | (None, d') \<Rightarrow>
          (None, case disk_file d' p of None \<Rightarrow> d' | Some bs \<Rightarrow> set_file p [] d'))"

definition os_Remove :: "path \<Rightarrow> disk \<Rightarrow> go_error option \<times> disk" where
  "os_Remove p d =
     (case next_fault d of
        (Some n, d') \<Rightarrow> (Some PathError, d')
      | (None, d') \<Rightarrow>
          (case disk_file d' p of
             None \<Rightarrow> (Some NotExist, d')
           | Some bs \<Rightarrow> (None, d'\<lparr>files := AList.delete p (files d')\<rparr>)))"

text \<open>\<^verbatim>\<open>os.ReadDir\<close> lists the names of a directory in order.\<close>

definition os_ReadDir :: "dirname \<Rightarrow> disk \<Rightarrow> string list" where
  "os_ReadDir dir d = sort (remdups [snd p. p \<leftarrow> map fst (files d), fst p = dir])"

text \<open>\<^verbatim>\<open>File.ReadAt\<close> at an unsigned offset converted by \<^verbatim>\<open>int64\<close>: it fails when the conversion
  is negative, that is when the top bit is set, or when a range that is not empty runs past the end
  of the file.\<close>

definition file_ReadAt :: "bytes \<Rightarrow> nat \<Rightarrow> u64 \<Rightarrow> bytes option" where
  "file_ReadAt content n off =
     (if 2 ^ 63 \<le> unat off then None
      else if n = 0 \<or> unat off + n \<le> length content then Some (take n (drop (unat off) content))
      else None)"

section \<open>Lemmas\<close>

lemma disk_file_set [simp]:
  "disk_file (set_file p bs d) q = (if q = p then Some bs else disk_file d q)"
  by (simp add: disk_file_def set_file_def update_conv')

lemma faults_set [simp]: "faults (set_file p bs d) = faults d"
  by (simp add: set_file_def)

lemma disk_file_faults [simp]: "disk_file (d\<lparr>faults := fs\<rparr>) = disk_file d"
  by (simp add: disk_file_def fun_eq_iff)

lemma disk_file_remove [simp]:
  "disk_file (d\<lparr>files := AList.delete p (files d)\<rparr>) q = (if q = p then None else disk_file d q)"
  by (simp add: disk_file_def delete_conv')

lemma disk_file_append:
  "disk_file (append_file p bs d) q =
     (if q = p then map_option (\<lambda>old. old @ bs) (disk_file d p) else disk_file d q)"
  by (simp add: append_file_def split: option.splits)

lemma append_file_set [simp]: "append_file p bs (set_file p old d) = set_file p (old @ bs) d"
  by (simp add: append_file_def set_file_def disk_file_def update_conv' update_Some_unfold
      split: option.splits)

lemma set_file_set [simp]: "set_file p bs (set_file p bs' d) = set_file p bs d"
  by (simp add: set_file_def)

lemma append_file_append [simp]:
  "append_file p cs (append_file p bs d) = append_file p (bs @ cs) d"
  by (cases "disk_file d p") (simp_all add: append_file_def)

lemma append_file_Nil [simp]: "append_file p [] d = d"
  by (auto simp: append_file_def set_file_def disk_file_def update_triv split: option.splits)

lemma faults_append [simp]: "faults (append_file p bs d) = faults d"
  by (simp add: append_file_def split: option.splits)

lemma next_fault_none [simp]: "faults d = [] \<Longrightarrow> next_fault d = (None, d)"
  by (simp add: next_fault_def)

lemma disk_file_next_fault: "next_fault d = (f, d') \<Longrightarrow> disk_file d' = disk_file d"
  by (auto simp: next_fault_def split: list.splits)

lemma no_fault_calls [simp]:
  assumes "faults d = []"
  shows "os_Create p d = (None, set_file p [] d)"
    and "file_Write p bs d = (None, append_file p bs d)"
    and "file_Sync p d = (None, d)"
    and "file_Close p d = (None, d)"
  using assms by (simp_all add: os_Create_def file_Write_def file_Sync_def file_Close_def)

text \<open>No call touches a file other than its own.\<close>

lemma calls_frame:
  assumes "q \<noteq> p"
  shows "disk_file (snd (os_Create p d)) q = disk_file d q"
    and "disk_file (snd (os_OpenAppend p d)) q = disk_file d q"
    and "disk_file (snd (file_Write p bs d)) q = disk_file d q"
    and "disk_file (snd (file_Sync p d)) q = disk_file d q"
    and "disk_file (snd (os_Remove p d)) q = disk_file d q"
  using assms
  by (auto simp: os_Create_def os_OpenAppend_def file_Write_def file_Sync_def os_Remove_def
      disk_file_append dest: disk_file_next_fault split: prod.splits option.splits)

lemma file_ReadAt_append:
  assumes "length (xs @ ys) < 2 ^ 63" and "off = of_nat (length xs)" and "n = length ys"
  shows "file_ReadAt (xs @ ys @ zs) n off = Some ys"
proof -
  have "unat off = length xs" using assms(1,2) by (simp add: unat_of_nat64)
  then show ?thesis using assms(1,3) by (simp add: file_ReadAt_def)
qed

text \<open>What a call that succeeded did, whatever the faults of the others.\<close>

lemma file_Write_None:
  "file_Write p bs d = (None, d') \<Longrightarrow>
   disk_file d' q = (if q = p then map_option (\<lambda>old. old @ bs) (disk_file d p) else disk_file d q)"
  by (auto simp: file_Write_def disk_file_append dest: disk_file_next_fault
      split: prod.splits option.splits)

lemma os_Create_None:
  "os_Create p d = (None, d') \<Longrightarrow> disk_file d' q = (if q = p then Some [] else disk_file d q)"
  by (auto simp: os_Create_def dest: disk_file_next_fault split: prod.splits option.splits)

lemma file_Sync_disk [simp]: "disk_file (snd (file_Sync p d)) = disk_file d"
  by (auto simp: file_Sync_def dest: disk_file_next_fault split: prod.splits option.splits)

lemma file_Close_disk [simp]: "disk_file (snd (file_Close p d)) = disk_file d"
  by (auto simp: file_Close_def dest: disk_file_next_fault split: prod.splits option.splits)

lemma os_ReadDir_mem: "disk_file d (dir, name) = Some content \<Longrightarrow> name \<in> set (os_ReadDir dir d)"
  by (force simp: os_ReadDir_def disk_file_def dest: map_of_SomeD)

end
