(* ===== verification/WAL.thy ===== *)
theory WAL
  imports Disk KV_Spec
begin

text \<open>
  The write-ahead log of \<^verbatim>\<open>internal/wal/wal.go\<close>. A handle is the path of its file, or \<open>None\<close>
  once \<^verbatim>\<open>Delete\<close> has set the file to nil. Records are built as the source builds them: a tag byte, a
  big-endian key length, the key and, for a put, a big-endian value length and the value.
  \<open>WAL_Replay\<close> reads the file from its start and calls back for every complete record; the
  callbacks thread a state. The lemmas show that replaying a log returns the operations appended
  to it, and that a log cut off at any byte replays to a prefix of them.
\<close>

type_synonym WAL = "path option"

definition OpPut :: byte where "OpPut = 0"
definition OpDelete :: byte where "OpDelete = 1"

datatype walop = WalPut bytes bytes | WalDelete bytes

definition OpenWAL :: "path \<Rightarrow> disk \<Rightarrow> (go_error + WAL) \<times> disk" where
  "OpenWAL p d =
     (case os_OpenAppend p d of
        (Some e, d') \<Rightarrow> (Inl e, d')
      | (None, d') \<Rightarrow> (Inr (Some p), d'))"

definition put_record :: "bytes \<Rightarrow> bytes \<Rightarrow> bytes" where
  "put_record key val =
     OpPut # be_PutUint32 (of_nat (length key)) @ key @
     be_PutUint32 (of_nat (length val)) @ val"

definition delete_record :: "bytes \<Rightarrow> bytes" where
  "delete_record key = OpDelete # be_PutUint32 (of_nat (length key)) @ key"

definition wal_write :: "WAL \<Rightarrow> bytes \<Rightarrow> disk \<Rightarrow> go_error option \<times> disk" where
  "wal_write w buf d =
     (case w of
        None \<Rightarrow> (Some ErrInvalid, d)
      | Some p \<Rightarrow>
          (case file_Write p buf d of
             (Some e, d') \<Rightarrow> (Some e, d')
           | (None, d') \<Rightarrow> file_Sync p d'))"

definition WAL_AppendPut :: "WAL \<Rightarrow> bytes \<Rightarrow> bytes \<Rightarrow> disk \<Rightarrow> go_error option \<times> disk" where
  "WAL_AppendPut w key val d = wal_write w (put_record key val) d"

definition WAL_AppendDelete :: "WAL \<Rightarrow> bytes \<Rightarrow> disk \<Rightarrow> go_error option \<times> disk" where
  "WAL_AppendDelete w key d = wal_write w (delete_record key) d"

definition WAL_Close :: "WAL \<Rightarrow> disk \<Rightarrow> go_error option \<times> disk" where
  "WAL_Close w d =
     (case w of None \<Rightarrow> (None, d) | Some p \<Rightarrow> file_Close p (snd (file_Sync p d)))"

text \<open>\<^verbatim>\<open>Delete\<close> also returns the handle: its file is nil once the close has succeeded.\<close>

definition WAL_Delete :: "WAL \<Rightarrow> disk \<Rightarrow> go_error option \<times> WAL \<times> disk" where
  "WAL_Delete w d =
     (case w of
        None \<Rightarrow> (None, None, d)
      | Some p \<Rightarrow>
          (case file_Sync p d of
             (Some e, d1) \<Rightarrow> (Some e, w, d1)
           | (None, d1) \<Rightarrow>
               (case file_Close p d1 of
                  (Some e, d2) \<Rightarrow> (Some e, w, d2)
                | (None, d2) \<Rightarrow>
                    (case os_Remove p d2 of
                       (Some e, d3) \<Rightarrow> (if e = NotExist then None else Some e, None, d3)
                     | (None, d3) \<Rightarrow> (None, None, d3)))))"

definition WAL_Clear :: "WAL \<Rightarrow> disk \<Rightarrow> go_error option \<times> disk" where
  "WAL_Clear w d =
     (case w of
        None \<Rightarrow> (Some ErrInvalid, d)
      | Some p \<Rightarrow>
          (case file_Truncate p d of
             (Some e, d') \<Rightarrow> (Some e, d')
           | (None, d') \<Rightarrow> file_Sync p d'))"

section \<open>Replay\<close>

function replay_loop ::
  "(bytes \<Rightarrow> bytes \<Rightarrow> 's \<Rightarrow> 's) \<Rightarrow> (bytes \<Rightarrow> 's \<Rightarrow> 's) \<Rightarrow> bytes \<Rightarrow> 's \<Rightarrow> 's \<times> go_error option"
where
  "replay_loop onPut onDelete r s =
     (case r of
        [] \<Rightarrow> (s, None)
      | op # r1 \<Rightarrow>
          (case io_ReadFull 4 r1 of
             Inl e \<Rightarrow> (s, if e = EOF then None else Some (ReadError e))
           | Inr (kl, r2) \<Rightarrow>
               (case io_ReadFull (unat (be_Uint32 kl)) r2 of
                  Inl e \<Rightarrow> (s, Some (ReadError e))
                | Inr (key, r3) \<Rightarrow>
                    if op = OpPut then
                      (case io_ReadFull 4 r3 of
                         Inl e \<Rightarrow> (s, if e = EOF then None else Some (ReadError e))
                       | Inr (vl, r4) \<Rightarrow>
                           (case io_ReadFull (unat (be_Uint32 vl)) r4 of
                              Inl e \<Rightarrow> (s, Some (ReadError e))
                            | Inr (val, r5) \<Rightarrow>
                                replay_loop onPut onDelete r5 (onPut key val s)))
                    else if op = OpDelete then
                      replay_loop onPut onDelete r3 (onDelete key s)
                    else (s, Some (UnknownWalOp op)))))"
  by pat_completeness auto
termination
  by (relation "measure (\<lambda>(_, _, r, _). length r)") (auto simp: io_ReadFull_Inr)

declare replay_loop.simps [simp del]

definition WAL_Replay ::
  "WAL \<Rightarrow> (bytes \<Rightarrow> bytes \<Rightarrow> 's \<Rightarrow> 's) \<Rightarrow> (bytes \<Rightarrow> 's \<Rightarrow> 's) \<Rightarrow> disk \<Rightarrow> 's \<Rightarrow> 's \<times> go_error option"
where
  "WAL_Replay w onPut onDelete d s =
     (case w of
        None \<Rightarrow> (s, Some ErrInvalid)
      | Some p \<Rightarrow>
          (case disk_file d p of
             None \<Rightarrow> (s, None)
           | Some content \<Rightarrow> replay_loop onPut onDelete content s))"

section \<open>Specification\<close>

fun wal_record :: "walop \<Rightarrow> bytes" where
  "wal_record (WalPut k v) = put_record k v"
| "wal_record (WalDelete k) = delete_record k"

definition wal_bytes :: "walop list \<Rightarrow> bytes" where
  "wal_bytes ops = concat (map wal_record ops)"

fun walop_ok :: "walop \<Rightarrow> bool" where
  "walop_ok (WalPut k v) \<longleftrightarrow> length k < 2 ^ 32 \<and> length v < 2 ^ 32"
| "walop_ok (WalDelete k) \<longleftrightarrow> length k < 2 ^ 32"

fun walop_do :: "(bytes \<Rightarrow> bytes \<Rightarrow> 's \<Rightarrow> 's) \<Rightarrow> (bytes \<Rightarrow> 's \<Rightarrow> 's) \<Rightarrow> walop \<Rightarrow> 's \<Rightarrow> 's" where
  "walop_do onPut onDelete (WalPut k v) s = onPut k v s"
| "walop_do onPut onDelete (WalDelete k) s = onDelete k s"

fun walop_write :: "walop \<Rightarrow> kv_write" where
  "walop_write (WalPut k v) = (k, Some v)"
| "walop_write (WalDelete k) = (k, None)"

section \<open>Lemmas\<close>

lemma OpPut_neq_OpDelete [simp]: "OpDelete \<noteq> OpPut"
  by (simp add: OpPut_def OpDelete_def)

lemma wal_bytes_simps [simp]:
  "wal_bytes [] = []" "wal_bytes (x # xs) = wal_record x @ wal_bytes xs"
  "wal_bytes (xs @ ys) = wal_bytes xs @ wal_bytes ys"
  by (simp_all add: wal_bytes_def)

lemma wal_record_nonempty [simp]: "wal_record x \<noteq> []"
  by (cases x) (simp_all add: put_record_def delete_record_def)

lemma replay_loop_Nil [simp]: "replay_loop onPut onDelete [] s = (s, None)"
  by (simp add: replay_loop.simps)

text \<open>One complete record in front of anything is read back and passed to its callback.\<close>

lemma replay_record:
  "walop_ok x \<Longrightarrow> replay_loop onPut onDelete (wal_record x @ r) s =
     replay_loop onPut onDelete r (walop_do onPut onDelete x s)"
  by (cases x)
    (simp_all add: replay_loop.simps [of _ _ "_ # _"] put_record_def delete_record_def
      unat_of_nat32 codec_simps)

lemma replay_wal_bytes:
  "\<forall>x \<in> set ops. walop_ok x \<Longrightarrow> replay_loop onPut onDelete (wal_bytes ops @ r) s =
     replay_loop onPut onDelete r (fold (walop_do onPut onDelete) ops s)"
  by (induction ops arbitrary: s) (simp_all add: replay_record)

text \<open>A record cut off before its last byte calls back nothing.\<close>

lemma replay_torn:
  assumes "walop_ok x" and "n < length (wal_record x)"
  shows "fst (replay_loop onPut onDelete (take n (wal_record x)) s) = s"
proof (cases n)
  case 0
  then show ?thesis by simp
next
  case (Suc m)
  then show ?thesis
    using assms
    by (cases x)
      (auto simp: replay_loop.simps [of _ _ "_ # _"] put_record_def delete_record_def
        unat_of_nat32 io_ReadFull_take io_ReadFull_take [where ys = "[]", simplified]
        simp del: take_append)
qed

text \<open>A log cut off after any number of bytes is a prefix of its records followed by a torn one.\<close>

lemma wal_bytes_take:
  "n < length (wal_bytes ops) \<Longrightarrow>
   \<exists>us x vs m. ops = us @ x # vs \<and> take n (wal_bytes ops) = wal_bytes us @ take m (wal_record x) \<and>
     m < length (wal_record x)"
proof (induction ops arbitrary: n)
  case (Cons y ops)
  show ?case
  proof (cases "n < length (wal_record y)")
    case True
    then have "take n (wal_bytes (y # ops)) = wal_bytes [] @ take n (wal_record y)" by simp
    with True show ?thesis by blast
  next
    case False
    with Cons.prems have "n - length (wal_record y) < length (wal_bytes ops)" by simp
    from Cons.IH [OF this] obtain us x vs m where "ops = us @ x # vs"
      "m < length (wal_record x)"
      "take (n - length (wal_record y)) (wal_bytes ops) = wal_bytes us @ take m (wal_record x)"
      by blast
    with False have "y # ops = (y # us) @ x # vs" and
      "take n (wal_bytes (y # ops)) = wal_bytes (y # us) @ take m (wal_record x)" by auto
    with \<open>m < length (wal_record x)\<close> show ?thesis by blast
  qed
qed simp

lemma replay_prefix:
  assumes "\<forall>x \<in> set ops. walop_ok x"
  shows "\<exists>us vs. ops = us @ vs \<and>
    fst (replay_loop onPut onDelete (take n (wal_bytes ops)) s) =
      fold (walop_do onPut onDelete) us s"
proof (cases "n < length (wal_bytes ops)")
  case True
  then obtain us x vs m where s: "ops = us @ x # vs" "m < length (wal_record x)"
    "take n (wal_bytes ops) = wal_bytes us @ take m (wal_record x)"
    using wal_bytes_take by blast
  with assms show ?thesis
    by (intro exI [of _ us] exI [of _ "x # vs"]) (simp add: replay_wal_bytes replay_torn)
next
  case False
  have "replay_loop onPut onDelete (wal_bytes ops) s =
      (fold (walop_do onPut onDelete) ops s, None)"
    using replay_wal_bytes [OF assms, of _ _ "[]"] by simp
  with False show ?thesis by (intro exI [of _ ops] exI [of _ "[]"]) simp
qed

text \<open>Appending through a handle adds exactly one record to its file and to no other.\<close>

lemma wal_write_ok:
  assumes "disk_file d p = Some old" and "faults d = []"
  shows "wal_write (Some p) buf d = (None, set_file p (old @ buf) d)"
  using assms by (simp add: wal_write_def append_file_def)

lemma wal_write_frame: "w \<noteq> Some q \<Longrightarrow> disk_file (snd (wal_write w buf d)) q = disk_file d q"
proof (cases w)
  case (Some p)
  assume "w \<noteq> Some q"
  with Some have "q \<noteq> p" by simp
  then show ?thesis
    using calls_frame(3) [of q p buf d] calls_frame(4) [of q p]
    by (auto simp: wal_write_def Some split: prod.splits option.splits)
qed (simp add: wal_write_def)

end
