(* ===== verification/Go_Strings.thy ===== *)
theory Go_Strings
  imports Go_Prelude
begin

text \<open>
  The string functions the store uses to name its files and to write and read its manifest:
  decimal printing (\<^verbatim>\<open>strconv.FormatUint\<close>, the verb \<^verbatim>\<open>%06d\<close>), decimal reading
  (\<^verbatim>\<open>strconv.ParseUint\<close>, \<^verbatim>\<open>fmt.Sscanf\<close> with \<^verbatim>\<open>%06d\<close>), and \<^verbatim>\<open>strings.Split\<close>, \<^verbatim>\<open>Join\<close>
  and \<^verbatim>\<open>TrimSpace\<close>. The lemmas are their round trips.
\<close>

definition digit_char :: "nat \<Rightarrow> char" where
  "digit_char n = char_of (48 + n)"

definition is_digit :: "char \<Rightarrow> bool" where
  "is_digit c \<longleftrightarrow> 48 \<le> (of_char c :: nat) \<and> (of_char c :: nat) \<le> 57"

definition digit_val :: "char \<Rightarrow> nat" where
  "digit_val c = of_char c - 48"

fun FormatUint :: "nat \<Rightarrow> string" where
  "FormatUint n =
     (if n < 10 then [digit_char n] else FormatUint (n div 10) @ [digit_char (n mod 10)])"

declare FormatUint.simps [simp del]

definition fmt_06d :: "nat \<Rightarrow> string" where
  "fmt_06d n = replicate (6 - length (FormatUint n)) (digit_char 0) @ FormatUint n"

definition dec_val :: "string \<Rightarrow> nat" where
  "dec_val s = foldl (\<lambda>a c. 10 * a + digit_val c) 0 s"

text \<open>\<^verbatim>\<open>strconv.ParseUint(s, 10, 64)\<close>: a syntax or a range error is \<open>None\<close>.\<close>

definition ParseUint :: "string \<Rightarrow> u64 option" where
  "ParseUint s =
     (if s = [] \<or> \<not> list_all is_digit s \<or> 2 ^ 64 \<le> dec_val s then None
      else Some (of_nat (dec_val s)))"

text \<open>\<^verbatim>\<open>fmt.Sscanf(name, "%06d...", &id)\<close> for an unsigned \<^verbatim>\<open>id\<close> that starts at 0: the verb reads at
  most six digits and the callers ignore the error for whatever follows.\<close>

definition Sscanf_06d :: "string \<Rightarrow> u64" where
  "Sscanf_06d s = of_nat (dec_val (take 6 (takeWhile is_digit s)))"

fun strings_Split :: "string \<Rightarrow> char \<Rightarrow> string list" where
  "strings_Split [] sep = [[]]"
| "strings_Split (c # cs) sep =
     (if c = sep then [] # strings_Split cs sep
      else case strings_Split cs sep of [] \<Rightarrow> [[c]] | w # ws \<Rightarrow> (c # w) # ws)"

fun strings_Join :: "string list \<Rightarrow> string \<Rightarrow> string" where
  "strings_Join [] sep = []"
| "strings_Join [w] sep = w"
| "strings_Join (w # v # vs) sep = w @ sep @ strings_Join (v # vs) sep"

definition is_space :: "char \<Rightarrow> bool" where
  "is_space c \<longleftrightarrow> (of_char c :: nat) \<in> {9, 10, 11, 12, 13, 32}"

definition strings_TrimSpace :: "string \<Rightarrow> string" where
  "strings_TrimSpace s = rev (dropWhile is_space (rev (dropWhile is_space s)))"

text \<open>\<^verbatim>\<open>filepath.Ext\<close>: the suffix that starts at the last dot, or nothing.\<close>

definition filepath_Ext :: "string \<Rightarrow> string" where
  "filepath_Ext s =
     (let suffix = takeWhile (\<lambda>c. c \<noteq> CHR ''.'') (rev s)
      in if length suffix = length s then [] else CHR ''.'' # rev suffix)"

section \<open>Lemmas\<close>

lemma digit_char_simps [simp]:
  assumes "n < 10"
  shows "is_digit (digit_char n)" and "digit_val (digit_char n) = n"
  using assms by (simp_all add: is_digit_def digit_char_def digit_val_def)

lemma dec_val_snoc [simp]: "dec_val (s @ [c]) = 10 * dec_val s + digit_val c"
  by (simp add: dec_val_def)

lemma dec_val_Nil [simp]: "dec_val [] = 0"
  by (simp add: dec_val_def)

lemma dec_val_FormatUint [simp]: "dec_val (FormatUint n) = n"
proof (induction n rule: FormatUint.induct)
  case (1 n)
  then show ?case
    by (cases "n < 10")
      (simp_all add: FormatUint.simps [of n] dec_val_snoc [of "[]", simplified])
qed

lemma FormatUint_digits: "list_all is_digit (FormatUint n)"
proof (induction n rule: FormatUint.induct)
  case (1 n)
  then show ?case by (cases "n < 10") (simp_all add: FormatUint.simps [of n])
qed

lemma FormatUint_nonempty [simp]: "FormatUint n \<noteq> []"
  by (simp add: FormatUint.simps [of n])

lemma FormatUint_length: "n < 10 ^ Suc k \<Longrightarrow> length (FormatUint n) \<le> Suc k"
proof (induction k arbitrary: n)
  case 0
  then show ?case by (simp add: FormatUint.simps)
next
  case (Suc k)
  then have "n div 10 < 10 ^ Suc k" by (intro less_mult_imp_div_less) simp
  then have "length (FormatUint (n div 10)) \<le> Suc k" by (rule Suc.IH)
  then show ?case by (simp add: FormatUint.simps [of n])
qed

lemma dec_val_zeros [simp]: "dec_val (replicate k (digit_char 0) @ s) = dec_val s"
  by (induction k) (simp_all add: dec_val_def)

lemma dec_val_fmt_06d [simp]: "dec_val (fmt_06d n) = n"
  by (simp add: fmt_06d_def)

lemma fmt_06d_digits: "list_all is_digit (fmt_06d n)"
  using FormatUint_digits [of n] by (auto simp: fmt_06d_def list_all_iff)

lemma fmt_06d_inject [simp]: "fmt_06d m = fmt_06d n \<longleftrightarrow> m = n"
  by (metis dec_val_fmt_06d)

lemma fmt_06d_length: "n < 10 ^ 6 \<Longrightarrow> length (fmt_06d n) = 6"
  using FormatUint_length [of n 5] by (simp add: fmt_06d_def)

lemma ParseUint_FormatUint [simp]: "ParseUint (FormatUint (unat fid)) = Some fid"
  using unsigned_less [of fid, where 'a = nat] by (simp add: ParseUint_def FormatUint_digits)

lemma Sscanf_fmt_06d:
  assumes "unat fid < 10 ^ 6" and "\<not> is_digit c"
  shows "Sscanf_06d (fmt_06d (unat fid) @ c # rest) = fid"
proof -
  have "takeWhile is_digit (fmt_06d (unat fid) @ c # rest) = fmt_06d (unat fid)"
    using fmt_06d_digits [of "unat fid"] assms(2) by (auto simp: list_all_iff)
  with assms(1) show ?thesis by (simp add: Sscanf_06d_def fmt_06d_length)
qed

lemma strings_Split_nonempty [simp]: "strings_Split s sep \<noteq> []"
  by (induction s) (auto split: list.splits)

lemma strings_Split_word: "sep \<notin> set w \<Longrightarrow> strings_Split w sep = [w]"
  by (induction w) auto

lemma strings_Split_append:
  "sep \<notin> set w \<Longrightarrow> strings_Split (w @ sep # s) sep = w # strings_Split s sep"
  by (induction w) auto

lemma strings_Split_Join:
  "ws \<noteq> [] \<Longrightarrow> \<forall>w \<in> set ws. sep \<notin> set w \<Longrightarrow> strings_Split (strings_Join ws [sep]) sep = ws"
  by (induction ws "[sep]" rule: strings_Join.induct)
    (auto simp: strings_Split_word strings_Split_append)

lemma strings_Split_Join_snoc:
  "\<forall>w \<in> set ws. sep \<notin> set w \<Longrightarrow>
   strings_Split (concat (map (\<lambda>w. w @ [sep]) ws) @ s) sep = ws @ strings_Split s sep"
  by (induction ws) (auto simp: strings_Split_append)

lemma TrimSpace_id: "\<forall>c \<in> set s. \<not> is_space c \<Longrightarrow> strings_TrimSpace s = s"
proof -
  assume "\<forall>c \<in> set s. \<not> is_space c"
  then have "dropWhile is_space s = s" "dropWhile is_space (rev s) = rev s"
    by (auto simp: dropWhile_eq_self_iff) (metis hd_in_set rev_is_Nil_conv set_rev)
  then show ?thesis by (simp add: strings_TrimSpace_def)
qed

lemma is_digit_not_space: "is_digit c \<Longrightarrow> \<not> is_space c"
  by (auto simp: is_digit_def is_space_def)

end
