(* ===== verification/SSTable.thy ===== *)
theory SSTable
  imports Disk Go_Strings KV_Spec
begin

text \<open>
  The sorted string tables of \<^verbatim>\<open>internal/lsm\<close>: the structures of \<^verbatim>\<open>sstable_format.go\<close>, the writer
  of \<^verbatim>\<open>sstable_writer.go\<close>, the point reader of \<^verbatim>\<open>sstable_reader.go\<close> and the sequential iterator of
  \<^verbatim>\<open>compaction_iterator.go\<close>, all down to the bytes of the file. The writer cuts the pairs into
  data blocks of at least 4096 bytes and records each block's last key, offset and size. The lemmas
  describe the file by the blocks it holds, and show that both readers return what was written.
\<close>

record BlockHandle =
  bh_Offset :: u64
  bh_Size :: u64

record IndexEntry =
  ie_MaxKey :: bytes
  ie_Handle :: BlockHandle

record SSTableMeta =
  sm_FileID :: u64
  sm_MinKey :: bytes
  sm_MaxKey :: bytes
  sm_Size :: u64
  sm_Index :: "IndexEntry list"

definition FooterSize :: nat where "FooterSize = 24"

definition SSTableMagicNumber :: u64 where "SSTableMagicNumber = 0x12345678ABCDEF00"

definition sst_path :: "u64 \<Rightarrow> path" where
  "sst_path fid = (SstDir, fmt_06d (unat fid) @ ''.sst'')"

section \<open>Writer\<close>

definition encode_pair :: "KVPair \<Rightarrow> bytes" where
  "encode_pair p =
     le_PutUint32 (of_nat (length (Key p))) @ Key p @
     (case Value p of
        None \<Rightarrow> le_PutUint32 0xFFFFFFFF
      | Some v \<Rightarrow> le_PutUint32 (of_nat (length v)) @ v)"

text \<open>The loop over the pairs: fill the buffer, and when it holds 4096 bytes or the last pair was
  added, write it out as a block and index it. Returns the error, the current offset, the number
  of bytes written, the index and the disk.\<close>

fun write_blocks ::
  "path \<Rightarrow> KVPair list \<Rightarrow> bytes \<Rightarrow> u64 \<Rightarrow> u64 \<Rightarrow> IndexEntry list \<Rightarrow> disk \<Rightarrow>
   go_error option \<times> u64 \<times> u64 \<times> IndexEntry list \<times> disk"
where
  "write_blocks p [] buf off written index d = (None, off, written, index, d)"
| "write_blocks p (pair # rest) buf off written index d =
     (let buf = buf @ encode_pair pair
      in if length buf \<ge> 4096 \<or> rest = []
         then (case file_Write p buf d of
                 (Some e, d') \<Rightarrow> (Some e, off, written, index, d')
               | (None, d') \<Rightarrow>
                   write_blocks p rest [] (off + of_nat (length buf))
                     (written + of_nat (length buf))
                     (index @ [\<lparr>ie_MaxKey = Key pair,
                                ie_Handle = \<lparr>bh_Offset = off, bh_Size = of_nat (length buf)\<rparr>\<rparr>])
                     d')
         else write_blocks p rest buf off written index d)"

definition encode_index_entry :: "IndexEntry \<Rightarrow> bytes" where
  "encode_index_entry e =
     le_PutUint32 (of_nat (length (ie_MaxKey e))) @ ie_MaxKey e @
     le_PutUint64 (bh_Offset (ie_Handle e)) @ le_PutUint64 (bh_Size (ie_Handle e))"

definition encode_footer :: "u64 \<Rightarrow> u64 \<Rightarrow> bytes" where
  "encode_footer indexOffset indexSize =
     le_PutUint64 indexOffset @ le_PutUint64 indexSize @ le_PutUint64 SSTableMagicNumber"

definition writeSSTable ::
  "path \<Rightarrow> KVPair list \<Rightarrow> disk \<Rightarrow> (u64 \<times> IndexEntry list \<times> go_error option) \<times> disk"
where
  "writeSSTable p ps d =
     (case os_Create p d of
        (Some e, d0) \<Rightarrow> ((0, [], Some e), d0)
      | (None, d0) \<Rightarrow>
          (case write_blocks p ps [] 0 0 [] d0 of
             (Some e, off, written, index, d1) \<Rightarrow> ((written, index, Some e), d1)
           | (None, off, written, index, d1) \<Rightarrow>
               let indexBuf = concat (map encode_index_entry index);
                   indexSize = of_nat (length indexBuf)
               in (case file_Write p indexBuf d1 of
                     (Some e, d2) \<Rightarrow> ((written, index, Some e), d2)
                   | (None, d2) \<Rightarrow>
                       let written = written + indexSize;
                           footerBuf = encode_footer off indexSize
                       in (case file_Write p footerBuf d2 of
                             (Some e, d3) \<Rightarrow> ((written, index, Some e), d3)
                           | (None, d3) \<Rightarrow>
                               let written = written + of_nat (length footerBuf)
                               in (case file_Sync p d3 of
                                     (Some e, d4) \<Rightarrow> ((written, index, Some e), d4)
                                   | (None, d4) \<Rightarrow> ((written, index, None), d4))))))"

section \<open>Point reader\<close>

text \<open>The scan of one data block: records are read in turn until the target key is met, the block is
  used up or a record is cut short.\<close>

function scan_block :: "bytes \<Rightarrow> bytes \<Rightarrow> slice option" where
  "scan_block r target =
     (if r = [] then None
      else case io_ReadFull 4 r of Inl e \<Rightarrow> None | Inr (kl, r1) \<Rightarrow>
           (case io_ReadFull (unat (le_Uint32 kl)) r1 of Inl e \<Rightarrow> None | Inr (key, r2) \<Rightarrow>
            (case io_ReadFull 4 r2 of Inl e \<Rightarrow> None | Inr (vl, r3) \<Rightarrow>
             if le_Uint32 vl = 0xFFFFFFFF
             then (if key = target then Some None else scan_block r3 target)
             else (case io_ReadFull (unat (le_Uint32 vl)) r3 of Inl e \<Rightarrow> None | Inr (val, r4) \<Rightarrow>
                   if key = target then Some (Some val) else scan_block r4 target))))"
  by pat_completeness auto
termination
  by (relation "measure (\<lambda>(r, _). length r)") (auto simp: io_ReadFull_Inr)

declare scan_block.simps [simp del]

definition readValFromSSTable :: "SSTableMeta \<Rightarrow> disk \<Rightarrow> bytes \<Rightarrow> slice option" where
  "readValFromSSTable meta d target =
     (let idx = sort_Search (length (sm_Index meta))
                  (\<lambda>i. bytes_Compare (ie_MaxKey (sm_Index meta ! i)) target \<ge> 0)
      in if idx = length (sm_Index meta) then None
         else let handle = ie_Handle (sm_Index meta ! idx)
              in (case disk_file d (sst_path (sm_FileID meta)) of
                    None \<Rightarrow> None
                  | Some content \<Rightarrow>
                      (case file_ReadAt content (unat (bh_Size handle)) (bh_Offset handle) of
                         None \<Rightarrow> None
                       | Some blockData \<Rightarrow> scan_block blockData target)))"

section \<open>Iterator\<close>

record SSTableIterator =
  it_key :: bytes
  it_value :: slice
  it_valid :: bool
  it_open :: bool
  it_reader :: bytes

text \<open>A full read into a fresh buffer that fails has still filled the front of it and used up the
  reader.\<close>

definition partial_fill :: "nat \<Rightarrow> bytes \<Rightarrow> bytes" where
  "partial_fill n r = r @ replicate (n - length r) 0"

definition Iterator_Next :: "SSTableIterator \<Rightarrow> SSTableIterator" where
  "Iterator_Next it =
     (case io_ReadFull 4 (it_reader it) of
        Inl e \<Rightarrow> it\<lparr>it_valid := False, it_reader := []\<rparr>
      | Inr (kl, r1) \<Rightarrow>
          let keyLen = unat (le_Uint32 kl)
          in (case io_ReadFull keyLen r1 of
                Inl e \<Rightarrow> it\<lparr>it_key := partial_fill keyLen r1, it_valid := False, it_reader := []\<rparr>
              | Inr (key, r2) \<Rightarrow>
                  (case io_ReadFull 4 r2 of
                     Inl e \<Rightarrow> it\<lparr>it_key := key, it_valid := False, it_reader := []\<rparr>
                   | Inr (vl, r3) \<Rightarrow>
                       if le_Uint32 vl = 0xFFFFFFFF
                       then it\<lparr>it_key := key, it_value := None, it_valid := True, it_reader := r3\<rparr>
                       else let valLen = unat (le_Uint32 vl)
                            in (case io_ReadFull valLen r3 of
                                  Inl e \<Rightarrow> it\<lparr>it_key := key, it_value := Some (partial_fill valLen r3),
                                              it_valid := False, it_reader := []\<rparr>
                                | Inr (val, r4) \<Rightarrow>
                                    it\<lparr>it_key := key, it_value := Some val, it_valid := True,
                                       it_reader := r4\<rparr>))))"

definition NewSSTableIterator :: "SSTableMeta option \<Rightarrow> disk \<Rightarrow> go_error + SSTableIterator" where
  "NewSSTableIterator meta_opt d =
     (case meta_opt of
        None \<Rightarrow> Inl NilMeta
      | Some meta \<Rightarrow>
          (case disk_file d (sst_path (sm_FileID meta)) of
             None \<Rightarrow> Inl NotExist
           | Some content \<Rightarrow>
               let dataEndOffset =
                     (if sm_Index meta \<noteq> []
                      then let h = ie_Handle (last (sm_Index meta)) in bh_Offset h + bh_Size h
                      else 0);
                   limit = (if 2 ^ 63 \<le> unat dataEndOffset then 0 else unat dataEndOffset)
               in Inr (Iterator_Next
                    \<lparr>it_key = [], it_value = None, it_valid = False, it_open = True,
                     it_reader = take limit content\<rparr>)))"

definition Iterator_Close :: "SSTableIterator \<Rightarrow> SSTableIterator" where
  "Iterator_Close it = it\<lparr>it_open := False, it_valid := False\<rparr>"

section \<open>The file as its blocks\<close>

definition enc :: "KVPair list \<Rightarrow> bytes" where
  "enc ps = concat (map encode_pair ps)"

definition pair_ok :: "KVPair \<Rightarrow> bool" where
  "pair_ok p \<longleftrightarrow> length (Key p) < 2 ^ 32 \<and>
     (case Value p of None \<Rightarrow> True | Some v \<Rightarrow> length v < 2 ^ 32 - 1)"

fun split_blocks :: "KVPair list \<Rightarrow> KVPair list \<Rightarrow> KVPair list list" where
  "split_blocks cur [] = []"
| "split_blocks cur (p # rest) =
     (let cur = cur @ [p]
      in if length (enc cur) \<ge> 4096 \<or> rest = [] then cur # split_blocks [] rest
         else split_blocks cur rest)"

fun block_index :: "nat \<Rightarrow> KVPair list list \<Rightarrow> IndexEntry list" where
  "block_index off [] = []"
| "block_index off (b # bs) =
     \<lparr>ie_MaxKey = Key (last b),
      ie_Handle = \<lparr>bh_Offset = of_nat off, bh_Size = of_nat (length (enc b))\<rparr>\<rparr> #
     block_index (off + length (enc b)) bs"

definition sst_index :: "KVPair list \<Rightarrow> IndexEntry list" where
  "sst_index ps = block_index 0 (split_blocks [] ps)"

definition index_bytes :: "KVPair list \<Rightarrow> bytes" where
  "index_bytes ps = concat (map encode_index_entry (sst_index ps))"

definition sst_bytes :: "KVPair list \<Rightarrow> bytes" where
  "sst_bytes ps =
     enc ps @ index_bytes ps @
     encode_footer (of_nat (length (enc ps))) (of_nat (length (index_bytes ps)))"

text \<open>What a table must satisfy to be stored: sorted, not empty, lengths within the 32-bit fields
  and the tombstone mark, offsets within the signed 64-bit range.\<close>

definition storable :: "KVPair list \<Rightarrow> bool" where
  "storable ps \<longleftrightarrow> ps \<noteq> [] \<and> sorted_pairs ps \<and> list_all pair_ok ps \<and>
     length (sst_bytes ps) < 2 ^ 63"

definition sst_meta :: "u64 \<Rightarrow> KVPair list \<Rightarrow> SSTableMeta" where
  "sst_meta fid ps =
     \<lparr>sm_FileID = fid, sm_MinKey = Key (hd ps), sm_MaxKey = Key (last ps),
      sm_Size = of_nat (length (sst_bytes ps)), sm_Index = sst_index ps\<rparr>"

section \<open>Lemmas\<close>

subsection \<open>Blocks\<close>

lemma enc_simps [simp]:
  "enc [] = []" "enc (p # ps) = encode_pair p @ enc ps" "enc (ps @ qs) = enc ps @ enc qs"
  by (simp_all add: enc_def)

lemma encode_pair_nonempty [simp]: "encode_pair p \<noteq> []"
  by (simp add: encode_pair_def)

lemma concat_split_blocks: "ps \<noteq> [] \<Longrightarrow> concat (split_blocks cur ps) = cur @ ps"
proof (induction cur ps rule: split_blocks.induct)
  case (2 cur p rest)
  then show ?case by (cases "rest = []") (auto simp: Let_def)
qed simp

lemma concat_split_blocks_Nil [simp]: "concat (split_blocks [] ps) = ps"
  by (cases "ps = []") (simp_all add: concat_split_blocks)

lemma split_blocks_nonempty: "b \<in> set (split_blocks cur ps) \<Longrightarrow> b \<noteq> []"
  by (induction cur ps rule: split_blocks.induct) (auto simp: Let_def split: if_splits)

lemma block_index_append:
  "block_index off (bs @ cs) = block_index off bs @ block_index (off + length (enc (concat bs))) cs"
  by (induction bs arbitrary: off) (simp_all add: add.assoc)

lemma length_block_index [simp]: "length (block_index off bs) = length bs"
  by (induction off bs rule: block_index.induct) simp_all

lemma block_index_MaxKey [simp]: "map ie_MaxKey (block_index off bs) = map (\<lambda>b. Key (last b)) bs"
  by (induction off bs rule: block_index.induct) simp_all

lemma write_blocks_ok:
  "faults d = [] \<Longrightarrow> (ps = [] \<longrightarrow> cur = []) \<Longrightarrow>
   write_blocks p ps (enc cur) (of_nat off) (of_nat off) index d =
     (None, of_nat (off + length (enc (cur @ ps))), of_nat (off + length (enc (cur @ ps))),
      index @ block_index off (split_blocks cur ps), append_file p (enc (cur @ ps)) d)"
proof (induction cur ps arbitrary: off index d rule: split_blocks.induct)
  case (2 cur q rest)
  show ?case
  proof (cases "4096 \<le> length (enc (cur @ [q])) \<or> rest = []")
    case True
    with "2.IH"(1) [OF refl True, of "append_file p (enc (cur @ [q])) d"
        "off + length (enc (cur @ [q]))"] "2.prems" show ?thesis
      by (simp add: Let_def algebra_simps)
  next
    case False
    with "2.IH"(2) [OF refl False] "2.prems" show ?thesis
      by (simp add: Let_def)
  qed
qed simp

lemma writeSSTable_ok:
  assumes "faults d = []"
  shows "writeSSTable p ps d =
     ((of_nat (length (sst_bytes ps)), sst_index ps, None), set_file p (sst_bytes ps) d)"
  using assms write_blocks_ok [of "set_file p [] d" ps "[]" p 0 "[]"]
  by (simp add: writeSSTable_def sst_bytes_def index_bytes_def sst_index_def Let_def
      encode_footer_def)

text \<open>Under faults: a writer that reports success has written the same file, and in any case no
  other file has changed.\<close>

lemma write_blocks_frame:
  "q \<noteq> p \<Longrightarrow> disk_file (snd (snd (snd (snd (write_blocks p ps buf off n index d))))) q = disk_file d q"
proof (induction p ps buf off n index d rule: write_blocks.induct)
  case (2 p pair rest buf off n index d)
  show ?case
  proof (cases "file_Write p (buf @ encode_pair pair) d")
    case (Pair e d')
    then have "disk_file d' q = disk_file d q" using calls_frame(3) [OF "2.prems"] by (metis snd_conv)
    with 2 Pair show ?thesis by (auto simp: Let_def split: option.splits)
  qed
qed simp

lemma write_blocks_None:
  "write_blocks p ps (enc cur) (of_nat off) (of_nat off) index d = (None, off', n', index', d') \<Longrightarrow>
   (ps = [] \<longrightarrow> cur = []) \<Longrightarrow> disk_file d p = Some old \<Longrightarrow>
   off' = of_nat (off + length (enc (cur @ ps))) \<and> n' = off' \<and>
   index' = index @ block_index off (split_blocks cur ps) \<and>
   disk_file d' p = Some (old @ enc (cur @ ps))"
proof (induction cur ps arbitrary: off index d old rule: split_blocks.induct)
  case (2 cur q rest)
  let ?cur = "cur @ [q]"
  show ?case
  proof (cases "4096 \<le> length (enc ?cur) \<or> rest = []")
    case True
    then obtain d1 where w: "file_Write p (enc ?cur) d = (None, d1)"
      and run: "write_blocks p rest (enc []) (of_nat (off + length (enc ?cur)))
        (of_nat (off + length (enc ?cur))) (index @ [\<lparr>ie_MaxKey = Key q,
          ie_Handle = \<lparr>bh_Offset = of_nat off, bh_Size = of_nat (length (enc ?cur))\<rparr>\<rparr>]) d1 =
        (None, off', n', index', d')"
      using "2.prems"(1) by (auto simp: Let_def split: prod.splits option.splits)
    have "disk_file d1 p = Some (old @ enc ?cur)"
      using file_Write_None [OF w, of p] "2.prems"(3) by simp
    from "2.IH"(1) [OF refl True run _ this] show ?thesis
      using True by (simp add: Let_def algebra_simps)
  next
    case False
    with "2.prems" "2.IH"(2) [OF refl False, of off index d old] show ?thesis by (simp add: Let_def)
  qed
qed auto

lemma writeSSTable_frame:
  assumes "q \<noteq> p"
  shows "disk_file (snd (writeSSTable p ps d)) q = disk_file d q"
  by (simp add: writeSSTable_def Let_def case_prod_beta calls_frame [OF assms]
      write_blocks_frame [OF assms] split: option.splits)

lemma writeSSTable_None:
  assumes "writeSSTable p ps d = ((n, index, None), d')"
  shows "n = of_nat (length (sst_bytes ps)) \<and> index = sst_index ps \<and>
    disk_file d' p = Some (sst_bytes ps)"
proof -
  from assms obtain d0 d1 d2 d3 off w where
    c: "os_Create p d = (None, d0)" and b: "write_blocks p ps [] 0 0 [] d0 = (None, off, w, index, d1)"
    and i: "file_Write p (concat (map encode_index_entry index)) d1 = (None, d2)"
    and f: "file_Write p (encode_footer off (of_nat (length (concat (map encode_index_entry index))))) d2 =
      (None, d3)"
    and s: "file_Sync p d3 = (None, d')"
    and n: "n = w + of_nat (length (concat (map encode_index_entry index))) +
      of_nat (length (encode_footer off (of_nat (length (concat (map encode_index_entry index))))))"
    by (auto simp: writeSSTable_def Let_def split: prod.splits option.splits)
  have "off = of_nat (length (enc ps)) \<and> w = off \<and> index = sst_index ps \<and> disk_file d1 p = Some (enc ps)"
    using write_blocks_None [of p ps "[]" 0 "[]" d0 off w index d1 "[]"] b os_Create_None [OF c, of p]
    by (simp add: sst_index_def)
  moreover have "disk_file d' p = disk_file d3 p" using s file_Sync_disk [of p d3] by simp
  ultimately show ?thesis
    using n file_Write_None [OF i, of p] file_Write_None [OF f, of p]
    by (simp add: sst_bytes_def index_bytes_def)
qed

subsection \<open>Reading records back\<close>

lemma all_ones32: "length v < 2 ^ 32 - 1 \<Longrightarrow> (of_nat (length v) :: u32) \<noteq> 0xFFFFFFFF"
proof
  assume "length v < 2 ^ 32 - 1" and "(of_nat (length v) :: u32) = 0xFFFFFFFF"
  then have "unat (of_nat (length v) :: u32) = unat (0xFFFFFFFF :: u32)" by simp
  with \<open>length v < 2 ^ 32 - 1\<close> show False by (simp add: unat_of_nat32)
qed

lemma scan_block_pair:
  assumes "pair_ok p"
  shows "scan_block (encode_pair p @ r) k =
    (if k = Key p then Some (Value p) else scan_block r k)"
proof -
  have "scan_block (encode_pair p @ r) k =
    (if Key p = k then Some (Value p) else scan_block r k)"
    using assms
    by (subst scan_block.simps)
      (auto simp: encode_pair_def pair_ok_def unat_of_nat32 all_ones32 split: option.splits)
  then show ?thesis by auto
qed

lemma scan_block_enc: "list_all pair_ok ps \<Longrightarrow> scan_block (enc ps) k = pairs_map ps k"
  by (induction ps) (simp_all add: scan_block_pair scan_block.simps [of "[]"])

subsection \<open>Point lookups\<close>

text \<open>The block that the index search picks is the only one that can hold the key.\<close>

lemma sorted_blocks_last:
  assumes "sorted_pairs (concat bs)" and "\<And>b. b \<in> set bs \<Longrightarrow> b \<noteq> []"
  shows "sorted_wrt (<) (map (\<lambda>b. Key (last b)) bs)"
  using assms
proof (induction bs)
  case (Cons b bs)
  have "Key (last b) < Key (last c)" if "c \<in> set bs" for c
    using Cons.prems that by (auto simp: sorted_pairs_append)
  with Cons show ?case by (auto simp: sorted_pairs_append)
qed simp

lemma sorted_pairs_last: "sorted_pairs b \<Longrightarrow> p \<in> set b \<Longrightarrow> Key p \<le> Key (last b)"
  by (induction b) (auto simp: less_imp_le)

lemma key_below_blocks:
  assumes "sorted_pairs (concat bs)" and "\<And>c. c \<in> set bs \<Longrightarrow> Key (last c) < k"
  shows "pairs_map (concat bs) k = None"
proof -
  have "Key p \<noteq> k" if "c \<in> set bs" "p \<in> set c" for c p
  proof -
    have "sorted_pairs c" using assms(1) that(1) by (induction bs) (auto simp: sorted_pairs_append)
    then have "Key p \<le> Key (last c)" using that(2) by (rule sorted_pairs_last)
    with assms(2) [OF that(1)] show ?thesis by auto
  qed
  then show ?thesis by (auto simp: pairs_map_None)
qed

lemma pairs_map_block:
  assumes "sorted_pairs (concat bs @ b @ concat cs)" and "b \<noteq> []"
    and "\<And>c. c \<in> set bs \<Longrightarrow> Key (last c) < k" and "k \<le> Key (last b)"
  shows "pairs_map (concat bs @ b @ concat cs) k = pairs_map b k"
proof -
  have "pairs_map (concat bs) k = None"
    using assms(1,3) by (intro key_below_blocks) (auto simp: sorted_pairs_append)
  moreover have "k < Key q" if "q \<in> set (concat cs)" for q
    using assms(1,4) last_in_set [OF assms(2)] that
    by (auto simp del: set_concat simp: sorted_pairs_append intro: order.strict_trans1)
  then have "pairs_map (concat cs) k = None"
    unfolding pairs_map_None by (metis imageE less_irrefl)
  ultimately show ?thesis by (simp split: option.splits)
qed

lemma index_block:
  assumes "block_index off bs = us @ vs"
  obtains cs ds where "bs = cs @ ds" "us = block_index off cs"
    "vs = block_index (off + length (enc (concat cs))) ds"
proof
  show "bs = take (length us) bs @ drop (length us) bs" by simp
  have "length us \<le> length bs" using arg_cong [OF assms, of length] by simp
  moreover have "us @ vs = block_index off (take (length us) bs) @
    block_index (off + length (enc (concat (take (length us) bs)))) (drop (length us) bs)"
    using assms by (simp flip: block_index_append)
  ultimately show "us = block_index off (take (length us) bs)"
    and "vs = block_index (off + length (enc (concat (take (length us) bs)))) (drop (length us) bs)"
    by (simp_all add: append_eq_append_conv)
qed

lemma block_index_last:
  "(\<forall>e \<in> set (block_index off bs). P (ie_MaxKey e)) \<longleftrightarrow> (\<forall>b \<in> set bs. P (Key (last b)))"
  by (induction off bs rule: block_index.induct) auto

text \<open>Reading the block that an index entry points to.\<close>

lemma file_ReadAt_block:
  assumes "length (sst_bytes ps) < 2 ^ 63" and "split_blocks [] ps = cs @ b # ds"
  shows "file_ReadAt (sst_bytes ps) (unat (of_nat (length (enc b)) :: u64))
           (of_nat (length (enc (concat cs)))) = Some (enc b)"
proof -
  have ps: "ps = concat cs @ b @ concat ds"
    using concat_split_blocks_Nil [of ps] assms(2) by simp
  then have split: "sst_bytes ps = enc (concat cs) @ enc b @ (enc (concat ds) @ index_bytes ps @
    encode_footer (of_nat (length (enc ps))) (of_nat (length (index_bytes ps))))"
    by (simp add: sst_bytes_def)
  have "length (enc b) < 2 ^ 64" and "length (enc (concat cs) @ enc b) < 2 ^ 63"
    using assms(1) by (simp_all add: split)
  then show ?thesis unfolding split by (intro file_ReadAt_append) (simp_all add: unat_of_nat64)
qed

lemma readValFromSSTable_sst_bytes:
  assumes "storable ps" and "disk_file d (sst_path fid) = Some (sst_bytes ps)"
  shows "readValFromSSTable (sst_meta fid ps) d k = pairs_map ps k"
proof -
  let ?bs = "split_blocks [] ps" and ?idx = "sst_index ps"
  have st: "sorted_pairs (concat ?bs)" "length (sst_bytes ps) < 2 ^ 63" "list_all pair_ok ps"
    using assms(1) by (simp_all add: storable_def)
  have ne: "b \<noteq> []" if "b \<in> set ?bs" for b using that by (rule split_blocks_nonempty)
  have sorted: "sorted_wrt (<) (map ie_MaxKey ?idx)"
    using sorted_blocks_last [OF st(1) ne] by (simp add: sst_index_def)
  obtain us vs where s: "?idx = us @ vs" "\<And>u. u \<in> set us \<Longrightarrow> ie_MaxKey u < k"
    "\<And>v. v \<in> set vs \<Longrightarrow> k \<le> ie_MaxKey v"
    using sorted by (rule sorted_split [where k = k]) blast
  have search: "sort_Search (length (us @ vs))
      (\<lambda>i. bytes_Compare (ie_MaxKey ((us @ vs) ! i)) k \<ge> 0) = length us"
    unfolding bytes_Compare_ge by (rule sort_Search_sorted) (use sorted s in auto)
  obtain cs ds where split: "?bs = cs @ ds" "us = block_index 0 cs"
    "vs = block_index (length (enc (concat cs))) ds"
    using index_block [of 0 ?bs us vs] s(1) by (auto simp: sst_index_def)
  have below: "Key (last c) < k" if "c \<in> set cs" for c
    using s(2) that block_index_last [of 0 cs "\<lambda>x. x < k"] by (auto simp: split(2))
  show ?thesis
  proof (cases ds)
    case Nil
    then have "pairs_map (concat ?bs) k = None"
      using st(1) below split(1) by (intro key_below_blocks) simp_all
    then have "pairs_map ps k = None" by simp
    with Nil show ?thesis
      using search by (simp add: readValFromSSTable_def sst_meta_def s(1) split(3))
  next
    case (Cons b es)
    have k: "k \<le> Key (last b)" using s(3) [of "hd vs"] by (simp add: split(3) Cons)
    have ps: "ps = concat cs @ b @ concat es"
      using concat_split_blocks_Nil [of ps] split(1) Cons by simp
    have "pairs_map ps k = pairs_map b k"
      unfolding ps using st(1) ne [of b] below k by (intro pairs_map_block) (simp_all add: split(1) Cons)
    moreover have "scan_block (enc b) k = pairs_map b k"
      using st(3) by (intro scan_block_enc) (simp add: ps)
    moreover have "file_ReadAt (sst_bytes ps) (unat (of_nat (length (enc b)) :: u64))
        (of_nat (length (enc (concat cs)))) = Some (enc b)"
      using st(2) split(1) unfolding Cons by (rule file_ReadAt_block)
    ultimately show ?thesis
      using search assms(2)
      by (simp add: readValFromSSTable_def sst_meta_def s(1) split(3) Cons nth_append)
  qed
qed

subsection \<open>Sequential iteration\<close>

text \<open>The pairs an iterator still delivers, the current one first.\<close>

function iter_pairs :: "SSTableIterator \<Rightarrow> KVPair list" where
  "iter_pairs it =
     (if it_valid it
      then \<lparr>Key = it_key it, Value = it_value it\<rparr> # iter_pairs (Iterator_Next it) else [])"
  by pat_completeness auto
termination
  by (relation "measure (\<lambda>it. if it_valid it then Suc (length (it_reader it)) else 0)")
    (auto simp: Iterator_Next_def Let_def io_ReadFull_Inr split: sum.splits)

declare iter_pairs.simps [simp del]

lemma Iterator_Next_pair:
  assumes "pair_ok p" and "it_reader it = encode_pair p @ r"
  shows "Iterator_Next it =
    it\<lparr>it_key := Key p, it_value := Value p, it_valid := True, it_reader := r\<rparr>"
  using assms
  by (auto simp: Iterator_Next_def encode_pair_def pair_ok_def unat_of_nat32 all_ones32
      split: option.splits)

lemma Iterator_Next_Nil: "it_reader it = [] \<Longrightarrow> \<not> it_valid (Iterator_Next it)"
  by (simp add: Iterator_Next_def io_ReadFull_def)

lemma iter_pairs_enc:
  "list_all pair_ok ps \<Longrightarrow> it_reader it = enc ps \<Longrightarrow> iter_pairs (Iterator_Next it) = ps"
proof (induction ps arbitrary: it)
  case Nil
  then show ?case by (simp add: Iterator_Next_Nil iter_pairs.simps)
next
  case (Cons p ps)
  then have nxt: "Iterator_Next it =
    it\<lparr>it_key := Key p, it_value := Value p, it_valid := True, it_reader := enc ps\<rparr>"
    by (simp add: Iterator_Next_pair)
  show ?case
    using Cons by (subst iter_pairs.simps) (simp add: nxt)
qed

lemma block_index_end:
  "bs \<noteq> [] \<Longrightarrow>
   bh_Offset (ie_Handle (last (block_index off bs))) + bh_Size (ie_Handle (last (block_index off bs))) =
   of_nat (off + length (enc (concat bs)))"
proof (induction off bs rule: block_index.induct)
  case (2 off b bs)
  then show ?case by (cases bs) (auto simp: add.assoc)
qed simp

lemma sst_index_end:
  assumes "ps \<noteq> []"
  shows "sst_index ps \<noteq> []"
    and "bh_Offset (ie_Handle (last (sst_index ps))) + bh_Size (ie_Handle (last (sst_index ps))) =
      of_nat (length (enc ps))"
proof -
  have ne: "split_blocks [] ps \<noteq> []"
    using assms concat_split_blocks_Nil [of ps] by (metis concat.simps(1))
  then show "sst_index ps \<noteq> []"
    unfolding sst_index_def by (metis length_0_conv length_block_index)
  show "bh_Offset (ie_Handle (last (sst_index ps))) + bh_Size (ie_Handle (last (sst_index ps))) =
      of_nat (length (enc ps))"
    using block_index_end [OF ne, of 0] by (simp add: sst_index_def)
qed

lemma NewSSTableIterator_sst_bytes:
  assumes "storable ps" and "disk_file d (sst_path fid) = Some (sst_bytes ps)"
  shows "\<exists>it. NewSSTableIterator (Some (sst_meta fid ps)) d = Inr it \<and> iter_pairs it = ps"
proof -
  have "ps \<noteq> []" and len: "length (sst_bytes ps) < 2 ^ 63" and ok: "list_all pair_ok ps"
    using assms(1) by (simp_all add: storable_def)
  have enc: "length (enc ps) < 2 ^ 63" using len by (simp add: sst_bytes_def)
  have "take (length (enc ps)) (sst_bytes ps) = enc ps" by (simp add: sst_bytes_def)
  then show ?thesis
    using assms(2) sst_index_end [OF \<open>ps \<noteq> []\<close>] enc iter_pairs_enc [OF ok]
    by (simp add: NewSSTableIterator_def sst_meta_def Let_def unat_of_nat64)
qed

end
