(* ===== verification/Manifest.thy ===== *)
theory Manifest
  imports SSTable
begin

text \<open>
  The order of the tables on disk: \<^verbatim>\<open>persistManifest\<close> and \<^verbatim>\<open>applyManifestOrder\<close> of
  \<^verbatim>\<open>internal/lsm/kvstore_compaction.go\<close>. Every change of the table list appends a line with
  the file numbers to \<^verbatim>\<open>manifest.log\<close>; a restart reads the last line that is not blank, puts the
  tables it lists first and appends the tables it does not list. The lemmas show the round trip:
  the list that was persisted last comes back in its order.
\<close>

definition to_string :: "bytes \<Rightarrow> string" where
  "to_string bs = map (\<lambda>b. char_of (unat b)) bs"

definition of_string :: "string \<Rightarrow> bytes" where
  "of_string s = map (\<lambda>c. of_nat (of_char c)) s"

definition newline :: char where
  "newline = CHR 0x0A"

definition manifest_path :: path where
  "manifest_path = (DataDir, ''manifest.log'')"

definition manifest_ids :: "SSTableMeta list \<Rightarrow> string" where
  "manifest_ids snapshot = strings_Join (map (\<lambda>m. FormatUint (unat (sm_FileID m))) snapshot) '',''"

definition manifest_line :: "SSTableMeta list \<Rightarrow> string" where
  "manifest_line snapshot = manifest_ids snapshot @ [newline]"

definition persistManifest :: "SSTableMeta list \<Rightarrow> disk \<Rightarrow> go_error option \<times> disk" where
  "persistManifest snapshot d =
     (case os_OpenAppend manifest_path d of
        (Some e, d1) \<Rightarrow> (Some e, d1)
      | (None, d1) \<Rightarrow>
          (case file_Write manifest_path (of_string (manifest_line snapshot)) d1 of
             (Some e, d2) \<Rightarrow> (Some e, d2)
           | (None, d2) \<Rightarrow> file_Sync manifest_path d2))"

text \<open>The backward loop over the lines.\<close>

fun last_nonblank :: "string list \<Rightarrow> string" where
  "last_nonblank [] = []"
| "last_nonblank (line # rest) =
     (let line = strings_TrimSpace line in if line \<noteq> [] then line else last_nonblank rest)"

definition metaByID :: "SSTableMeta list \<Rightarrow> u64 \<Rightarrow> SSTableMeta option" where
  "metaByID loadedMetas = map_of (rev (map (\<lambda>m. (sm_FileID m, m)) loadedMetas))"

text \<open>One entry of the line: blank, unreadable and unknown entries are skipped.\<close>

definition pick_id :: "(u64 \<Rightarrow> SSTableMeta option) \<Rightarrow> string \<Rightarrow> (u64 \<times> SSTableMeta) option" where
  "pick_id byID idStr =
     (let idStr = strings_TrimSpace idStr
      in if idStr = [] then None
         else case ParseUint idStr of
                None \<Rightarrow> None
              | Some fid \<Rightarrow> (case byID fid of None \<Rightarrow> None | Some meta \<Rightarrow> Some (fid, meta)))"

definition applyManifestOrder :: "SSTableMeta list \<Rightarrow> disk \<Rightarrow> SSTableMeta list" where
  "applyManifestOrder loadedMetas d =
     (case disk_file d manifest_path of
        None \<Rightarrow> loadedMetas
      | Some data \<Rightarrow>
          let lastl = last_nonblank (rev (strings_Split (to_string data) newline))
          in if lastl = [] then loadedMetas
             else let picked = List.map_filter (pick_id (metaByID loadedMetas))
                                 (strings_Split lastl (CHR '',''));
                      ordered = map snd picked;
                      seen = map fst picked
                  in ordered @ filter (\<lambda>m. sm_FileID m \<notin> set seen) loadedMetas)"

section \<open>Lemmas\<close>

lemma to_string_of_string [simp]: "to_string (of_string s) = s"
  by (simp add: to_string_def of_string_def comp_def unat_of_nat map_idI)

lemma of_string_append [simp]: "of_string (s @ t) = of_string s @ of_string t"
  by (simp add: of_string_def)

lemma to_string_append [simp]: "to_string (s @ t) = to_string s @ to_string t"
  by (simp add: to_string_def)

lemma is_digit_chars: "is_digit c \<Longrightarrow> c \<noteq> newline \<and> c \<noteq> CHR '','' \<and> \<not> is_space c"
  by (auto simp: is_digit_def is_space_def newline_def)

lemma comma_not_space: "\<not> is_space (CHR '','')" "CHR '','' \<noteq> newline"
  by (simp_all add: is_space_def newline_def)

lemma strings_Join_chars:
  "c \<in> set (strings_Join ws sep) \<Longrightarrow> c \<in> set sep \<or> (\<exists>w \<in> set ws. c \<in> set w)"
  by (induction ws sep rule: strings_Join.induct) auto

lemma strings_Join_empty: "strings_Join ws sep = [] \<Longrightarrow> w \<in> set ws \<Longrightarrow> w = []"
  by (induction ws sep rule: strings_Join.induct) auto

lemma manifest_ids_chars:
  assumes "c \<in> set (manifest_ids snapshot)"
  shows "c = CHR '','' \<or> is_digit c"
  using strings_Join_chars [OF assms [unfolded manifest_ids_def]] FormatUint_digits
  by (auto simp: list_all_iff)

lemma manifest_ids_plain:
  "newline \<notin> set (manifest_ids snapshot) \<and>
   strings_TrimSpace (manifest_ids snapshot) = manifest_ids snapshot"
proof -
  have "\<forall>c \<in> set (manifest_ids snapshot). c \<noteq> newline \<and> \<not> is_space c"
    by (metis manifest_ids_chars is_digit_chars comma_not_space)
  then show ?thesis using TrimSpace_id by blast
qed

lemma manifest_ids_empty [simp]: "manifest_ids snapshot = [] \<longleftrightarrow> snapshot = []"
proof
  assume *: "manifest_ids snapshot = []"
  show "snapshot = []"
  proof (rule ccontr)
    assume "snapshot \<noteq> []"
    then obtain m where "m \<in> set snapshot" by (cases snapshot) auto
    then have "FormatUint (unat (sm_FileID m)) = []"
      by (intro strings_Join_empty [OF * [unfolded manifest_ids_def]]) auto
    then show False by simp
  qed
qed (simp add: manifest_ids_def)

lemma Split_manifest_ids:
  "snapshot \<noteq> [] \<Longrightarrow> strings_Split (manifest_ids snapshot) (CHR '','') =
     map (\<lambda>m. FormatUint (unat (sm_FileID m))) snapshot"
  unfolding manifest_ids_def
  by (rule strings_Split_Join) (use FormatUint_digits is_digit_chars in \<open>auto simp: list_all_iff\<close>)

text \<open>A manifest is a sequence of lines, of which only the last one with a table counts.\<close>

definition manifest_bytes :: "SSTableMeta list list \<Rightarrow> bytes" where
  "manifest_bytes snaps = of_string (concat (map manifest_line snaps))"

lemma manifest_bytes_simps [simp]:
  "manifest_bytes [] = []"
  "manifest_bytes (xs @ ys) = manifest_bytes xs @ manifest_bytes ys"
  by (simp_all add: manifest_bytes_def of_string_def)

lemma Split_manifest_bytes:
  "strings_Split (to_string (manifest_bytes snaps)) newline = map manifest_ids snaps @ [[]]"
  using strings_Split_Join_snoc [of "map manifest_ids snaps" newline "[]"] manifest_ids_plain
  by (simp add: manifest_bytes_def manifest_line_def [abs_def] comp_def)

lemma pick_id_FormatUint:
  "pick_id byID (FormatUint (unat fid)) = (case byID fid of None \<Rightarrow> None | Some m \<Rightarrow> Some (fid, m))"
proof -
  have "strings_TrimSpace (FormatUint (unat fid)) = FormatUint (unat fid)"
    using FormatUint_digits is_digit_not_space by (intro TrimSpace_id) (auto simp: list_all_iff)
  then show ?thesis by (simp add: pick_id_def)
qed

lemma metaByID_distinct:
  assumes "distinct (map sm_FileID ms)"
  shows "metaByID ms fid = Some m \<longleftrightarrow> m \<in> set ms \<and> sm_FileID m = fid"
proof -
  have "distinct (map fst (rev (map (\<lambda>m. (sm_FileID m, m)) ms)))"
    using assms by (simp add: rev_map [symmetric] comp_def)
  then show ?thesis by (auto simp: metaByID_def)
qed

lemma map_filter_Some: "(\<And>x. x \<in> set xs \<Longrightarrow> f x = Some (g x)) \<Longrightarrow> List.map_filter f xs = map g xs"
  by (induction xs) (auto simp: List.map_filter_def)

text \<open>The round trip.\<close>

lemma applyManifestOrder_bytes:
  assumes "disk_file d manifest_path = Some (manifest_bytes (snaps @ [snap]))"
    and "snap \<noteq> []" and "distinct (map sm_FileID loaded)" and "set snap \<subseteq> set loaded"
  shows "applyManifestOrder loaded d =
    snap @ filter (\<lambda>m. sm_FileID m \<notin> sm_FileID ` set snap) loaded"
proof -
  have "last_nonblank (rev (strings_Split (to_string (manifest_bytes (snaps @ [snap]))) newline)) =
      manifest_ids snap"
    unfolding Split_manifest_bytes using assms(2)
    by (simp add: manifest_ids_plain TrimSpace_id [of "[]"])
  moreover have pick: "List.map_filter (pick_id (metaByID loaded) \<circ> (\<lambda>m. FormatUint (unat (sm_FileID m)))) snap =
      map (\<lambda>m. (sm_FileID m, m)) snap"
  proof (rule map_filter_Some)
    fix m assume "m \<in> set snap"
    with assms(4) have "metaByID loaded (sm_FileID m) = Some m"
      by (auto simp: metaByID_distinct [OF assms(3)])
    then show "(pick_id (metaByID loaded) \<circ> (\<lambda>m. FormatUint (unat (sm_FileID m)))) m = Some (sm_FileID m, m)"
      by (simp add: pick_id_FormatUint)
  qed
  then have "List.map_filter (pick_id (metaByID loaded)) (strings_Split (manifest_ids snap) (CHR '','')) =
      map (\<lambda>m. (sm_FileID m, m)) snap"
    unfolding Split_manifest_ids [OF assms(2)] by (simp add: List.map_filter_def filter_map comp_def)
  ultimately show ?thesis
    unfolding applyManifestOrder_def assms(1) option.case Let_def
    using assms(2) by (simp add: comp_def)
qed

lemma persistManifest_None:
  assumes "persistManifest snap d = (None, d')"
  shows "disk_file d' manifest_path =
    Some ((case disk_file d manifest_path of None \<Rightarrow> [] | Some old \<Rightarrow> old) @ manifest_bytes [snap])"
proof -
  obtain d1 d2 where o: "os_OpenAppend manifest_path d = (None, d1)"
    and w: "file_Write manifest_path (of_string (manifest_line snap)) d1 = (None, d2)"
    and s: "file_Sync manifest_path d2 = (None, d')"
    using assms by (auto simp: persistManifest_def split: prod.splits option.splits)
  have "disk_file d1 manifest_path = Some (case disk_file d manifest_path of None \<Rightarrow> [] | Some old \<Rightarrow> old)"
    using o by (auto simp: os_OpenAppend_def dest: disk_file_next_fault split: prod.splits option.splits)
  then show ?thesis
    using file_Write_None [OF w, of manifest_path] file_Sync_disk [of manifest_path d2] s
    by (simp add: manifest_bytes_def)
qed

end
