(* ===== verification/Loader.thy ===== *)
theory Loader
  imports Manifest
begin

text \<open>
  Opening the tables at startup: the file loop of \<^verbatim>\<open>loadSSTables\<close> of
  \<^verbatim>\<open>internal/lsm/kvstore_compaction.go\<close>. Each \<^verbatim>\<open>.sst\<close> file is checked for its magic number, its
  index is read back and its smallest key is taken from the first record. A file shorter than a footer or with
  no index entry is skipped, a file with a wrong magic number stops the loop with an error. The
  lemmas show that a file the writer produced loads as the meta data the writer returned.
\<close>

function load_index :: "bytes \<Rightarrow> IndexEntry list" where
  "load_index r =
     (if r = [] then []
      else case io_ReadFull 4 r of Inl e \<Rightarrow> [] | Inr (kl, r1) \<Rightarrow>
           (case io_ReadFull (unat (le_Uint32 kl)) r1 of Inl e \<Rightarrow> [] | Inr (key, r2) \<Rightarrow>
            (case io_ReadFull 8 r2 of Inl e \<Rightarrow> [] | Inr (off, r3) \<Rightarrow>
             (case io_ReadFull 8 r3 of Inl e \<Rightarrow> [] | Inr (sz, r4) \<Rightarrow>
                \<lparr>ie_MaxKey = key,
                 ie_Handle = \<lparr>bh_Offset = le_Uint64 off, bh_Size = le_Uint64 sz\<rparr>\<rparr> # load_index r4))))"
  by pat_completeness auto
termination
  by (relation "measure length") (auto simp: io_ReadFull_Inr)

declare load_index.simps [simp del]

text \<open>One file: an error, a file to skip, or its meta data.\<close>

definition load_sst :: "u64 \<Rightarrow> string \<Rightarrow> bytes \<Rightarrow> go_error + SSTableMeta option" where
  "load_sst fileID name content =
     (let fileSize = length content
      in if fileSize < FooterSize then Inr None
         else let footerBuf = drop (fileSize - FooterSize) content;
                  magic = le_Uint64 (take 8 (drop 16 footerBuf))
              in if magic \<noteq> SSTableMagicNumber then Inl (BadMagic name)
                 else let indexOffset = le_Uint64 (take 8 footerBuf);
                          indexSize = le_Uint64 (take 8 (drop 8 footerBuf))
                      in (case file_ReadAt content (unat indexSize) indexOffset of
                            None \<Rightarrow> Inl (ReadError EOF)
                          | Some indexBuf \<Rightarrow>
                              let index = load_index indexBuf
                              in if index = [] then Inr None
                                 else case (case io_ReadFull 4 content of
                                              Inl e \<Rightarrow> Inr []
                                            | Inr (kl, r) \<Rightarrow>
                                                (case io_ReadFull (unat (le_Uint32 kl)) r of
                                                   Inl e \<Rightarrow> Inl (ReadError e)
                                                 | Inr (k, r') \<Rightarrow> Inr k)) of
                                        Inl e \<Rightarrow> Inl e
                                      | Inr minKey \<Rightarrow>
                                          Inr (Some \<lparr>sm_FileID = fileID, sm_MinKey = minKey,
                                                     sm_MaxKey = ie_MaxKey (last index),
                                                     sm_Size = of_nat fileSize, sm_Index = index\<rparr>)))"

definition bumpNextFileID :: "u64 \<Rightarrow> u64 \<Rightarrow> u64" where
  "bumpNextFileID fileID nextID = (if fileID \<ge> nextID then fileID + 1 else nextID)"

text \<open>The loop over the directory. The counter is bumped file by file, so an error leaves it where
  the files before brought it.\<close>

fun load_files ::
  "disk \<Rightarrow> string list \<Rightarrow> SSTableMeta list \<Rightarrow> u64 \<Rightarrow> (go_error + SSTableMeta list) \<times> u64"
where
  "load_files d [] loaded nextID = (Inr loaded, nextID)"
| "load_files d (name # names) loaded nextID =
     (if filepath_Ext name \<noteq> ''.sst'' then load_files d names loaded nextID
      else let fileID = Sscanf_06d name
           in (case disk_file d (SstDir, name) of
                 None \<Rightarrow> (Inl NotExist, nextID)
               | Some content \<Rightarrow>
                   (case load_sst fileID name content of
                      Inl e \<Rightarrow> (Inl e, nextID)
                    | Inr None \<Rightarrow> load_files d names loaded nextID
                    | Inr (Some meta) \<Rightarrow>
                        load_files d names (loaded @ [meta]) (bumpNextFileID fileID nextID))))"

section \<open>Lemmas\<close>

lemma load_index_entry:
  assumes "length (ie_MaxKey e) < 2 ^ 32"
  shows "load_index (encode_index_entry e @ r) = e # load_index r"
proof -
  have "encode_index_entry e @ r \<noteq> []" by (simp add: encode_index_entry_def)
  then show ?thesis
    using assms
    by (subst load_index.simps) (simp add: encode_index_entry_def unat_of_nat32 codec_simps)
qed

lemma load_index_concat:
  "\<forall>e \<in> set es. length (ie_MaxKey e) < 2 ^ 32 \<Longrightarrow> load_index (concat (map encode_index_entry es)) = es"
  by (induction es) (simp_all add: load_index_entry load_index.simps [of "[]"])

lemma le_Put_length [simp]: "length (le_PutUint64 v) = 8" "length (le_PutUint32 w) = 4"
  by (simp_all add: le_PutUint64_def le_PutUint32_def)

lemma footer_length [simp]: "length (encode_footer a b) = 24"
  by (simp add: encode_footer_def)

lemma footer_fields:
  "le_Uint64 (take 8 (encode_footer a b)) = a"
  "le_Uint64 (take 8 (drop 8 (encode_footer a b))) = b"
  "le_Uint64 (take 8 (drop 16 (encode_footer a b))) = SSTableMagicNumber"
  by (simp_all add: encode_footer_def)

lemma sst_index_nonempty: "ps \<noteq> [] \<Longrightarrow> sst_index ps \<noteq> []"
  by (metis block_index.simps(1) concat.simps(1) concat_split_blocks_Nil length_0_conv
      length_block_index sst_index_def)

lemma sst_index_last: "ps \<noteq> [] \<Longrightarrow> ie_MaxKey (last (sst_index ps)) = Key (last ps)"
proof -
  assume ps: "ps \<noteq> []"
  let ?bs = "split_blocks [] ps"
  from ps have ne: "?bs \<noteq> []" using sst_index_nonempty [of ps] by (auto simp: sst_index_def)
  then have "last ?bs \<noteq> []" using split_blocks_nonempty [OF last_in_set] by blast
  then have "last ps = last (last ?bs)"
    using concat_split_blocks_Nil [of ps] ne
    by (metis append_butlast_last_id concat.simps concat_append append.right_neutral last_appendR)
  moreover have "ie_MaxKey (last (sst_index ps)) = last (map ie_MaxKey (sst_index ps))"
    using sst_index_nonempty [OF ps] by (simp add: last_map)
  ultimately show ?thesis using ne by (simp add: sst_index_def last_map)
qed

lemma sst_index_keys: "e \<in> set (sst_index ps) \<Longrightarrow> \<exists>p \<in> set ps. ie_MaxKey e = Key p"
proof -
  assume "e \<in> set (sst_index ps)"
  then have "ie_MaxKey e \<in> set (map ie_MaxKey (sst_index ps))" by simp
  then obtain b where b: "b \<in> set (split_blocks [] ps)" "ie_MaxKey e = Key (last b)"
    unfolding sst_index_def block_index_MaxKey set_map by blast
  have "last b \<in> set (concat (split_blocks [] ps))"
    using b(1) last_in_set [OF split_blocks_nonempty [OF b(1)]] unfolding set_concat by blast
  with b(2) show ?thesis by auto
qed

text \<open>A written file loads as the meta data that the writer's caller built.\<close>

lemma load_sst_bytes:
  assumes "storable ps"
  shows "load_sst fid name (sst_bytes ps) = Inr (Some (sst_meta fid ps))"
proof -
  have ps: "ps \<noteq> []" "list_all pair_ok ps" "length (sst_bytes ps) < 2 ^ 63"
    using assms by (simp_all add: storable_def)
  let ?foot = "encode_footer (of_nat (length (enc ps))) (of_nat (length (index_bytes ps)))"
  have foot: "drop (length (sst_bytes ps) - FooterSize) (sst_bytes ps) = ?foot"
    by (simp add: sst_bytes_def FooterSize_def)
  have "length (index_bytes ps) < 2 ^ 64" using ps(3) by (simp add: sst_bytes_def)
  then have idx: "file_ReadAt (sst_bytes ps) (unat (of_nat (length (index_bytes ps)) :: u64))
      (of_nat (length (enc ps))) = Some (index_bytes ps)"
    using ps(3) unfolding sst_bytes_def by (intro file_ReadAt_append) (simp_all add: unat_of_nat64)
  have "\<forall>e \<in> set (sst_index ps). length (ie_MaxKey e) < 2 ^ 32"
    using sst_index_keys [of _ ps] ps(2) by (auto simp: list_all_iff pair_ok_def) fastforce
  then have index: "load_index (index_bytes ps) = sst_index ps"
    unfolding index_bytes_def by (rule load_index_concat)
  let ?p = "hd ps"
  have "length (Key ?p) < 2 ^ 32" using ps(1,2) by (cases ps) (auto simp: pair_ok_def)
  moreover obtain r' where "sst_bytes ps = le_PutUint32 (of_nat (length (Key ?p))) @ Key ?p @ r'"
    using ps(1) by (cases ps) (simp_all add: sst_bytes_def encode_pair_def)
  ultimately have first: "io_ReadFull 4 (sst_bytes ps) =
      Inr (le_PutUint32 (of_nat (length (Key ?p))), Key ?p @ r')"
    "io_ReadFull (unat (of_nat (length (Key ?p)) :: u32)) (Key ?p @ r') = Inr (Key ?p, r')"
    by (simp_all add: unat_of_nat32)
  have "\<not> length (sst_bytes ps) < FooterSize" by (simp add: sst_bytes_def FooterSize_def)
  then show ?thesis
    unfolding load_sst_def Let_def foot footer_fields idx
    by (simp add: index first sst_index_nonempty [OF ps(1)] sst_index_last [OF ps(1)] sst_meta_def)
qed

text \<open>The names the store gives its files.\<close>

lemma takeWhile_sst_suffix:
  "takeWhile (\<lambda>c. c \<noteq> CHR ''.'') (rev (s @ ''.sst'')) = ''tss''"
  by simp

lemma filepath_Ext_sst [simp]: "filepath_Ext (s @ ''.sst'') = ''.sst''"
  by (simp add: filepath_Ext_def)

lemma Sscanf_sst_path: "unat fid < 10 ^ 6 \<Longrightarrow> Sscanf_06d (snd (sst_path fid)) = fid"
  unfolding sst_path_def using Sscanf_fmt_06d [of fid "CHR ''.''" "''sst''"]
  by (simp add: is_digit_def)

text \<open>A directory with only complete tables loads completely.\<close>

lemma load_files_ok:
  assumes "\<And>name. name \<in> set names \<Longrightarrow> \<exists>fid. name = snd (sst_path fid) \<and> unat fid < 10 ^ 6 \<and>
      storable (T fid) \<and> disk_file d (sst_path fid) = Some (sst_bytes (T fid))"
  shows "load_files d names loaded n =
    (Inr (loaded @ map (\<lambda>name. sst_meta (Sscanf_06d name) (T (Sscanf_06d name))) names),
     fold (bumpNextFileID \<circ> Sscanf_06d) names n)"
  using assms
proof (induction names arbitrary: loaded n)
  case (Cons name names)
  obtain fid where "name = snd (sst_path fid)" "unat fid < 10 ^ 6" "storable (T fid)"
    "disk_file d (sst_path fid) = Some (sst_bytes (T fid))"
    using Cons.prems by (meson list.set_intros(1))
  moreover have "(SstDir, snd (sst_path fid)) = sst_path fid" "filepath_Ext (snd (sst_path fid)) = ''.sst''"
    by (simp_all add: sst_path_def)
  ultimately show ?case
    using Cons by (simp add: Sscanf_sst_path load_sst_bytes)
qed simp

end
