(* ===== verification/Go_Heap.thy ===== *)
theory Go_Heap
  imports Main "HOL-Library.Multiset"
begin

text \<open>
  The binary heap of Go's \<^verbatim>\<open>container/heap\<close> over a slice, with the comparison \<^verbatim>\<open>Less\<close> as an argument:
  sifting up and down as the package does it, \<^verbatim>\<open>Init\<close>, \<^verbatim>\<open>Push\<close> and \<^verbatim>\<open>Pop\<close>. That the operations
  only permute the slice holds for every comparison; the locale \<open>weak_order\<close> states what the
  package asks of \<^verbatim>\<open>Less\<close>, and under it \<^verbatim>\<open>Pop\<close> returns a least element and every operation keeps the
  heap ordered.
\<close>

definition swap :: "'a list \<Rightarrow> nat \<Rightarrow> nat \<Rightarrow> 'a list" where
  "swap h i j = h[i := h ! j, j := h ! i]"

function heap_up :: "('a \<Rightarrow> 'a \<Rightarrow> bool) \<Rightarrow> 'a list \<Rightarrow> nat \<Rightarrow> 'a list" where
  "heap_up lt h j =
     (let i = (j - 1) div 2
      in if i = j \<or> \<not> lt (h ! j) (h ! i) then h else heap_up lt (swap h i j) i)"
  by pat_completeness auto
termination
  by (relation "measure (\<lambda>(_, _, j). j)") auto

function heap_down :: "('a \<Rightarrow> 'a \<Rightarrow> bool) \<Rightarrow> 'a list \<Rightarrow> nat \<Rightarrow> nat \<Rightarrow> 'a list" where
  "heap_down lt h i n =
     (let j1 = 2 * i + 1
      in if j1 \<ge> n then h
         else let j2 = j1 + 1;
                  j = (if j2 < n \<and> lt (h ! j2) (h ! j1) then j2 else j1)
              in if \<not> lt (h ! j) (h ! i) then h else heap_down lt (swap h i j) j n)"
  by pat_completeness auto
termination
  by (relation "measure (\<lambda>(_, _, i, n). n - i)") (auto simp: Let_def)

declare heap_up.simps [simp del] heap_down.simps [simp del]

definition heap_Init :: "('a \<Rightarrow> 'a \<Rightarrow> bool) \<Rightarrow> 'a list \<Rightarrow> 'a list" where
  "heap_Init lt h = fold (\<lambda>i h. heap_down lt h i (length h)) (rev [0..<length h div 2]) h"

definition heap_Push :: "('a \<Rightarrow> 'a \<Rightarrow> bool) \<Rightarrow> 'a list \<Rightarrow> 'a \<Rightarrow> 'a list" where
  "heap_Push lt h x = heap_up lt (h @ [x]) (length h)"

text \<open>\<^verbatim>\<open>Pop\<close> of a slice that is not empty: the root is swapped to the end, the rest is sifted, and
  the last element is cut off.\<close>

definition heap_Pop :: "('a \<Rightarrow> 'a \<Rightarrow> bool) \<Rightarrow> 'a list \<Rightarrow> 'a \<times> 'a list" where
  "heap_Pop lt h =
     (let n = length h - 1; h' = heap_down lt (swap h 0 n) 0 n
      in (last h', butlast h'))"

section \<open>The operations permute the slice\<close>

lemma length_swap [simp]: "length (swap h i j) = length h"
  by (simp add: swap_def)

lemma nth_swap:
  "i < length h \<Longrightarrow> j < length h \<Longrightarrow>
   swap h i j ! k = (if k = j then h ! i else if k = i then h ! j else h ! k)"
  by (simp add: swap_def nth_list_update)

lemma mset_swap_heap [simp]: "i < length h \<Longrightarrow> j < length h \<Longrightarrow> mset (swap h i j) = mset h"
  unfolding swap_def by (rule mset_swap)

lemma heap_up_perm: "j < length h \<Longrightarrow> mset (heap_up lt h j) = mset h"
proof (induction lt h j rule: heap_up.induct)
  case (1 lt h j)
  then show ?case by (subst heap_up.simps) (auto simp: Let_def)
qed

lemma heap_down_perm: "n \<le> length h \<Longrightarrow> mset (heap_down lt h i n) = mset h"
proof (induction lt h i n rule: heap_down.induct)
  case (1 lt h i n)
  then show ?case by (subst heap_down.simps) (auto simp: Let_def)
qed

lemma length_heap_down [simp]: "length (heap_down lt h i n) = length h"
proof (induction lt h i n rule: heap_down.induct)
  case (1 lt h i n)
  then show ?case by (subst heap_down.simps) (auto simp: Let_def)
qed

lemma heap_down_above: "n \<le> k \<Longrightarrow> n \<le> length h \<Longrightarrow> heap_down lt h i n ! k = h ! k"
proof (induction lt h i n rule: heap_down.induct)
  case (1 lt h i n)
  then show ?case by (subst heap_down.simps) (auto simp: Let_def nth_swap)
qed

lemma heap_Push_perm [simp]: "mset (heap_Push lt h x) = add_mset x (mset h)"
  by (simp add: heap_Push_def heap_up_perm)

lemma heap_Push_set [simp]: "set (heap_Push lt h x) = insert x (set h)"
  by (metis heap_Push_perm set_mset_add_mset_insert set_mset_mset)

lemma heap_Pop_eq:
  assumes "h \<noteq> []" and "heap_Pop lt h = (x, h')"
  shows "x = h ! 0" and "h' = butlast (heap_down lt (swap h 0 (length h - 1)) 0 (length h - 1))"
    and "heap_down lt (swap h 0 (length h - 1)) 0 (length h - 1) = h' @ [x]"
proof -
  let ?n = "length h - 1" and ?h = "heap_down lt (swap h 0 (length h - 1)) 0 (length h - 1)"
  have ne: "?h \<noteq> []" using assms(1) by (metis length_0_conv length_heap_down length_swap)
  have "last ?h = h ! 0"
    using assms(1) ne by (simp add: last_conv_nth heap_down_above nth_swap)
  with assms(2) show "x = h ! 0" "h' = butlast ?h" by (simp_all add: heap_Pop_def Let_def)
  with ne \<open>last ?h = h ! 0\<close> show "?h = h' @ [x]" by (metis append_butlast_last_id)
qed

lemma heap_Pop_perm: "h \<noteq> [] \<Longrightarrow> heap_Pop lt h = (x, h') \<Longrightarrow> mset h = add_mset x (mset h')"
  using heap_Pop_eq(3) [of h lt x h']
    heap_down_perm [of "length h - 1" "swap h 0 (length h - 1)" lt 0]
  by (auto simp: length_greater_0_conv)

section \<open>Order\<close>

definition parent :: "nat \<Rightarrow> nat" where
  "parent i = (i - 1) div 2"

locale weak_order =
  fixes lt :: "'a \<Rightarrow> 'a \<Rightarrow> bool"
  assumes lt_asym: "lt a b \<Longrightarrow> \<not> lt b a"
    and lt_negtrans: "\<not> lt b a \<Longrightarrow> \<not> lt c b \<Longrightarrow> \<not> lt c a"
begin

abbreviation le :: "'a \<Rightarrow> 'a \<Rightarrow> bool" where
  "le a b \<equiv> \<not> lt b a"

definition is_heap :: "nat \<Rightarrow> 'a list \<Rightarrow> bool" where
  "is_heap n h \<longleftrightarrow> (\<forall>k. 0 < k \<and> k < n \<longrightarrow> le (h ! parent k) (h ! k))"

text \<open>One position may be out of order with its parent, or with its children.\<close>

definition up_from :: "nat \<Rightarrow> 'a list \<Rightarrow> nat \<Rightarrow> bool" where
  "up_from n h j \<longleftrightarrow> (\<forall>k. 0 < k \<and> k < n \<longrightarrow>
     (k \<noteq> j \<longrightarrow> le (h ! parent k) (h ! k)) \<and>
     (parent k = j \<and> 0 < j \<longrightarrow> le (h ! parent j) (h ! k)))"

definition down_from :: "nat \<Rightarrow> 'a list \<Rightarrow> nat \<Rightarrow> bool" where
  "down_from n h i \<longleftrightarrow> (\<forall>k. 0 < k \<and> k < n \<longrightarrow>
     (parent k \<noteq> i \<longrightarrow> le (h ! parent k) (h ! k)) \<and>
     (parent k = i \<and> 0 < i \<longrightarrow> le (h ! parent i) (h ! k)))"

lemma is_heap_min: "is_heap n h \<Longrightarrow> i < n \<Longrightarrow> le (h ! 0) (h ! i)"
proof (induction i rule: less_induct)
  case (less i)
  show ?case
  proof (cases "i = 0")
    case False
    then have "parent i < i" by (simp add: parent_def)
    with less False have "le (h ! 0) (h ! parent i)" by simp
    moreover have "le (h ! parent i) (h ! i)" using less.prems False by (simp add: is_heap_def)
    ultimately show ?thesis by (rule lt_negtrans)
  qed (use lt_asym in blast)
qed

lemma up_from_swap:
  assumes up: "up_from n h j" and j: "j < n" "n \<le> length h" "0 < j"
    and lt: "lt (h ! j) (h ! parent j)"
  shows "up_from n (swap h (parent j) j) (parent j)"
proof -
  let ?i = "parent j" and ?h = "swap h (parent j) j"
  have ij: "?i < j" using j(3) by (simp add: parent_def)
  have nth: "?h ! k = (if k = j then h ! ?i else if k = ?i then h ! j else h ! k)" for k
    using ij j by (simp add: nth_swap)
  have edge: "le (h ! parent k) (h ! k)" if "0 < k" "k < n" "k \<noteq> j" for k
    using up that by (simp add: up_from_def)
  have skip: "le (h ! ?i) (h ! k)" if "0 < k" "k < n" "parent k = j" for k
    using up that j(3) by (simp add: up_from_def)
  have ji: "le (h ! j) (h ! ?i)" using lt by (rule lt_asym)
  have sib: "le (h ! j) (h ! k)" if "0 < k" "k < n" "k \<noteq> j" "parent k = ?i" for k
    using lt_negtrans [OF ji] edge [OF that(1-3)] that(4) by simp
  have "le (?h ! parent k) (?h ! k)" if k: "0 < k" "k < n" "k \<noteq> ?i" for k
  proof (cases "k = j")
    case True
    with ij ji show ?thesis by (simp add: nth)
  next
    case False
    with k sib [OF k(1,2) False] skip [OF k(1,2)] edge [OF k(1,2) False] show ?thesis
      by (auto simp: nth)
  qed
  moreover have "le (?h ! parent ?i) (?h ! k)" if k: "0 < k" "k < n" "parent k = ?i" "0 < ?i" for k
  proof -
    have pi: "parent ?i < ?i" using k(4) by (simp add: parent_def)
    have e: "le (h ! parent ?i) (h ! ?i)" using edge [of ?i] k(4) ij j(1) by simp
    show ?thesis
    proof (cases "k = j")
      case True
      with e pi ij show ?thesis by (simp add: nth)
    next
      case False
      have "parent k < k" using k(1) by (simp add: parent_def)
      with False lt_negtrans [OF e] edge [OF k(1,2) False] k(3) pi ij show ?thesis
        by (simp add: nth)
    qed
  qed
  ultimately show ?thesis by (simp add: up_from_def)
qed

lemma heap_up_heap:
  "up_from n h j \<Longrightarrow> j < n \<Longrightarrow> n \<le> length h \<Longrightarrow> is_heap n (heap_up lt h j)"
proof (induction j arbitrary: h rule: less_induct)
  case (less j)
  show ?case
  proof (cases "parent j = j \<or> \<not> lt (h ! j) (h ! parent j)")
    case True
    then have "heap_up lt h j = h" by (subst heap_up.simps) (simp add: parent_def Let_def)
    with True less.prems show ?thesis
      by (auto simp: is_heap_def up_from_def parent_def)
  next
    case False
    then have j: "0 < j" "parent j < j" by (auto simp: parent_def)
    have "heap_up lt h j = heap_up lt (swap h (parent j) j) (parent j)"
      using False by (subst heap_up.simps) (simp add: parent_def Let_def)
    with less.IH [OF j(2) up_from_swap] less.prems j False show ?thesis by simp
  qed
qed

lemma heap_Push_heap:
  assumes "is_heap (length h) h"
  shows "is_heap (Suc (length h)) (heap_Push lt h x)"
proof -
  have "up_from (Suc (length h)) (h @ [x]) (length h)"
  proof -
    have "parent k < length h" if "0 < k" "k < Suc (length h)" for k
      using that by (auto simp: parent_def)
    moreover from this have "parent k \<noteq> length h" if "0 < k" "k < Suc (length h)" for k
      using that by (metis less_irrefl)
    ultimately show ?thesis
      using assms by (auto simp: up_from_def is_heap_def nth_append less_Suc_eq)
  qed
  then show ?thesis by (simp add: heap_Push_def heap_up_heap)
qed

lemma parent_children: "parent k = i \<and> 0 < k \<longleftrightarrow> k = 2 * i + 1 \<or> k = 2 * i + 2"
  by (auto simp: parent_def)

lemma down_from_swap:
  assumes down: "down_from n h i" and j: "j < n" "n \<le> length h" "0 < j" "parent j = i"
    and lt: "lt (h ! j) (h ! i)" and least: "\<And>k. 0 < k \<Longrightarrow> k < n \<Longrightarrow> parent k = i \<Longrightarrow> le (h ! j) (h ! k)"
  shows "down_from n (swap h i j) j"
proof -
  let ?h = "swap h i j"
  have ij: "i < j" using j(3,4) by (auto simp: parent_def)
  have nth: "?h ! k = (if k = j then h ! i else if k = i then h ! j else h ! k)" for k
    using ij j by (simp add: nth_swap)
  have edge: "le (h ! parent k) (h ! k)" if "0 < k" "k < n" "parent k \<noteq> i" for k
    using down that by (simp add: down_from_def)
  have skip: "le (h ! parent i) (h ! k)" if "0 < k" "k < n" "parent k = i" "0 < i" for k
    using down that by (simp add: down_from_def)
  have lower: "parent k < k" if "0 < k" for k using that by (simp add: parent_def)
  have "le (?h ! parent k) (?h ! k)" if k: "0 < k" "k < n" "parent k \<noteq> j" for k
  proof (cases "parent k = i")
    case True
    then show ?thesis using k ij lt_asym [OF lt] least [OF k(1,2)] lower [OF k(1)] by (auto simp: nth)
  next
    case False
    then have "k \<noteq> j" using j(4) by auto
    with False k ij edge [OF k(1,2) False] skip [OF j(3,1,4)] show ?thesis by (auto simp: nth)
  qed
  moreover have "le (?h ! parent j) (?h ! k)" if k: "0 < k" "k < n" "parent k = j" for k
    using edge [OF k(1,2)] k(3) ij lower [OF k(1)] j(4) by (auto simp: nth)
  ultimately show ?thesis by (simp add: down_from_def)
qed

lemma heap_down_heap:
  "down_from n h i \<Longrightarrow> n \<le> length h \<Longrightarrow> is_heap n (heap_down lt h i n)"
proof (induction "n - i" arbitrary: h i rule: less_induct)
  case less
  define j where "j = (if 2 * i + 2 < n \<and> lt (h ! (2 * i + 2)) (h ! (2 * i + 1)) then 2 * i + 2
    else 2 * i + 1)"
  show ?case
  proof (cases "n \<le> 2 * i + 1")
    case True
    then have "heap_down lt h i n = h" by (subst heap_down.simps) simp
    moreover have "parent k \<noteq> i" if "0 < k" "k < n" for k
      using parent_children [of k i] True that by auto
    ultimately show ?thesis using less.prems by (simp add: is_heap_def down_from_def)
  next
    case children: False
    then have j: "0 < j" "j < n" "parent j = i" "i < j" by (auto simp: j_def parent_def)
    have least: "le (h ! j) (h ! k)" if "0 < k" "k < n" "parent k = i" for k
      using parent_children [of k i] that lt_asym [of "h ! k" "h ! k"]
        lt_asym [of "h ! (2 * i + 2)" "h ! (2 * i + 1)"] by (auto simp: j_def)
    have unfold: "heap_down lt h i n =
        (if \<not> lt (h ! j) (h ! i) then h else heap_down lt (swap h i j) j n)"
      using children by (subst heap_down.simps) (simp add: Let_def j_def)
    show ?thesis
    proof (cases "lt (h ! j) (h ! i)")
      case True
      have "down_from n (swap h i j) j"
        using less.prems(1) j(2) less.prems(2) j(1,3) True least by (rule down_from_swap)
      with less.hyps [of j "swap h i j"] j less.prems(2) True show ?thesis by (simp add: unfold)
    next
      case False
      have "le (h ! i) (h ! k)" if "0 < k" "k < n" "parent k = i" for k
        using False least [OF that] by (rule lt_negtrans)
      with less.prems(1) False show ?thesis by (auto simp: unfold is_heap_def down_from_def)
    qed
  qed
qed

lemma heap_Pop_heap:
  assumes "is_heap (length h) h" and "h \<noteq> []" and "heap_Pop lt h = (x, h')"
  shows "is_heap (length h') h'" and "\<And>y. y \<in> set h \<Longrightarrow> le x y"
proof -
  let ?n = "length h - 1" and ?s = "swap h 0 (length h - 1)"
  have eq: "heap_down lt ?s 0 ?n = h' @ [x]" and x: "x = h ! 0"
    using heap_Pop_eq [OF assms(2,3)] by simp_all
  have len: "length h' = ?n" using arg_cong [OF eq, of length] by simp
  have "down_from ?n ?s 0"
    using assms(1,2) by (auto simp: down_from_def is_heap_def nth_swap parent_def)
  then have "is_heap ?n (h' @ [x])" using heap_down_heap [of ?n ?s 0] eq by simp
  moreover have "parent k < length h'" if "k < length h'" for k
    using that by (simp add: parent_def)
  ultimately show "is_heap (length h') h'" by (simp add: is_heap_def nth_append len)
  show "le x y" if "y \<in> set h" for y
    using that is_heap_min [OF assms(1)] x by (auto simp: in_set_conv_nth)
qed

end

end
