(* ===== verification/Merge.thy ===== *)
theory Merge
  imports SSTable Go_Heap
begin

text \<open>
  The k-way merge of compaction: the output buffer of \<^verbatim>\<open>compaction_builder.go\<close> and the heap merge of
  \<^verbatim>\<open>compaction_merge.go\<close>. The iterators are numbered by their position, and among equal keys the
  one with the larger number, the newer table, comes out of the heap first; later copies of the key
  are skipped. Values are cloned with \<^verbatim>\<open>append([]byte(nil), v...)\<close>, so an empty value leaves the
  merge as a tombstone. The lemmas show that the merge terminates, that its output is sorted, and
  that it holds for every key the newest version of the inputs, for tables without an empty key.
\<close>

record SSTableBuilder =
  b_pairs :: "KVPair list"

definition NewSSTableBuilder :: SSTableBuilder where
  "NewSSTableBuilder = \<lparr>b_pairs = []\<rparr>"

definition Builder_Append :: "SSTableBuilder \<Rightarrow> bytes \<Rightarrow> slice \<Rightarrow> SSTableBuilder" where
  "Builder_Append b key val =
     (if b_pairs b \<noteq> [] \<and> Key (last (b_pairs b)) = key
      then b\<lparr>b_pairs := butlast (b_pairs b) @ [(last (b_pairs b))\<lparr>Value := clone_append val\<rparr>]\<rparr>
      else let entry = \<lparr>Key = key, Value = None\<rparr>;
               entry = (if val \<noteq> None then entry\<lparr>Value := clone_append val\<rparr> else entry)
           in b\<lparr>b_pairs := b_pairs b @ [entry]\<rparr>)"

definition Builder_Len :: "SSTableBuilder \<Rightarrow> nat" where
  "Builder_Len b = length (b_pairs b)"

record mergeItem =
  mi_iter :: SSTableIterator
  mi_fileID :: u64

definition mergeHeap_Less :: "mergeItem \<Rightarrow> mergeItem \<Rightarrow> bool" where
  "mergeHeap_Less a b =
     (let cmp = bytes_Compare (it_key (mi_iter a)) (it_key (mi_iter b))
      in if cmp \<noteq> 0 then cmp < 0 else mi_fileID a > mi_fileID b)"

lemma Iterator_Next_shorter:
  "it_valid (Iterator_Next it) \<Longrightarrow> length (it_reader (Iterator_Next it)) < length (it_reader it)"
  by (auto simp: Iterator_Next_def Let_def io_ReadFull_Inr split: sum.splits if_splits)

definition heap_measure :: "mergeItem list \<Rightarrow> nat" where
  "heap_measure h = (\<Sum>x \<leftarrow> h. Suc (length (it_reader (mi_iter x))))"

lemma heap_measure_mset:
  "heap_measure h = sum_mset (image_mset (\<lambda>x. Suc (length (it_reader (mi_iter x)))) (mset h))"
  by (simp add: heap_measure_def sum_mset_sum_list flip: mset_map)

function merge_loop :: "mergeItem list \<Rightarrow> bytes \<Rightarrow> SSTableBuilder \<Rightarrow> SSTableBuilder" where
  "merge_loop h lastKey b =
     (if h = [] then b
      else case heap_Pop mergeHeap_Less h of (item, h') \<Rightarrow>
        let k = it_key (mi_iter item);
            v = clone_append (it_value (mi_iter item));
            fresh = (length lastKey = 0 \<or> lastKey \<noteq> k);
            it = Iterator_Next (mi_iter item)
        in merge_loop
             (if it_valid it then heap_Push mergeHeap_Less h' (item\<lparr>mi_iter := it\<rparr>) else h')
             (if fresh then k else lastKey)
             (if fresh then Builder_Append b k v else b))"
  by pat_completeness auto
termination
proof (relation "measure (\<lambda>(h, _, _). heap_measure h)", goal_cases)
  case (2 h lastKey b item h' k v fresh it)
  then have "mset h = add_mset item (mset h')" by (metis heap_Pop_perm)
  with 2 Iterator_Next_shorter [of "mi_iter item"] show ?case by (simp add: heap_measure_mset)
qed simp

declare merge_loop.simps [simp del]

definition merge_init :: "SSTableIterator option list \<Rightarrow> mergeItem list" where
  "merge_init iters =
     fold (\<lambda>(idx, it_opt) h.
             case it_opt of
               None \<Rightarrow> h
             | Some it \<Rightarrow>
                 if \<not> it_valid it then h
                 else heap_Push mergeHeap_Less h \<lparr>mi_iter = it, mi_fileID = of_nat (idx + 1)\<rparr>)
       (enumerate 0 iters) (heap_Init mergeHeap_Less [])"

definition doMerge :: "SSTableIterator option list \<Rightarrow> SSTableBuilder" where
  "doMerge iters = merge_loop (merge_init iters) [] NewSSTableBuilder"

section \<open>Lemmas\<close>

lemma mergeHeap_Less_iff:
  "mergeHeap_Less a b \<longleftrightarrow> it_key (mi_iter a) < it_key (mi_iter b) \<or>
     it_key (mi_iter a) = it_key (mi_iter b) \<and> mi_fileID b < mi_fileID a"
  by (auto simp: mergeHeap_Less_def Let_def)

interpretation mh: weak_order mergeHeap_Less
  by unfold_locales (auto simp: mergeHeap_Less_iff)

lemma Builder_Append_fresh:
  "(b_pairs b \<noteq> [] \<Longrightarrow> Key (last (b_pairs b)) \<noteq> key) \<Longrightarrow>
   b_pairs (Builder_Append b key val) = b_pairs b @ [\<lparr>Key = key, Value = clone_append val\<rparr>]"
  by (auto simp: Builder_Append_def Let_def clone_append_def)

lemma clone_append_idem [simp]: "clone_append (clone_append v) = clone_append v"
  by (auto simp: clone_append_def split: option.splits)

text \<open>What an item will still deliver, and which item is the newest that delivers a key.\<close>

abbreviation stream :: "mergeItem \<Rightarrow> KVPair list" where
  "stream x \<equiv> iter_pairs (mi_iter x)"

definition newest :: "mergeItem set \<Rightarrow> bytes \<Rightarrow> slice option \<Rightarrow> bool" where
  "newest S k r \<longleftrightarrow>
     (case r of
        None \<Rightarrow> \<forall>x \<in> S. pairs_map (stream x) k = None
      | Some v \<Rightarrow> \<exists>x \<in> S. pairs_map (stream x) k = Some v \<and>
          (\<forall>y \<in> S. pairs_map (stream y) k \<noteq> None \<longrightarrow> mi_fileID y \<le> mi_fileID x))"

definition merge_inv :: "mergeItem list \<Rightarrow> bytes \<Rightarrow> SSTableBuilder \<Rightarrow> bool" where
  "merge_inv h lastKey b \<longleftrightarrow>
     mh.is_heap (length h) h \<and> distinct (map mi_fileID h) \<and>
     (\<forall>x \<in> set h. it_valid (mi_iter x) \<and> sorted_pairs (stream x) \<and> [] \<notin> Key ` set (stream x)) \<and>
     sorted_pairs (b_pairs b) \<and> [] \<notin> Key ` set (b_pairs b) \<and>
     lastKey = (if b_pairs b = [] then [] else Key (last (b_pairs b))) \<and>
     (\<forall>x \<in> set h. \<forall>p \<in> set (b_pairs b). Key p \<le> it_key (mi_iter x))"

lemma stream_valid:
  "it_valid (mi_iter x) \<Longrightarrow> stream x =
     \<lparr>Key = it_key (mi_iter x), Value = it_value (mi_iter x)\<rparr> # iter_pairs (Iterator_Next (mi_iter x))"
  by (subst iter_pairs.simps) simp

lemma stream_invalid [simp]: "\<not> it_valid it \<Longrightarrow> iter_pairs it = []"
  by (subst iter_pairs.simps) simp

lemma stream_head_le:
  assumes "it_valid (mi_iter x)" "sorted_pairs (stream x)" "pairs_map (stream x) k = Some v"
  shows "it_key (mi_iter x) \<le> k" and "it_key (mi_iter x) = k \<Longrightarrow> v = it_value (mi_iter x)"
  using assms(2,3) by (auto simp: stream_valid [OF assms(1)] less_imp_le dest!: pairs_map_SomeD
      split: if_splits)

subsection \<open>One round of the loop\<close>

definition next_heap :: "mergeItem \<Rightarrow> mergeItem list \<Rightarrow> mergeItem list" where
  "next_heap item h' =
     (if it_valid (Iterator_Next (mi_iter item))
      then heap_Push mergeHeap_Less h' (item\<lparr>mi_iter := Iterator_Next (mi_iter item)\<rparr>) else h')"

lemma merge_loop_Cons:
  assumes "h \<noteq> []" and "heap_Pop mergeHeap_Less h = (item, h')"
  shows "merge_loop h lastKey b =
    (let k = it_key (mi_iter item); fresh = (lastKey = [] \<or> lastKey \<noteq> k)
     in merge_loop (next_heap item h') (if fresh then k else lastKey)
          (if fresh then Builder_Append b k (clone_append (it_value (mi_iter item))) else b))"
  using assms by (subst merge_loop.simps) (simp add: Let_def next_heap_def)

lemma set_next_heap:
  "x \<in> set (next_heap item h') \<longleftrightarrow> x \<in> set h' \<or>
     it_valid (Iterator_Next (mi_iter item)) \<and> x = item\<lparr>mi_iter := Iterator_Next (mi_iter item)\<rparr>"
  by (auto simp: next_heap_def)

lemma next_heap_mset:
  assumes "mset h = add_mset item (mset h')" and "distinct (map mi_fileID h)"
  shows "distinct (map mi_fileID (next_heap item h'))"
proof -
  have "mset (map mi_fileID h) = mset (map mi_fileID (item # h'))" using assms(1) by simp
  with assms(2) have d: "distinct (map mi_fileID (item # h'))"
    using mset_eq_imp_distinct_iff by blast
  have "mset (map mi_fileID (heap_Push mergeHeap_Less h' (item\<lparr>mi_iter := it\<rparr>))) =
      mset (map mi_fileID (item # h'))" for it by simp
  with d have "distinct (map mi_fileID (heap_Push mergeHeap_Less h' (item\<lparr>mi_iter := it\<rparr>)))" for it
    using mset_eq_imp_distinct_iff by blast
  with d show ?thesis by (simp add: next_heap_def)
qed

lemma next_heap_is_heap:
  assumes "mh.is_heap (length h') h'"
  shows "mh.is_heap (length (next_heap item h')) (next_heap item h')"
proof -
  have "length (heap_Push mergeHeap_Less h' x) = Suc (length h')" for x
    by (metis heap_Push_perm size_add_mset size_mset)
  then show ?thesis using assms mh.heap_Push_heap by (simp add: next_heap_def)
qed

text \<open>Everything the loop needs to know about the item it takes off the heap.\<close>

lemma merge_pop:
  assumes inv: "merge_inv h lastKey b" and "h \<noteq> []" and pop: "heap_Pop mergeHeap_Less h = (item, h')"
  shows "mset h = add_mset item (mset h')" and "item \<in> set h" and "set h' \<subseteq> set h"
    and "mh.is_heap (length h') h'"
    and "\<And>x. x \<in> set h \<Longrightarrow> it_key (mi_iter item) \<le> it_key (mi_iter x)"
    and "\<And>x. x \<in> set h \<Longrightarrow> it_key (mi_iter x) = it_key (mi_iter item) \<Longrightarrow> mi_fileID x \<le> mi_fileID item"
proof -
  show m: "mset h = add_mset item (mset h')" using assms(2) pop by (rule heap_Pop_perm)
  then show "item \<in> set h" by (metis set_mset_mset union_single_eq_member)
  show "set h' \<subseteq> set h" using arg_cong [OF m, of set_mset] by auto
  have heap: "mh.is_heap (length h) h" using inv by (simp add: merge_inv_def)
  show "mh.is_heap (length h') h'" using heap assms(2) pop by (rule mh.heap_Pop_heap)
  show "it_key (mi_iter item) \<le> it_key (mi_iter x)" if "x \<in> set h" for x
    using mh.heap_Pop_heap(2) [OF heap assms(2) pop that] by (auto simp: mergeHeap_Less_iff not_less)
  show "mi_fileID x \<le> mi_fileID item"
    if "x \<in> set h" "it_key (mi_iter x) = it_key (mi_iter item)" for x
    using mh.heap_Pop_heap(2) [OF heap assms(2) pop that(1)] that(2)
    by (auto simp: mergeHeap_Less_iff not_less)
qed

lemma fresh_key:
  assumes inv: "merge_inv h lastKey b" and "h \<noteq> []" and pop: "heap_Pop mergeHeap_Less h = (item, h')"
  defines "k0 \<equiv> it_key (mi_iter item)"
  shows "k0 \<noteq> []" and "lastKey = [] \<or> lastKey \<noteq> k0 \<Longrightarrow> p \<in> set (b_pairs b) \<Longrightarrow> Key p < k0"
    and "\<not> (lastKey = [] \<or> lastKey \<noteq> k0) \<Longrightarrow> pairs_map (b_pairs b) k0 \<noteq> None"
proof -
  note item = merge_pop [OF assms(1-3)]
  have "it_valid (mi_iter item)" and "[] \<notin> Key ` set (stream item)"
    using inv item(2) by (auto simp: merge_inv_def)
  then show "k0 \<noteq> []" by (auto simp: stream_valid k0_def)
  show "Key p < k0" if "lastKey = [] \<or> lastKey \<noteq> k0" "p \<in> set (b_pairs b)"
  proof -
    have ne: "b_pairs b \<noteq> []" using that(2) by auto
    note last = last_in_set [OF ne]
    have "[] \<notin> Key ` set (b_pairs b)" "lastKey = Key (last (b_pairs b))"
      using inv ne by (simp_all add: merge_inv_def)
    then have "Key (last (b_pairs b)) \<noteq> []" "lastKey = Key (last (b_pairs b))"
      using last by (metis imageI)+
    moreover have "Key (last (b_pairs b)) \<le> k0" "Key p \<le> Key (last (b_pairs b))"
      using inv that(2) item(2) last sorted_pairs_last by (auto simp: merge_inv_def k0_def)
    ultimately show ?thesis using that(1) by auto
  qed
  show "pairs_map (b_pairs b) k0 \<noteq> None" if "\<not> (lastKey = [] \<or> lastKey \<noteq> k0)"
    using that inv last_in_set [of "b_pairs b"] by (auto simp: merge_inv_def pairs_map_None)
qed

lemma merge_inv_next:
  assumes inv: "merge_inv h lastKey b" and "h \<noteq> []" and pop: "heap_Pop mergeHeap_Less h = (item, h')"
  defines "k0 \<equiv> it_key (mi_iter item)"
  defines "fresh \<equiv> lastKey = [] \<or> lastKey \<noteq> k0"
  shows "merge_inv (next_heap item h') (if fresh then k0 else lastKey)
           (if fresh then Builder_Append b k0 v else b)"
proof -
  note item = merge_pop [OF assms(1-3)] and key = fresh_key [OF assms(1-3), folded k0_def, folded fresh_def]
  let ?it = "Iterator_Next (mi_iter item)" and ?b = "if fresh then Builder_Append b k0 v else b"
  have st: "it_valid (mi_iter x)" "sorted_pairs (stream x)" "[] \<notin> Key ` set (stream x)" if "x \<in> set h" for x
    using inv that by (auto simp: merge_inv_def)
  have tail: "sorted_pairs (iter_pairs ?it)" "[] \<notin> Key ` set (iter_pairs ?it)"
    "it_valid ?it \<Longrightarrow> k0 < it_key ?it"
    using st(2,3) [OF item(2)] stream_valid [of "item\<lparr>mi_iter := ?it\<rparr>"]
    by (auto simp: stream_valid [OF st(1) [OF item(2)]] k0_def)
  have app: "b_pairs ?b = b_pairs b @ (if fresh then [\<lparr>Key = k0, Value = clone_append v\<rparr>] else [])"
  proof (cases fresh)
    case True
    have "Key (last (b_pairs b)) \<noteq> k0" if "b_pairs b \<noteq> []"
      using key(2) [OF True last_in_set [OF that]] by simp
    with True show ?thesis by (simp add: Builder_Append_fresh)
  qed simp
  have le: "Key p \<le> it_key (mi_iter x)" if "p \<in> set (b_pairs b)" "x \<in> set h" for p x
    using inv that by (simp add: merge_inv_def)
  have heads: "Key p \<le> it_key (mi_iter x)" if "x \<in> set (next_heap item h')" "p \<in> set (b_pairs ?b)" for x p
  proof (rule order.trans)
    show "Key p \<le> k0" using that(2) le [OF _ item(2)] by (auto simp: app k0_def split: if_splits)
    show "k0 \<le> it_key (mi_iter x)"
      using that(1) item(3,5) tail(3) by (auto simp: set_next_heap k0_def)
  qed
  have "sorted_pairs (b_pairs ?b)" "[] \<notin> Key ` set (b_pairs ?b)"
    using inv key(1,2) by (auto simp: app merge_inv_def sorted_pairs_append)
  moreover have "(if fresh then k0 else lastKey) = (if b_pairs ?b = [] then [] else Key (last (b_pairs ?b)))"
    using inv by (auto simp: app merge_inv_def)
  moreover have "distinct (map mi_fileID (next_heap item h'))"
    using item(1) inv by (intro next_heap_mset) (auto simp: merge_inv_def)
  moreover have "mh.is_heap (length (next_heap item h')) (next_heap item h')"
    using item(4) by (rule next_heap_is_heap)
  moreover have "\<forall>x \<in> set (next_heap item h'). it_valid (mi_iter x) \<and> sorted_pairs (stream x) \<and>
      [] \<notin> Key ` set (stream x)"
    using st item(3) tail by (auto simp: set_next_heap dest!: subsetD)
  ultimately show ?thesis using heads unfolding merge_inv_def by blast
qed

text \<open>The head of the popped item is the newest version of its key, and for every other key the
  newest version stays where it is.\<close>

lemma newest_popped:
  assumes inv: "merge_inv h lastKey b" and "h \<noteq> []" and pop: "heap_Pop mergeHeap_Less h = (item, h')"
    and new: "newest (set h) (it_key (mi_iter item)) r"
  shows "r = Some (it_value (mi_iter item))"
proof -
  note item = merge_pop [OF assms(1-3)]
  let ?k = "it_key (mi_iter item)"
  have valid: "it_valid (mi_iter x)" "sorted_pairs (stream x)" if "x \<in> set h" for x
    using inv that by (auto simp: merge_inv_def)
  have own: "pairs_map (stream item) ?k = Some (it_value (mi_iter item))"
    by (simp add: stream_valid [OF valid(1) [OF item(2)]])
  then obtain v where r: "r = Some v" using new item(2) by (auto simp: newest_def split: option.splits)
  with new obtain x where x: "x \<in> set h" "pairs_map (stream x) ?k = Some v"
    "\<And>y. y \<in> set h \<Longrightarrow> pairs_map (stream y) ?k \<noteq> None \<Longrightarrow> mi_fileID y \<le> mi_fileID x"
    by (auto simp: newest_def)
  have "it_key (mi_iter x) = ?k"
    using stream_head_le(1) [OF valid [OF x(1)] x(2)] item(5) [OF x(1)] by simp
  then have "mi_fileID x = mi_fileID item"
    using item(6) [OF x(1)] x(3) [OF item(2)] own by simp
  moreover have "inj_on mi_fileID (set h)" using inv by (simp add: merge_inv_def distinct_map)
  ultimately have "x = item" using x(1) item(2) by (metis inj_onD)
  with x(2) own r show ?thesis by simp
qed

lemma newest_other:
  assumes inv: "merge_inv h lastKey b" and "h \<noteq> []" and pop: "heap_Pop mergeHeap_Less h = (item, h')"
    and new: "newest (set h) k r" and "k \<noteq> it_key (mi_iter item)"
  shows "newest (set (next_heap item h')) k r"
proof -
  note item = merge_pop [OF assms(1-3)]
  let ?it = "Iterator_Next (mi_iter item)"
  have "it_valid (mi_iter item)" using inv item(2) by (auto simp: merge_inv_def)
  then have same: "pairs_map (stream item) k = pairs_map (iter_pairs ?it) k"
    using assms(5) by (simp add: stream_valid)
  have fwd: "\<exists>y \<in> set (next_heap item h'). pairs_map (stream y) k = Some v \<and> mi_fileID y = mi_fileID x"
    if x: "x \<in> set h" "pairs_map (stream x) k = Some v" for x v
  proof (cases "x = item")
    case True
    with x(2) same have "it_valid ?it" using stream_invalid by fastforce
    with True x(2) same show ?thesis
      by (intro bexI [of _ "item\<lparr>mi_iter := ?it\<rparr>"]) (auto simp: set_next_heap)
  next
    case False
    with x item(1) have "x \<in> set h'" by (metis insertE set_mset_add_mset_insert set_mset_mset)
    with x show ?thesis by (auto simp: set_next_heap)
  qed
  have bwd: "\<exists>x \<in> set h. pairs_map (stream x) k = pairs_map (stream y) k \<and> mi_fileID x = mi_fileID y"
    if "y \<in> set (next_heap item h')" for y
    using that item(2,3) same by (auto simp: set_next_heap)
  show ?thesis
  proof (cases r)
    case None
    with new have none: "pairs_map (stream x) k = None" if "x \<in> set h" for x
      using that by (simp add: newest_def)
    have "pairs_map (stream y) k = None" if "y \<in> set (next_heap item h')" for y
      using bwd [OF that] none by metis
    with None show ?thesis by (simp add: newest_def)
  next
    case (Some v)
    with new obtain x where x: "x \<in> set h" "pairs_map (stream x) k = Some v"
      and max: "\<And>y. y \<in> set h \<Longrightarrow> pairs_map (stream y) k \<noteq> None \<Longrightarrow> mi_fileID y \<le> mi_fileID x"
      by (auto simp: newest_def)
    obtain z where z: "z \<in> set (next_heap item h')" "pairs_map (stream z) k = Some v"
      "mi_fileID z = mi_fileID x"
      using fwd [OF x] by blast
    have "mi_fileID y \<le> mi_fileID z"
      if "y \<in> set (next_heap item h')" "pairs_map (stream y) k \<noteq> None" for y
      using bwd [OF that(1)] max that(2) z(3) by metis
    with Some z(1,2) show ?thesis by (auto simp: newest_def)
  qed
qed

lemma newest_exists: "finite S \<Longrightarrow> \<exists>r. newest S k r"
proof -
  assume "finite S"
  let ?T = "{x \<in> S. pairs_map (stream x) k \<noteq> None}"
  show ?thesis
  proof (cases "?T = {}")
    case True
    then show ?thesis by (intro exI [of _ None]) (auto simp: newest_def)
  next
    case False
    have "finite (mi_fileID ` ?T)" using \<open>finite S\<close> by simp
    then have "Max (mi_fileID ` ?T) \<in> mi_fileID ` ?T" using False by (intro Max_in) auto
    then obtain x where x: "x \<in> ?T" "mi_fileID x = Max (mi_fileID ` ?T)"
      by (metis (no_types, lifting) imageE)
    then have "mi_fileID y \<le> mi_fileID x" if "y \<in> ?T" for y
      using that \<open>finite (mi_fileID ` ?T)\<close> by (simp add: Max_ge)
    with x(1) show ?thesis
      by (intro exI [of _ "pairs_map (stream x) k"]) (auto simp: newest_def split: option.splits)
  qed
qed

subsection \<open>The whole loop\<close>

lemma merge_loop_spec:
  "merge_inv h lastKey b \<Longrightarrow>
     sorted_pairs (b_pairs (merge_loop h lastKey b)) \<and>
     (\<forall>k r. newest (set h) k r \<longrightarrow>
       pairs_map (b_pairs (merge_loop h lastKey b)) k =
         (case pairs_map (b_pairs b) k of None \<Rightarrow> map_option clone_append r | Some v \<Rightarrow> Some v))"
proof (induction h lastKey b rule: merge_loop.induct)
  case (1 h lastKey b)
  show ?case
  proof (cases "h = []")
    case True
    with "1.prems" show ?thesis
      by (auto simp: merge_loop.simps merge_inv_def newest_def split: option.splits)
  next
    case False
    obtain item h' where pop: "heap_Pop mergeHeap_Less h = (item, h')" by fastforce
    define k0 where "k0 = it_key (mi_iter item)"
    define fresh where "fresh = (lastKey = [] \<or> lastKey \<noteq> k0)"
    define b' where "b' = (if fresh then Builder_Append b k0 (clone_append (it_value (mi_iter item))) else b)"
    have unfold: "merge_loop h lastKey b = merge_loop (next_heap item h') (if fresh then k0 else lastKey) b'"
      using merge_loop_Cons [OF False pop] by (simp add: Let_def k0_def fresh_def b'_def)
    have inv': "merge_inv (next_heap item h') (if fresh then k0 else lastKey) b'"
      unfolding b'_def fresh_def k0_def using "1.prems" False pop by (rule merge_inv_next)
    have IH: "sorted_pairs (b_pairs (merge_loop h lastKey b)) \<and>
       (\<forall>k r. newest (set (next_heap item h')) k r \<longrightarrow>
         pairs_map (b_pairs (merge_loop h lastKey b)) k =
           (case pairs_map (b_pairs b') k of None \<Rightarrow> map_option clone_append r | Some v \<Rightarrow> Some v))"
      using "1.IH" [OF False pop [symmetric] refl refl refl refl] inv'
      unfolding unfold b'_def fresh_def k0_def next_heap_def by simp
    note key = fresh_key [OF "1.prems" False pop, folded k0_def, folded fresh_def]
    have b'k: "pairs_map (b_pairs b') k =
      (if k = k0 \<and> fresh then Some (clone_append (it_value (mi_iter item))) else pairs_map (b_pairs b) k)" for k
    proof (cases fresh)
      case True
      have none: "pairs_map (b_pairs b) k0 = None"
        using key(2) [OF True] by (auto simp: pairs_map_None)
      have "Key (last (b_pairs b)) \<noteq> k0" if "b_pairs b \<noteq> []"
        using key(2) [OF True last_in_set [OF that]] by simp
      then show ?thesis
        using True none by (auto simp: b'_def Builder_Append_fresh split: option.splits)
    qed (simp add: b'_def)
    have "pairs_map (b_pairs (merge_loop h lastKey b)) k =
       (case pairs_map (b_pairs b) k of None \<Rightarrow> map_option clone_append r | Some v \<Rightarrow> Some v)"
      if new: "newest (set h) k r" for k r
    proof (cases "k = k0")
      case True
      then have r: "r = Some (it_value (mi_iter item))"
        using newest_popped [OF "1.prems" False pop] new by (simp add: k0_def)
      obtain r' where "newest (set (next_heap item h')) k r'" using newest_exists by blast
      with IH have "pairs_map (b_pairs (merge_loop h lastKey b)) k =
         (case pairs_map (b_pairs b') k of None \<Rightarrow> map_option clone_append r' | Some v \<Rightarrow> Some v)"
        by blast
      moreover have "pairs_map (b_pairs b) k0 = None" if fresh
        using key(2) [OF that] by (auto simp: pairs_map_None)
      ultimately show ?thesis
        using r True key(3) by (cases fresh) (auto simp: b'k split: option.splits)
    next
      case neq: False
      then have "newest (set (next_heap item h')) k r"
        using newest_other [OF "1.prems" False pop new] by (simp add: k0_def)
      with IH neq show ?thesis by (simp add: b'k)
    qed
    with IH show ?thesis by blast
  qed
qed

subsection \<open>The merge as a whole\<close>

text \<open>The items pushed for the valid iterators, numbered from \<open>n + 1\<close>.\<close>

fun merge_items :: "nat \<Rightarrow> SSTableIterator option list \<Rightarrow> mergeItem list" where
  "merge_items n [] = []"
| "merge_items n (None # its) = merge_items (Suc n) its"
| "merge_items n (Some it # its) =
     (if it_valid it then [\<lparr>mi_iter = it, mi_fileID = of_nat (n + 1)\<rparr>] else []) @ merge_items (Suc n) its"

lemma merge_init_items:
  "mset (fold (\<lambda>(idx, it_opt) h.
      case it_opt of None \<Rightarrow> h
      | Some it \<Rightarrow> if \<not> it_valid it then h
          else heap_Push mergeHeap_Less h \<lparr>mi_iter = it, mi_fileID = of_nat (idx + 1)\<rparr>)
      (enumerate n iters) h) = mset h + mset (merge_items n iters)"
  by (induction iters arbitrary: n h) (auto split: option.splits)

lemma merge_init_heap:
  "mh.is_heap (length h) h \<Longrightarrow>
   h' = fold (\<lambda>(idx, it_opt) h.
      case it_opt of None \<Rightarrow> h
      | Some it \<Rightarrow> if \<not> it_valid it then h
          else heap_Push mergeHeap_Less h \<lparr>mi_iter = it, mi_fileID = of_nat (idx + 1)\<rparr>)
      (enumerate n iters) h \<Longrightarrow> mh.is_heap (length h') h'"
proof (induction iters arbitrary: n h)
  case (Cons it_opt its)
  have "length (heap_Push mergeHeap_Less h x) = Suc (length h)" for x
    by (metis heap_Push_perm size_add_mset size_mset)
  with Cons.prems(1) have "mh.is_heap (length (heap_Push mergeHeap_Less h x)) (heap_Push mergeHeap_Less h x)" for x
    using mh.heap_Push_heap by simp
  with Cons show ?case by (auto split: option.splits)
qed simp

lemma merge_items_fileID:
  "x \<in> set (merge_items n its) \<Longrightarrow> n + length its < 2 ^ 64 \<Longrightarrow>
   n < unat (mi_fileID x) \<and> unat (mi_fileID x) \<le> n + length its"
  by (induction n its rule: merge_items.induct) (auto simp: unat_Suc64 split: if_splits)

lemma merge_items_distinct:
  "n + length its < 2 ^ 64 \<Longrightarrow> distinct (map mi_fileID (merge_items n its))"
proof (induction n its rule: merge_items.induct)
  case (3 n it its)
  then show ?case
    using merge_items_fileID [of _ "Suc n" its] unat_Suc64 [of n] by fastforce
qed auto

lemma merge_items_newest:
  assumes "n + length its < 2 ^ 64"
  shows "newest (set (merge_items n its)) k
    (layered (rev (map (\<lambda>it. case it of None \<Rightarrow> Map.empty | Some i \<Rightarrow> pairs_map (iter_pairs i)) its)) k)"
  using assms
proof (induction n its rule: merge_items.induct)
  case (1 n)
  then show ?case by (simp add: newest_def)
next
  case (2 n its)
  then show ?case by simp
next
  case (3 n it its)
  let ?r = "layered (rev (map (\<lambda>it. case it of None \<Rightarrow> Map.empty | Some i \<Rightarrow> pairs_map (iter_pairs i)) its)) k"
  have IH: "newest (set (merge_items (Suc n) its)) k ?r" using 3 by simp
  have id: "(of_nat (n + 1) :: u64) \<le> mi_fileID x" if "x \<in> set (merge_items (Suc n) its)" for x
    using merge_items_fileID [OF that] "3.prems" by (simp add: word_le_nat_alt unat_Suc64)
  show ?case
  proof (cases ?r)
    case None
    with IH have "\<forall>x \<in> set (merge_items (Suc n) its). pairs_map (stream x) k = None"
      by (simp add: newest_def)
    with None show ?thesis
      by (cases "it_valid it"; cases "pairs_map (iter_pairs it) k") (simp_all add: layered_append newest_def)
  next
    case (Some v)
    with IH obtain x where x: "x \<in> set (merge_items (Suc n) its)" "pairs_map (stream x) k = Some v"
      "\<forall>y \<in> set (merge_items (Suc n) its). pairs_map (stream y) k \<noteq> None \<longrightarrow> mi_fileID y \<le> mi_fileID x"
      by (auto simp: newest_def)
    have "\<forall>y \<in> set (merge_items n (Some it # its)).
        pairs_map (stream y) k \<noteq> None \<longrightarrow> mi_fileID y \<le> mi_fileID x"
      using x(3) id [OF x(1)] by (auto split: if_splits)
    with x(1,2) have "newest (set (merge_items n (Some it # its))) k (Some v)"
      unfolding newest_def by auto
    with Some show ?thesis by (simp add: layered_append)
  qed
qed

lemma doMerge_spec:
  assumes "length its < 2 ^ 64"
    and "\<forall>it \<in> set its. sorted_pairs (iter_pairs it) \<and> [] \<notin> Key ` set (iter_pairs it)"
  shows "sorted_pairs (b_pairs (doMerge (map Some its)))"
    and "pairs_map (b_pairs (doMerge (map Some its))) k =
      map_option clone_append (layered (rev (map (\<lambda>it. pairs_map (iter_pairs it)) its)) k)"
proof -
  let ?h = "merge_init (map Some its)"
  have m: "mset ?h = mset (merge_items 0 (map Some its))"
    unfolding merge_init_def merge_init_items by (simp add: heap_Init_def)
  have sets: "set ?h = set (merge_items 0 (map Some its))" using m by (rule mset_eq_setD)
  have items: "it_valid (mi_iter x) \<and> mi_iter x \<in> set its" if "x \<in> set (merge_items n (map Some its))" for x n
    using that by (induction its arbitrary: n) (auto split: if_splits)
  have "mh.is_heap (length ?h) ?h"
    unfolding merge_init_def
    by (rule merge_init_heap [OF _ refl]) (simp add: heap_Init_def mh.is_heap_def)
  moreover have "mset (map mi_fileID ?h) = mset (map mi_fileID (merge_items 0 (map Some its)))"
    using m by simp
  then have "distinct (map mi_fileID ?h)"
    using merge_items_distinct [of 0 "map Some its"] assms(1) mset_eq_imp_distinct_iff by fastforce
  ultimately have inv: "merge_inv ?h [] NewSSTableBuilder"
    using assms(2) items by (auto simp: merge_inv_def sets NewSSTableBuilder_def)
  from merge_loop_spec [OF inv] show "sorted_pairs (b_pairs (doMerge (map Some its)))"
    by (simp add: doMerge_def)
  have "newest (set ?h) k (layered (rev (map (\<lambda>it. pairs_map (iter_pairs it)) its)) k)"
    using merge_items_newest [of 0 "map Some its" k] assms(1) by (simp add: sets comp_def)
  with merge_loop_spec [OF inv] show "pairs_map (b_pairs (doMerge (map Some its))) k =
      map_option clone_append (layered (rev (map (\<lambda>it. pairs_map (iter_pairs it)) its)) k)"
    by (simp add: doMerge_def NewSSTableBuilder_def)
qed

end
