(* ===== verification/Metrics.thy ===== *)
theory Metrics
  imports Go_Prelude
begin

text \<open>
  The counters of \<^verbatim>\<open>internal/lsm/metrics.go\<close>. Every counter is a 64-bit word that wraps;
  durations arrive as nanoseconds. \<open>updateAtomicMax\<close> is the compare-and-swap loop: each round loads the
  counter and either stops or tries to replace the value it loaded, and \<open>others\<close> lists the values
  that concurrent calls put in between load and swap, one per failed round.
\<close>

record dbMetrics =
  getTotal :: u64
  getSSTableFilesTouchedTotal :: u64
  getSSTableFilesTouchedMax :: u64
  compactionTotal :: u64
  compactionInputFilesTotal :: u64
  compactionOutputFilesTotal :: u64
  compactionTotalNS :: u64
  compactionMaxNS :: u64
  compactionLastNS :: u64
  compactionFailedTotal :: u64

definition zero_metrics :: dbMetrics where
  "zero_metrics = \<lparr>getTotal = 0, getSSTableFilesTouchedTotal = 0, getSSTableFilesTouchedMax = 0,
     compactionTotal = 0, compactionInputFilesTotal = 0, compactionOutputFilesTotal = 0,
     compactionTotalNS = 0, compactionMaxNS = 0, compactionLastNS = 0, compactionFailedTotal = 0\<rparr>"

fun updateAtomicMax :: "u64 list \<Rightarrow> u64 \<Rightarrow> u64 \<Rightarrow> u64" where
  "updateAtomicMax [] current val = (if val \<le> current then current else val)"
| "updateAtomicMax (other # others) current val =
     (if val \<le> current then current
      else if other = current then val \<comment> \<open>the swap succeeds\<close>
      else updateAtomicMax others other val)"

definition recordGetSSTableTouches :: "nat \<Rightarrow> dbMetrics \<Rightarrow> dbMetrics" where
  "recordGetSSTableTouches touched m =
     m\<lparr>getTotal := getTotal m + 1,
       getSSTableFilesTouchedTotal := getSSTableFilesTouchedTotal m + of_nat touched,
       getSSTableFilesTouchedMax :=
         updateAtomicMax [] (getSSTableFilesTouchedMax m) (of_nat touched)\<rparr>"

definition recordCompaction :: "nat \<Rightarrow> nat \<Rightarrow> nat \<Rightarrow> bool \<Rightarrow> dbMetrics \<Rightarrow> dbMetrics" where
  "recordCompaction inputFiles outputFiles elapsedNS failed m =
     (if failed then m\<lparr>compactionFailedTotal := compactionFailedTotal m + 1\<rparr>
      else m\<lparr>compactionTotal := compactionTotal m + 1,
             compactionInputFilesTotal := compactionInputFilesTotal m + of_nat inputFiles,
             compactionOutputFilesTotal := compactionOutputFilesTotal m + of_nat outputFiles,
             compactionTotalNS := compactionTotalNS m + of_nat elapsedNS,
             compactionLastNS := of_nat elapsedNS,
             compactionMaxNS := updateAtomicMax [] (compactionMaxNS m) (of_nat elapsedNS)\<rparr>)"

section \<open>Lemmas\<close>

text \<open>When the other writers only ever raise the counter, the loop leaves the maximum of what it
  found last and its own value.\<close>

lemma updateAtomicMax_ge:
  "val \<le> updateAtomicMax others current val"
  by (induction others arbitrary: current) auto

lemma updateAtomicMax_mono:
  "sorted (current # others) \<Longrightarrow> current \<le> updateAtomicMax others current val"
  by (induction others arbitrary: current) (auto intro: order_trans)

lemma updateAtomicMax_max: "updateAtomicMax [] current val = max current val"
  by (cases "val \<le> current") (simp_all add: max_absorb1 max_absorb2)

text \<open>What the engine reports to its counters: a read with the number of tables it touched, and a compaction with its
  files, its time in nanoseconds and whether it failed. The counters are the counts, sums and maxima over
  all reports, modulo \<open>2 ^ 64\<close>; a failed compaction counts only as failed.\<close>

datatype observation = Touched nat | Compacted nat nat nat bool

fun observe :: "observation \<Rightarrow> dbMetrics \<Rightarrow> dbMetrics" where
  "observe (Touched touched) m = recordGetSSTableTouches touched m"
| "observe (Compacted inputs outputs elapsedNS failed) m = recordCompaction inputs outputs elapsedNS failed m"

definition metrics_of :: "observation list \<Rightarrow> dbMetrics" where
  "metrics_of obs = fold observe obs zero_metrics"

definition touches :: "observation list \<Rightarrow> nat list" where
  "touches obs = concat (map (\<lambda>ob. case ob of Touched t \<Rightarrow> [t] | _ \<Rightarrow> []) obs)"

definition compaction_times :: "observation list \<Rightarrow> nat list" where
  "compaction_times obs =
     concat (map (\<lambda>ob. case ob of Compacted _ _ ns False \<Rightarrow> [ns] | _ \<Rightarrow> []) obs)"

lemma touches_simps [simp]:
  "touches [] = []" "touches (obs @ obs') = touches obs @ touches obs'"
  "touches [Touched t] = [t]" "touches [Compacted i o' ns failed] = []"
  by (simp_all add: touches_def)

lemma compaction_times_simps [simp]:
  "compaction_times [] = []" "compaction_times (obs @ obs') = compaction_times obs @ compaction_times obs'"
  "compaction_times [Touched t] = []" "compaction_times [Compacted i o' ns failed] = (if failed then [] else [ns])"
  by (simp_all add: compaction_times_def)

lemma metrics_of_Nil [simp]: "metrics_of [] = zero_metrics"
  by (simp add: metrics_of_def)

lemma metrics_of_snoc [simp]: "metrics_of (obs @ [ob]) = observe ob (metrics_of obs)"
  by (simp add: metrics_of_def)

lemma metrics_of_sums:
  "getTotal (metrics_of obs) = of_nat (length (touches obs))"
  "getSSTableFilesTouchedTotal (metrics_of obs) = of_nat (sum_list (touches obs))"
  "compactionTotal (metrics_of obs) = of_nat (length (compaction_times obs))"
  "compactionTotalNS (metrics_of obs) = of_nat (sum_list (compaction_times obs))"
proof (induction obs rule: rev_induct)
  case (snoc ob obs)
  { case 1 with snoc show ?case by (cases ob) (simp_all add: recordGetSSTableTouches_def recordCompaction_def) }
  { case 2 with snoc show ?case by (cases ob) (simp_all add: recordGetSSTableTouches_def recordCompaction_def) }
  { case 3 with snoc show ?case by (cases ob) (simp_all add: recordGetSSTableTouches_def recordCompaction_def) }
  { case 4 with snoc show ?case by (cases ob) (simp_all add: recordGetSSTableTouches_def recordCompaction_def) }
qed (simp_all add: zero_metrics_def)

lemma metrics_of_last:
  "compactionLastNS (metrics_of obs) =
     (if compaction_times obs = [] then 0 else of_nat (last (compaction_times obs)))"
proof (induction obs rule: rev_induct)
  case (snoc ob obs)
  then show ?case by (cases ob) (auto simp: recordGetSSTableTouches_def recordCompaction_def)
qed (simp add: zero_metrics_def)

definition peak :: "nat list \<Rightarrow> nat" where
  "peak xs = fold max xs 0"

lemma peak_snoc [simp]: "peak (xs @ [x]) = max x (peak xs)"
  by (simp add: peak_def)

lemma peak_Nil [simp]: "peak [] = 0"
  by (simp add: peak_def)

lemma peak_le_sum: "peak xs \<le> sum_list xs"
  by (induction xs rule: rev_induct) auto

lemma last_le_peak: "xs \<noteq> [] \<Longrightarrow> last xs \<le> peak xs"
  by (cases xs rule: rev_cases) auto

lemma sum_le_peak: "sum_list xs \<le> length xs * peak xs"
proof (induction xs rule: rev_induct)
  case (snoc x xs)
  have "length xs * peak xs \<le> length xs * peak (xs @ [x])" by (intro mult_le_mono2) simp
  with snoc show ?case by (simp add: add.commute add_mono order.trans)
qed simp

lemma of_nat_max_word:
  fixes x y :: nat
  assumes "x < 2 ^ 64" "y < 2 ^ 64"
  shows "updateAtomicMax [] (of_nat x) (of_nat y) = (of_nat (max y x) :: u64)"
  using assms by (simp add: word_le_nat_alt unat_of_nat max_def)

lemma metrics_of_max:
  "sum_list (touches obs) < 2 ^ 64 \<Longrightarrow>
     getSSTableFilesTouchedMax (metrics_of obs) = of_nat (peak (touches obs))"
  "sum_list (compaction_times obs) < 2 ^ 64 \<Longrightarrow>
     compactionMaxNS (metrics_of obs) = of_nat (peak (compaction_times obs))"
proof (induction obs rule: rev_induct)
  case (snoc ob obs)
  note le = peak_le_sum [of "touches obs"] peak_le_sum [of "compaction_times obs"]
  { case 1 with snoc le show ?case
      by (cases ob) (simp_all add: recordGetSSTableTouches_def recordCompaction_def of_nat_max_word
        del: updateAtomicMax.simps split: if_splits) }
  { case 2 with snoc le show ?case
      by (cases ob) (simp_all add: recordGetSSTableTouches_def recordCompaction_def of_nat_max_word
        del: updateAtomicMax.simps split: if_splits) }
qed (simp_all add: zero_metrics_def)

end
