(* ===== verification/DB.thy ===== *)
theory DB
  imports MemTable WAL Loader Merge Metrics
begin

text \<open>
  The engine of \<^verbatim>\<open>internal/lsm/kvstore.go\<close> and \<^verbatim>\<open>kvstore_compaction.go\<close>. The record \<open>DB\<close> has the fields
  of the source; pointers that may be nil are options and the notification channel of capacity one is a
  flag. Each operation takes the engine and the disk and returns both. \<^verbatim>\<open>checkAndFlush\<close> starts
  \<^verbatim>\<open>flush\<close> in a goroutine: the model returns the job, the table and the old log, and
  \<open>flush\<close> itself is the composition of its lock sections, which the step relation of
  \<open>Durability\<close> interleaves with the other operations.
\<close>

type_synonym flush_job = "MemTable \<times> WAL option"

record DB =
  memTable :: MemTable
  immTable :: "MemTable option"
  sstables :: "SSTableMeta list"
  nextFileID :: u64
  wal :: "WAL option"
  nextwal :: "WAL option"
  walNotifyCh :: bool
  walFileID :: u64
  compactionThreshold :: nat
  enableCompaction :: bool
  metrics :: dbMetrics

record Options =
  EnableCompaction :: bool

definition wal_path :: "u64 \<Rightarrow> path" where
  "wal_path fid = (WalDir, fmt_06d (unat fid) @ ''wal.log'')"

section \<open>Flush\<close>

definition checkAndFlush :: "DB \<Rightarrow> DB \<times> flush_job option" where
  "checkAndFlush db =
     (if mt_size (memTable db) \<ge> 4096 then
        if immTable db \<noteq> None then (db, None)
        else (case nextwal db of
                None \<Rightarrow> (db, None)
              | Some nw \<Rightarrow>
                  (db\<lparr>immTable := Some (memTable db), memTable := NewMemTable,
                      wal := Some nw, nextwal := None, walNotifyCh := True\<rparr>,
                   Some (memTable db, wal db)))
      else (db, None))"

definition reserveNextFileID :: "DB \<Rightarrow> u64 \<times> DB" where
  "reserveNextFileID db = (nextFileID db, db\<lparr>nextFileID := nextFileID db + 1\<rparr>)"

text \<open>The lock section of \<^verbatim>\<open>installFlushedTable\<close>, with the snapshot it takes.\<close>

definition install_flushed :: "SSTableMeta \<Rightarrow> DB \<Rightarrow> SSTableMeta list \<times> DB" where
  "install_flushed meta db =
     (let db' = db\<lparr>sstables := sstables db @ [meta], immTable := None\<rparr> in (sstables db', db'))"

definition delete_old_wal :: "WAL option \<Rightarrow> disk \<Rightarrow> disk" where
  "delete_old_wal oldWal d =
     (case oldWal of None \<Rightarrow> d | Some w \<Rightarrow> (case WAL_Delete w d of (e, w', d') \<Rightarrow> d'))"

definition installFlushedTable :: "SSTableMeta \<Rightarrow> WAL option \<Rightarrow> DB \<Rightarrow> disk \<Rightarrow> DB \<times> disk" where
  "installFlushedTable meta oldWal db d =
     (case install_flushed meta db of
        (snapshot, db') \<Rightarrow>
          (case persistManifest snapshot d of (e, d1) \<Rightarrow> (db', delete_old_wal oldWal d1)))"

definition flush_meta :: "u64 \<Rightarrow> MemTable \<Rightarrow> u64 \<Rightarrow> IndexEntry list \<Rightarrow> SSTableMeta" where
  "flush_meta fileID imm sz index =
     \<lparr>sm_FileID = fileID, sm_MinKey = Key (hd (pairs imm)), sm_MaxKey = Key (last (pairs imm)),
      sm_Size = sz, sm_Index = index\<rparr>"

definition flush :: "MemTable option \<Rightarrow> WAL option \<Rightarrow> DB \<Rightarrow> disk \<Rightarrow> DB \<times> disk" where
  "flush imm_opt oldWal db d =
     (case imm_opt of
        None \<Rightarrow> (db, d)
      | Some imm \<Rightarrow>
          if length (pairs imm) = 0 then (db, d)
          else (case reserveNextFileID db of
                  (fileID, db1) \<Rightarrow>
                    (case writeSSTable (sst_path fileID) (pairs imm) d of
                       ((sz, index, Some e), d1) \<Rightarrow> (db1, d1)
                     | ((sz, index, None), d1) \<Rightarrow>
                         installFlushedTable (flush_meta fileID imm sz index) oldWal db1 d1)))"

section \<open>Client operations\<close>

definition DB_Put ::
  "bytes \<Rightarrow> bytes \<Rightarrow> DB \<Rightarrow> disk \<Rightarrow> (go_error option \<times> flush_job option) \<times> DB \<times> disk"
where
  "DB_Put key val db d =
     (case wal db of
        None \<Rightarrow> ((Some NilPointer, None), db, d)
      | Some w \<Rightarrow>
          (case WAL_AppendPut w key val d of
             (Some e, d1) \<Rightarrow> ((Some e, None), db, d1)
           | (None, d1) \<Rightarrow>
               (case checkAndFlush (db\<lparr>memTable := MemTable_Put (memTable db) key (Some val)\<rparr>) of
                  (db', job) \<Rightarrow> ((None, job), db', d1))))"

definition DB_Delete ::
  "bytes \<Rightarrow> DB \<Rightarrow> disk \<Rightarrow> (go_error option \<times> flush_job option) \<times> DB \<times> disk"
where
  "DB_Delete key db d =
     (case wal db of
        None \<Rightarrow> ((Some NilPointer, None), db, d)
      | Some w \<Rightarrow>
          (case WAL_AppendDelete w key d of
             (Some e, d1) \<Rightarrow> ((Some e, None), db, d1)
           | (None, d1) \<Rightarrow>
               (case checkAndFlush (db\<lparr>memTable := MemTable_Put (memTable db) key None\<rparr>) of
                  (db', job) \<Rightarrow> ((None, job), db', d1))))"

text \<open>The loop over the snapshot of the tables, newest first, with the count of the tables read.\<close>

fun get_loop :: "disk \<Rightarrow> bytes \<Rightarrow> SSTableMeta list \<Rightarrow> nat \<Rightarrow> slice option \<times> nat" where
  "get_loop d k [] touched = (None, touched)"
| "get_loop d k (meta # rest) touched =
     (if bytes_Compare k (sm_MinKey meta) < 0 \<or> bytes_Compare k (sm_MaxKey meta) > 0
      then get_loop d k rest touched
      else case readValFromSSTable meta d k of
             Some v \<Rightarrow> (Some v, touched + 1)
           | None \<Rightarrow> get_loop d k rest (touched + 1))"

text \<open>A found value that is nil is a tombstone.\<close>

definition found_result :: "slice \<Rightarrow> bytes \<times> bool" where
  "found_result val = (case val of None \<Rightarrow> ([], False) | Some v \<Rightarrow> (v, True))"

definition DB_Get :: "bytes \<Rightarrow> DB \<Rightarrow> disk \<Rightarrow> (bytes \<times> bool) \<times> DB" where
  "DB_Get key db d =
     (case MemTable_Get (memTable db) key of
        Some val \<Rightarrow> (found_result val, db\<lparr>metrics := recordGetSSTableTouches 0 (metrics db)\<rparr>)
      | None \<Rightarrow>
          (case (case immTable db of None \<Rightarrow> None | Some imm \<Rightarrow> MemTable_Get imm key) of
             Some val \<Rightarrow> (found_result val, db\<lparr>metrics := recordGetSSTableTouches 0 (metrics db)\<rparr>)
           | None \<Rightarrow>
               (case get_loop d key (rev (sstables db)) 0 of
                  (r, touched) \<Rightarrow>
                    ((case r of Some val \<Rightarrow> found_result val | None \<Rightarrow> ([], False)),
                     db\<lparr>metrics := recordGetSSTableTouches touched (metrics db)\<rparr>))))"

definition DB_Len :: "DB \<Rightarrow> nat" where
  "DB_Len db = length (pairs (memTable db))"

text \<open>One round of the log pre-allocator. The notification is used up also when the file cannot be
  opened.\<close>

definition walPreAllocator :: "DB \<Rightarrow> disk \<Rightarrow> DB \<times> disk" where
  "walPreAllocator db d =
     (if \<not> walNotifyCh db then (db, d)
      else let db1 = db\<lparr>walNotifyCh := False\<rparr>
           in (case OpenWAL (wal_path (walFileID db)) d of
                 (Inl e, d1) \<Rightarrow> (db1, d1)
               | (Inr newWal, d1) \<Rightarrow>
                   (db1\<lparr>nextwal := Some newWal, walFileID := walFileID db1 + 1\<rparr>, d1)))"

section \<open>Recovery\<close>

definition loadSSTables :: "DB \<Rightarrow> disk \<Rightarrow> go_error option \<times> DB" where
  "loadSSTables db d =
     (case load_files d (os_ReadDir SstDir d) [] (nextFileID db) of
        (Inl e, n) \<Rightarrow> (Some e, db\<lparr>nextFileID := n\<rparr>)
      | (Inr loadedMetas, n) \<Rightarrow>
          (None, db\<lparr>nextFileID := n,
                    sstables := applyManifestOrder (sort_key sm_FileID loadedMetas) d\<rparr>))"

definition wal_ids :: "disk \<Rightarrow> u64 list" where
  "wal_ids d = sort (map Sscanf_06d (filter (\<lambda>name. filepath_Ext name = ''.log'') (os_ReadDir WalDir d)))"

definition onPut :: "bytes \<Rightarrow> bytes \<Rightarrow> MemTable \<Rightarrow> MemTable" where
  "onPut key val t = MemTable_Put t key (Some val)"

definition onDelete :: "bytes \<Rightarrow> MemTable \<Rightarrow> MemTable" where
  "onDelete key t = MemTable_Put t key None"

definition recover_one :: "u64 \<Rightarrow> MemTable \<times> disk \<Rightarrow> MemTable \<times> disk" where
  "recover_one fid = (\<lambda>(t, d).
     case OpenWAL (wal_path fid) d of
       (Inl e, d1) \<Rightarrow> (t, d1)
     | (Inr curwal, d1) \<Rightarrow>
         (case WAL_Replay curwal onPut onDelete d1 t of
            (t', err) \<Rightarrow> (t', snd (WAL_Close curwal d1))))"

definition RecoverFromWAL :: "DB \<Rightarrow> disk \<Rightarrow> DB \<times> disk" where
  "RecoverFromWAL db d =
     (let walIDs = wal_ids d
      in (case fold recover_one walIDs (memTable db, d) of
            (t, d1) \<Rightarrow>
              (db\<lparr>memTable := t,
                  walFileID := (if length walIDs > 0 then last walIDs + 1 else 1)\<rparr>, d1)))"

definition removeAllOldWalFiles :: "disk \<Rightarrow> disk" where
  "removeAllOldWalFiles d =
     fold (\<lambda>name d. if filepath_Ext name = ''.log'' then snd (os_Remove (WalDir, name) d) else d)
       (os_ReadDir WalDir d) d"

definition initial_DB :: "Options \<Rightarrow> DB" where
  "initial_DB options =
     \<lparr>memTable = NewMemTable, immTable = None, sstables = [], nextFileID = 1, wal = None,
      nextwal = None, walNotifyCh = False, walFileID = 1, compactionThreshold = 4,
      enableCompaction = EnableCompaction options, metrics = zero_metrics\<rparr>"

definition flush_recovered :: "DB \<Rightarrow> disk \<Rightarrow> DB \<times> disk" where
  "flush_recovered db d =
     (if mt_size (memTable db) > 0
      then let db1 = db\<lparr>immTable := Some (memTable db), memTable := NewMemTable\<rparr>
           in flush (immTable db1) None db1 d
      else (db, d))"

definition NewDBWithOptions :: "Options \<Rightarrow> disk \<Rightarrow> DB \<times> disk" where
  "NewDBWithOptions options d =
     (case loadSSTables (initial_DB options) d of (e, db1) \<Rightarrow>
      (case RecoverFromWAL db1 d of (db2, d2) \<Rightarrow>
       (case flush_recovered db2 d2 of (db3, d3) \<Rightarrow>
        let d4 = removeAllOldWalFiles d3
        in (case OpenWAL (wal_path (walFileID db3)) d4 of
              (r, d5) \<Rightarrow>
                (db3\<lparr>wal := (case r of Inl e \<Rightarrow> None | Inr w \<Rightarrow> Some w),
                     walFileID := walFileID db3 + 1, walNotifyCh := True\<rparr>, d5)))))"

definition NewDB :: "disk \<Rightarrow> DB \<times> disk" where
  "NewDB d = NewDBWithOptions \<lparr>EnableCompaction = True\<rparr> d"

section \<open>Compaction\<close>

definition needCompaction :: "DB \<Rightarrow> bool" where
  "needCompaction db \<longleftrightarrow> enableCompaction db \<and> length (sstables db) \<ge> compactionThreshold db"

definition pickCompactionFiles :: "DB \<Rightarrow> SSTableMeta list" where
  "pickCompactionFiles db =
     (if length (sstables db) < compactionThreshold db then []
      else take (compactionThreshold db) (sstables db))"

text \<open>The lock section of \<^verbatim>\<open>installCompactedTable\<close>, with the snapshot it takes.\<close>

definition install_compacted ::
  "SSTableMeta option \<Rightarrow> SSTableMeta list \<Rightarrow> DB \<Rightarrow> SSTableMeta list \<times> DB"
where
  "install_compacted newSST oldSSTs db =
     (let obsolete = map sm_FileID oldSSTs;
          kept = filter (\<lambda>m. sm_FileID m \<notin> set obsolete) (sstables db);
          kept = (case newSST of None \<Rightarrow> kept | Some m \<Rightarrow> kept @ [m]);
          db' = db\<lparr>sstables := kept\<rparr>
      in (sstables db', db'))"

definition installCompactedTable ::
  "SSTableMeta option \<Rightarrow> SSTableMeta list \<Rightarrow> DB \<Rightarrow> disk \<Rightarrow> DB \<times> disk"
where
  "installCompactedTable newSST oldSSTs db d =
     (case install_compacted newSST oldSSTs db of
        (snapshot, db') \<Rightarrow> (case persistManifest snapshot d of (e, d1) \<Rightarrow> (db', d1)))"

definition removeObsoleteFiles :: "SSTableMeta list \<Rightarrow> disk \<Rightarrow> disk" where
  "removeObsoleteFiles oldSSTs d =
     fold (\<lambda>meta d. snd (os_Remove (sst_path (sm_FileID meta)) d)) oldSSTs d"

fun open_iterators :: "SSTableMeta list \<Rightarrow> disk \<Rightarrow> go_error + SSTableIterator list" where
  "open_iterators [] d = Inr []"
| "open_iterators (meta # metas) d =
     (case NewSSTableIterator (Some meta) d of
        Inl e \<Rightarrow> Inl e
      | Inr it \<Rightarrow>
          (case open_iterators metas d of Inl e \<Rightarrow> Inl e | Inr its \<Rightarrow> Inr (it # its)))"

definition doCompaction :: "nat \<Rightarrow> DB \<Rightarrow> disk \<Rightarrow> go_error option \<times> DB \<times> disk" where
  "doCompaction elapsedNS db d =
     (let oldSSTs = pickCompactionFiles db;
          inputFiles = length oldSSTs;
          record = (\<lambda>outputFiles err db. db\<lparr>metrics :=
                      recordCompaction inputFiles outputFiles elapsedNS (err \<noteq> None) (metrics db)\<rparr>)
      in if inputFiles = 0 then (None, db, d)
         else case open_iterators oldSSTs d of
                Inl e \<Rightarrow> (Some e, record 0 (Some e) db, d)
              | Inr iters \<Rightarrow>
                  let builder = doMerge (map Some iters)
                  in if Builder_Len builder = 0
                     then (case installCompactedTable None oldSSTs db d of
                             (db1, d1) \<Rightarrow>
                               (None, record 0 None db1, removeObsoleteFiles oldSSTs d1))
                     else (case reserveNextFileID db of
                             (newFileID, db1) \<Rightarrow>
                               (case writeSSTable (sst_path newFileID) (b_pairs builder) d of
                                  ((sz, index, Some e), d1) \<Rightarrow> (Some e, record 0 (Some e) db1, d1)
                                | ((sz, index, None), d1) \<Rightarrow>
                                    let newMeta = \<lparr>sm_FileID = newFileID,
                                                   sm_MinKey = Key (hd (b_pairs builder)),
                                                   sm_MaxKey = Key (last (b_pairs builder)),
                                                   sm_Size = sz, sm_Index = index\<rparr>
                                    in (case installCompactedTable (Some newMeta) oldSSTs db1 d1 of
                                          (db2, d2) \<Rightarrow>
                                            (None, record 1 None db2,
                                             removeObsoleteFiles oldSSTs d2)))))"

text \<open>One tick of the compaction loop.\<close>

definition compaction_tick :: "nat \<Rightarrow> DB \<Rightarrow> disk \<Rightarrow> DB \<times> disk" where
  "compaction_tick elapsedNS db d =
     (if \<not> needCompaction db then (db, d) else snd (doCompaction elapsedNS db d))"

end
