(* ===== verification/DB_View.thy ===== *)
theory DB_View
  imports DB
begin

text \<open>
  What the engine promises: it behaves as a map from keys to their last write. \<open>db_view\<close> reads the
  layers of the engine, the memory table first, then the table being flushed, then the tables on
  disk from the newest to the oldest; \<open>db_inv\<close> is the invariant of the engine and its disk. The lemmas
  show that \<open>DB_Get\<close> returns the view, that a write updates it at its key, and that a flush, an
  allocation of a log and a compaction of all tables leave it alone, with every system call
  allowed to fail. The locale \<open>sorted_runs\<close> is what \<open>DB_Get\<close> relies on in a table.
\<close>

section \<open>A stack of sorted runs\<close>

locale sorted_runs =
  fixes ok :: "'t \<Rightarrow> bool"
    and contents :: "'t \<Rightarrow> KVPair list"
    and lookup :: "'t \<Rightarrow> bytes \<Rightarrow> slice option"
    and lo :: "'t \<Rightarrow> bytes"
    and hi :: "'t \<Rightarrow> bytes"
  assumes lookup: "ok t \<Longrightarrow> lookup t k = pairs_map (contents t) k"
    and range: "ok t \<Longrightarrow> p \<in> set (contents t) \<Longrightarrow> lo t \<le> Key p \<and> Key p \<le> hi t"
begin

fun search :: "bytes \<Rightarrow> 't list \<Rightarrow> slice option" where
  "search k [] = None"
| "search k (t # ts) =
     (if k < lo t \<or> hi t < k then search k ts
      else case lookup t k of None \<Rightarrow> search k ts | Some v \<Rightarrow> Some v)"

lemma out_of_range: "ok t \<Longrightarrow> k < lo t \<or> hi t < k \<Longrightarrow> pairs_map (contents t) k = None"
  using range by (force simp: pairs_map_None)

lemma search_layered:
  "list_all ok ts \<Longrightarrow> search k ts = layered (map (\<lambda>t. pairs_map (contents t)) ts) k"
  by (induction ts) (auto simp: lookup out_of_range split: option.splits)

end

section \<open>Tables on disk\<close>

definition table_pairs :: "disk \<Rightarrow> SSTableMeta \<Rightarrow> KVPair list" where
  "table_pairs d meta =
     (case NewSSTableIterator (Some meta) d of Inl e \<Rightarrow> [] | Inr it \<Rightarrow> iter_pairs it)"

definition table_ok :: "disk \<Rightarrow> SSTableMeta \<Rightarrow> bool" where
  "table_ok d meta \<longleftrightarrow>
     (let ps = table_pairs d meta
      in storable ps \<and> meta = sst_meta (sm_FileID meta) ps \<and>
         disk_file d (sst_path (sm_FileID meta)) = Some (sst_bytes ps))"

lemma table_written:
  assumes "storable ps" and "disk_file d (sst_path fid) = Some (sst_bytes ps)"
  shows "table_pairs d (sst_meta fid ps) = ps" and "table_ok d (sst_meta fid ps)"
proof -
  show *: "table_pairs d (sst_meta fid ps) = ps"
    using NewSSTableIterator_sst_bytes [OF assms] by (auto simp: table_pairs_def)
  have "sm_FileID (sst_meta fid ps) = fid" by (simp add: sst_meta_def)
  with assms show "table_ok d (sst_meta fid ps)" by (simp add: table_ok_def *)
qed

lemma table_ok_cases:
  assumes "table_ok d meta"
  obtains ps where "storable ps" "meta = sst_meta (sm_FileID meta) ps" "table_pairs d meta = ps"
    "disk_file d (sst_path (sm_FileID meta)) = Some (sst_bytes ps)"
  using assms by (auto simp: table_ok_def Let_def)

lemma table_cong:
  assumes "disk_file d' (sst_path (sm_FileID meta)) = disk_file d (sst_path (sm_FileID meta))"
  shows "table_pairs d' meta = table_pairs d meta" and "table_ok d' meta = table_ok d meta"
  using assms by (simp_all add: table_ok_def table_pairs_def NewSSTableIterator_def)

lemma sorted_pairs_hd: "sorted_pairs ps \<Longrightarrow> p \<in> set ps \<Longrightarrow> Key (hd ps) \<le> Key p"
  by (cases ps) (auto simp: less_imp_le)

interpretation sst: sorted_runs "table_ok d" "table_pairs d" "\<lambda>m. readValFromSSTable m d"
  sm_MinKey sm_MaxKey for d
proof
  fix meta k
  assume ok: "table_ok d meta"
  then obtain ps where ps: "storable ps" "meta = sst_meta (sm_FileID meta) ps"
    "table_pairs d meta = ps" "disk_file d (sst_path (sm_FileID meta)) = Some (sst_bytes ps)"
    by (rule table_ok_cases)
  show "readValFromSSTable meta d k = pairs_map (table_pairs d meta) k"
    by (subst ps(2)) (simp add: readValFromSSTable_sst_bytes [OF ps(1,4)] ps(3))
  fix p
  assume "p \<in> set (table_pairs d meta)"
  with ps(1,3) have "Key (hd ps) \<le> Key p \<and> Key p \<le> Key (last ps)"
    by (simp add: storable_def sorted_pairs_hd sorted_pairs_last)
  moreover have "sm_MinKey meta = Key (hd ps)" "sm_MaxKey meta = Key (last ps)"
    by (subst ps(2), simp add: sst_meta_def)+
  ultimately show "sm_MinKey meta \<le> Key p \<and> Key p \<le> sm_MaxKey meta" by simp
qed

section \<open>View and invariant\<close>

definition mem_view :: "MemTable option \<Rightarrow> bytes \<Rightarrow> slice option" where
  "mem_view t = (case t of None \<Rightarrow> Map.empty | Some m \<Rightarrow> pairs_map (pairs m))"

definition tables_view :: "disk \<Rightarrow> SSTableMeta list \<Rightarrow> bytes \<Rightarrow> slice option" where
  "tables_view d metas = layered (map (\<lambda>m. pairs_map (table_pairs d m)) (rev metas))"

definition db_view :: "DB \<Rightarrow> disk \<Rightarrow> bytes \<Rightarrow> slice option" where
  "db_view db d =
     layered [pairs_map (pairs (memTable db)), mem_view (immTable db), tables_view d (sstables db)]"

definition handle_ok :: "WAL option \<Rightarrow> bool" where
  "handle_ok h = (case h of Some (Some p) \<Rightarrow> fst p = WalDir | _ \<Rightarrow> True)"

definition db_inv :: "DB \<Rightarrow> disk \<Rightarrow> bool" where
  "db_inv db d \<longleftrightarrow>
     mt_invar (memTable db) \<and> (case immTable db of None \<Rightarrow> True | Some m \<Rightarrow> mt_invar m) \<and>
     list_all (table_ok d) (sstables db) \<and> distinct (map sm_FileID (sstables db)) \<and>
     list_all (\<lambda>m. sm_FileID m < nextFileID db) (sstables db) \<and>
     handle_ok (wal db) \<and> handle_ok (nextwal db)"

lemma db_invD:
  assumes "db_inv db d"
  shows "mt_invar (memTable db)" "immTable db = Some m \<Longrightarrow> mt_invar m"
    "list_all (table_ok d) (sstables db)" "distinct (map sm_FileID (sstables db))"
    "m' \<in> set (sstables db) \<Longrightarrow> sm_FileID m' < nextFileID db"
    "handle_ok (wal db)" "handle_ok (nextwal db)"
  using assms by (auto simp: db_inv_def list_all_iff)

lemma tables_view_cong:
  assumes "\<And>m. m \<in> set metas \<Longrightarrow>
    disk_file d' (sst_path (sm_FileID m)) = disk_file d (sst_path (sm_FileID m))"
  shows "tables_view d' metas = tables_view d metas"
    and "list_all (table_ok d') metas = list_all (table_ok d) metas"
proof -
  have "map (\<lambda>m. pairs_map (table_pairs d' m)) (rev metas) =
      map (\<lambda>m. pairs_map (table_pairs d m)) (rev metas)"
    by (rule map_cong) (use table_cong(1) [OF assms] in auto)
  then show "tables_view d' metas = tables_view d metas" unfolding tables_view_def by (rule arg_cong)
  show "list_all (table_ok d') metas = list_all (table_ok d) metas"
    unfolding list_all_iff using table_cong(2) [OF assms] by blast
qed

lemma tables_view_snoc:
  "tables_view d (metas @ [m]) k =
     (case pairs_map (table_pairs d m) k of None \<Rightarrow> tables_view d metas k | Some v \<Rightarrow> Some v)"
  by (simp add: tables_view_def split: option.splits)

lemma sst_path_inject [simp]: "sst_path a = sst_path b \<longleftrightarrow> a = b"
  by (auto simp: sst_path_def word_unat_eq_iff)

lemma sst_path_dirs [simp]:
  "fst (sst_path fid) = SstDir" "sst_path fid \<noteq> manifest_path" "manifest_path \<noteq> sst_path fid"
  "sst_path fid \<noteq> wal_path n" "wal_path n \<noteq> sst_path fid"
  by (auto simp: sst_path_def manifest_path_def wal_path_def)

section \<open>Reads\<close>

lemma get_loop_search: "fst (get_loop d k metas n) = sst.search d k metas"
  by (induction metas arbitrary: n) (auto split: option.splits)

lemma get_loop_touched:
  "n \<le> snd (get_loop d k metas n) \<and> snd (get_loop d k metas n) \<le> n + length metas"
proof (induction metas arbitrary: n)
  case (Cons m metas)
  show ?case using Cons.IH [of n] Cons.IH [of "Suc n"] by (auto split: option.splits)
qed simp

lemma DB_Get_view:
  assumes "db_inv db d"
  shows "fst (DB_Get k db d) = found_result (visible (db_view db d k))"
proof -
  note inv = db_invD [OF assms]
  have mem: "MemTable_Get (memTable db) k = pairs_map (pairs (memTable db)) k"
    using inv(1) by (simp add: mt_invar_def MemTable_Get_pairs_map)
  have imm: "(case immTable db of None \<Rightarrow> None | Some imm \<Rightarrow> MemTable_Get imm k) =
      mem_view (immTable db) k"
    using inv(2) by (auto simp: mem_view_def mt_invar_def MemTable_Get_pairs_map split: option.splits)
  have "fst (get_loop d k (rev (sstables db)) 0) = tables_view d (sstables db) k"
    using sst.search_layered [of d "rev (sstables db)"] inv(3)
    by (simp add: get_loop_search tables_view_def list_all_iff)
  then show ?thesis
    by (cases "get_loop d k (rev (sstables db)) 0")
      (auto simp: DB_Get_def mem imm db_view_def found_result_def split: option.splits)
qed

lemma DB_Get_state:
  "db_view (snd (DB_Get k db d)) d = db_view db d" "db_inv (snd (DB_Get k db d)) d = db_inv db d"
  by (auto simp: DB_Get_def db_view_def db_inv_def split: option.splits prod.splits)

section \<open>Writes\<close>

text \<open>Only the files of the tables matter for the view and the invariant.\<close>

definition same_tables :: "disk \<Rightarrow> disk \<Rightarrow> bool" where
  "same_tables d d' \<longleftrightarrow> (\<forall>name. disk_file d' (SstDir, name) = disk_file d (SstDir, name))"

lemma same_tables_path: "same_tables d d' \<Longrightarrow> disk_file d' (sst_path fid) = disk_file d (sst_path fid)"
  by (simp add: same_tables_def sst_path_def)

lemma same_tables_trans: "same_tables d d' \<Longrightarrow> same_tables d' d'' \<Longrightarrow> same_tables d d''"
  by (simp add: same_tables_def)

lemma same_tables_refl [simp]: "same_tables d d"
  by (simp add: same_tables_def)

lemma same_tables_view:
  assumes "same_tables d d'"
  shows "tables_view d' metas = tables_view d metas" "db_view db d' = db_view db d"
    "db_inv db d' = db_inv db d"
proof -
  note path = same_tables_path [OF assms]
  show "tables_view d' metas = tables_view d metas" by (rule tables_view_cong) (rule path)
  show "db_view db d' = db_view db d"
    unfolding db_view_def by (subst tables_view_cong(1) [of _ d' d]) (simp_all add: path)
  show "db_inv db d' = db_inv db d"
    unfolding db_inv_def by (subst tables_view_cong(2) [of _ d' d]) (simp_all add: path)
qed

lemma wal_write_same_tables:
  "handle_ok (Some w) \<Longrightarrow> same_tables d (snd (wal_write w buf d))"
  unfolding same_tables_def
  by (intro allI wal_write_frame) (auto simp: handle_ok_def split: option.splits)

lemma checkAndFlush_cases:
  assumes "checkAndFlush db = (db', job)"
  obtains (stay) "db' = db" "job = None"
  | (switch) nw where "4096 \<le> mt_size (memTable db)" "immTable db = None" "nextwal db = Some nw"
      "db' = db\<lparr>immTable := Some (memTable db), memTable := NewMemTable, wal := Some nw,
        nextwal := None, walNotifyCh := True\<rparr>" "job = Some (memTable db, wal db)"
  using assms by (auto simp: checkAndFlush_def split: if_splits option.splits)

lemma NewMemTable_pairs [simp]: "pairs NewMemTable = []"
  by (simp add: NewMemTable_def)

lemma checkAndFlush_view:
  assumes "checkAndFlush db = (db', job)"
  shows "db_view db' d = db_view db d" and "db_inv db d \<Longrightarrow> db_inv db' d"
proof -
  from assms show "db_view db' d = db_view db d"
    by (cases rule: checkAndFlush_cases) (simp_all add: db_view_def fun_eq_iff mem_view_def split: option.splits)
  from assms show "db_inv db d \<Longrightarrow> db_inv db' d"
  proof (cases rule: checkAndFlush_cases)
    case (switch nw)
    then show "db_inv db d \<Longrightarrow> db_inv db' d"
      by (simp add: db_inv_def mt.invar_empty handle_ok_def)
  qed simp
qed

lemma MemTable_Put_view:
  assumes "mt_invar (memTable db)"
  shows "db_view (db\<lparr>memTable := MemTable_Put (memTable db) k v\<rparr>) d = (db_view db d)(k \<mapsto> v)"
  using assms by (auto simp: db_view_def fun_eq_iff MemTable_Put_pairs_map mt_invar_def)

lemma DB_write_view:
  assumes "db_inv db d" and "handle_ok (Some w)" and "wal_write w buf d = (e, d1)"
    and "checkAndFlush (db\<lparr>memTable := MemTable_Put (memTable db) k v\<rparr>) = (db', job)"
  shows "db_view db' d1 = (db_view db d)(k \<mapsto> v)" and "db_inv db' d1"
proof -
  let ?db = "db\<lparr>memTable := MemTable_Put (memTable db) k v\<rparr>"
  have same: "same_tables d d1" using wal_write_same_tables [OF assms(2)] assms(3) by (metis snd_conv)
  have mt: "mt_invar (memTable db)" using assms(1) by (rule db_invD)
  show "db_view db' d1 = (db_view db d)(k \<mapsto> v)"
    using same_tables_view(2) [OF same] checkAndFlush_view(1) [OF assms(4)] MemTable_Put_view [OF mt]
    by simp
  have "db_inv ?db d" using assms(1) mt_invar_Put [OF mt] by (simp add: db_inv_def)
  then show "db_inv db' d1"
    using same_tables_view(3) [OF same] checkAndFlush_view(2) [OF assms(4)] by simp
qed

lemma DB_Put_view:
  assumes "db_inv db d" and "DB_Put k v db d = ((err, job), db', d')"
  shows "db_inv db' d'"
    and "err = None \<Longrightarrow> db_view db' d' = (db_view db d)(k \<mapsto> Some v)"
    and "err \<noteq> None \<Longrightarrow> db' = db \<and> job = None \<and> db_view db' d' = db_view db d"
proof -
  have "db_inv db' d' \<and> (err = None \<longrightarrow> db_view db' d' = (db_view db d)(k \<mapsto> Some v)) \<and>
    (err \<noteq> None \<longrightarrow> db' = db \<and> job = None \<and> db_view db' d' = db_view db d)"
  proof (cases "wal db")
    case None
    with assms show ?thesis by (auto simp: DB_Put_def)
  next
    case (Some w)
    obtain e d1 where w: "wal_write w (put_record k v) d = (e, d1)" by (rule prod.exhaust)
    have h: "handle_ok (Some w)" using db_invD(6) [OF assms(1)] Some by simp
    have same: "same_tables d d1" using wal_write_same_tables [OF h] w by (metis snd_conv)
    show ?thesis
    proof (cases e)
      case None
      with assms(2) Some w DB_write_view [OF assms(1) h w, of k "Some v"] show ?thesis
        by (auto simp: DB_Put_def WAL_AppendPut_def split: prod.splits)
    next
      case (Some e')
      with assms \<open>wal db = Some w\<close> w same_tables_view(2,3) [OF same] show ?thesis
        by (auto simp: DB_Put_def WAL_AppendPut_def)
    qed
  qed
  then show "db_inv db' d'" "err = None \<Longrightarrow> db_view db' d' = (db_view db d)(k \<mapsto> Some v)"
    "err \<noteq> None \<Longrightarrow> db' = db \<and> job = None \<and> db_view db' d' = db_view db d" by auto
qed

lemma DB_Delete_view:
  assumes "db_inv db d" and "DB_Delete k db d = ((err, job), db', d')"
  shows "db_inv db' d'"
    and "err = None \<Longrightarrow> db_view db' d' = (db_view db d)(k \<mapsto> None)"
    and "err \<noteq> None \<Longrightarrow> db' = db \<and> job = None \<and> db_view db' d' = db_view db d"
proof -
  have "db_inv db' d' \<and> (err = None \<longrightarrow> db_view db' d' = (db_view db d)(k \<mapsto> None)) \<and>
    (err \<noteq> None \<longrightarrow> db' = db \<and> job = None \<and> db_view db' d' = db_view db d)"
  proof (cases "wal db")
    case None
    with assms show ?thesis by (auto simp: DB_Delete_def)
  next
    case (Some w)
    obtain e d1 where w: "wal_write w (delete_record k) d = (e, d1)" by (rule prod.exhaust)
    have h: "handle_ok (Some w)" using db_invD(6) [OF assms(1)] Some by simp
    have same: "same_tables d d1" using wal_write_same_tables [OF h] w by (metis snd_conv)
    show ?thesis
    proof (cases e)
      case None
      with assms(2) Some w DB_write_view [OF assms(1) h w, of k None] show ?thesis
        by (auto simp: DB_Delete_def WAL_AppendDelete_def split: prod.splits)
    next
      case (Some e')
      with assms \<open>wal db = Some w\<close> w same_tables_view(2,3) [OF same] show ?thesis
        by (auto simp: DB_Delete_def WAL_AppendDelete_def)
    qed
  qed
  then show "db_inv db' d'" "err = None \<Longrightarrow> db_view db' d' = (db_view db d)(k \<mapsto> None)"
    "err \<noteq> None \<Longrightarrow> db' = db \<and> job = None \<and> db_view db' d' = db_view db d" by auto
qed

section \<open>Flush\<close>

lemma persistManifest_frame: "q \<noteq> manifest_path \<Longrightarrow> disk_file (snd (persistManifest snap d)) q = disk_file d q"
  by (simp add: persistManifest_def case_prod_beta calls_frame split: option.splits)

lemma persistManifest_same_tables: "same_tables d (snd (persistManifest snap d))"
  by (simp add: same_tables_def persistManifest_frame manifest_path_def)

lemma WAL_Delete_frame: "w \<noteq> Some q \<Longrightarrow> disk_file (snd (snd (WAL_Delete w d))) q = disk_file d q"
proof (cases w)
  case (Some p)
  assume "w \<noteq> Some q"
  with Some have "q \<noteq> p" by auto
  with Some show ?thesis
    by (simp add: WAL_Delete_def case_prod_beta calls_frame split: option.splits)
qed (simp add: WAL_Delete_def)

lemma delete_old_wal_same_tables: "handle_ok w \<Longrightarrow> same_tables d (delete_old_wal w d)"
  unfolding same_tables_def
  by (auto simp: delete_old_wal_def handle_ok_def case_prod_beta WAL_Delete_frame
      split: option.splits intro!: WAL_Delete_frame)

text \<open>Replacing the table being flushed by its file.\<close>

lemma install_flushed_view:
  assumes "db_inv db d" and "immTable db = Some imm" and "storable (pairs imm)"
    and "disk_file d (sst_path fid) = Some (sst_bytes (pairs imm))"
    and "fid \<notin> sm_FileID ` set (sstables db)" and "fid < nextFileID db"
    and "install_flushed (sst_meta fid (pairs imm)) db = (snap, db')"
  shows "db_view db' d = db_view db d" and "db_inv db' d"
proof -
  have db': "db' = db\<lparr>sstables := sstables db @ [sst_meta fid (pairs imm)], immTable := None\<rparr>"
    using assms(7) by (auto simp: install_flushed_def Let_def)
  have "sm_FileID (sst_meta fid (pairs imm)) = fid" by (simp add: sst_meta_def)
  then show "db_inv db' d"
    using assms(1,5,6) table_written [OF assms(3,4)] by (simp add: db' db_inv_def)
  show "db_view db' d = db_view db d"
    using assms(2) table_written [OF assms(3,4)]
    by (simp add: db' db_view_def mem_view_def tables_view_snoc fun_eq_iff split: option.splits)
qed

lemma flush_meta_sst_meta:
  "flush_meta fid imm (of_nat (length (sst_bytes (pairs imm)))) (sst_index (pairs imm)) =
   sst_meta fid (pairs imm)"
  by (simp add: flush_meta_def sst_meta_def)

lemma reserve_view:
  assumes "db_inv db d" and "unat (nextFileID db) + 1 < 2 ^ 64" and "reserveNextFileID db = (fid, db')"
  shows "db_inv db' d" "db_view db' d = db_view db d" "fid < nextFileID db'"
    "fid \<notin> sm_FileID ` set (sstables db')"
proof -
  have db': "db' = db\<lparr>nextFileID := nextFileID db + 1\<rparr>" "fid = nextFileID db"
    using assms(3) by (auto simp: reserveNextFileID_def)
  have lt: "fid < nextFileID db + 1"
    using assms(2) unfolding db'(2) word_less_nat_alt by (simp add: unat_word_ariths)
  then show "fid < nextFileID db'" by (simp add: db')
  show "db_inv db' d"
    using assms(1) lt by (auto simp: db_inv_def db' list_all_iff intro: less_trans)
  show "db_view db' d = db_view db d" by (simp add: db_view_def db'(1))
  show "fid \<notin> sm_FileID ` set (sstables db')"
    using db_invD(5) [OF assms(1)] by (fastforce simp: db')
qed

lemma installFlushedTable_view:
  assumes "db_inv db d" and "immTable db = Some imm" and "storable (pairs imm)"
    and "disk_file d (sst_path fid) = Some (sst_bytes (pairs imm))"
    and "fid \<notin> sm_FileID ` set (sstables db)" and "fid < nextFileID db" and "handle_ok oldWal"
    and "installFlushedTable (sst_meta fid (pairs imm)) oldWal db d = (db', d')"
  shows "db_view db' d' = db_view db d" and "db_inv db' d'"
proof -
  obtain snap where snap: "install_flushed (sst_meta fid (pairs imm)) db = (snap, db')"
    and d': "d' = delete_old_wal oldWal (snd (persistManifest snap d))"
    using assms(8) by (auto simp: installFlushedTable_def split: prod.splits)
  have same: "same_tables d d'"
    unfolding d'
    by (rule same_tables_trans [OF persistManifest_same_tables delete_old_wal_same_tables [OF assms(7)]])
  show "db_view db' d' = db_view db d" "db_inv db' d'"
    using install_flushed_view [OF assms(1-6) snap] same_tables_view(2,3) [OF same] by simp_all
qed

lemma flush_view:
  assumes "db_inv db d" and "immTable db = Some imm" and "storable (pairs imm)"
    and "handle_ok oldWal" and "unat (nextFileID db) + 1 < 2 ^ 64"
    and "flush (Some imm) oldWal db d = (db', d')"
  shows "db_view db' d' = db_view db d" and "db_inv db' d'"
proof -
  obtain fid db1 where r: "reserveNextFileID db = (fid, db1)" by (rule prod.exhaust)
  note res = reserve_view [OF assms(1,5) r]
  have db1: "immTable db1 = Some imm" "fid = nextFileID db" "sstables db1 = sstables db"
    using r assms(2) by (auto simp: reserveNextFileID_def)
  obtain sz index err d1 where w: "writeSSTable (sst_path fid) (pairs imm) d = ((sz, index, err), d1)"
    by (metis prod.exhaust)
  have same: "disk_file d1 (sst_path (sm_FileID m)) = disk_file d (sst_path (sm_FileID m))"
    if "m \<in> set (sstables db1)" for m
  proof -
    have "sm_FileID m \<noteq> fid" using that res(4) by blast
    then show ?thesis using writeSSTable_frame [of "sst_path (sm_FileID m)" "sst_path fid" "pairs imm" d] w by simp
  qed
  have inv1: "db_inv db1 d1" using res(1) tables_view_cong(2) [OF same] by (simp add: db_inv_def)
  have view1: "db_view db1 d1 = db_view db d"
    using res(2) unfolding db_view_def by (simp add: tables_view_cong(1) [OF same])
  have ne: "pairs imm \<noteq> []" using assms(3) by (simp add: storable_def)
  have "db_view db' d' = db_view db d \<and> db_inv db' d'"
  proof (cases err)
    case None
    with writeSSTable_None [OF w [unfolded None]] w r assms(6) ne
    have "installFlushedTable (sst_meta fid (pairs imm)) oldWal db1 d1 = (db', d')"
      and content: "disk_file d1 (sst_path fid) = Some (sst_bytes (pairs imm))"
      by (simp_all add: flush_def flush_meta_sst_meta)
    from installFlushedTable_view [OF inv1 db1(1) assms(3) content res(4,3) assms(4) this(1)]
    show ?thesis using view1 by simp
  next
    case (Some e)
    with assms(6) w r ne inv1 view1 show ?thesis by (simp add: flush_def)
  qed
  then show "db_view db' d' = db_view db d" and "db_inv db' d'" by auto
qed

section \<open>Replaying a log into a memory table\<close>

lemma walop_do_put: "walop_do onPut onDelete x t = MemTable_Put t (fst (walop_write x)) (snd (walop_write x))"
  by (cases x) (simp_all add: onPut_def onDelete_def)

lemma fold_walop_do: "fold (walop_do onPut onDelete) ops t = mt.put_all (map walop_write ops) t"
  by (induction ops arbitrary: t) (simp_all add: walop_do_put)

lemma replay_complete:
  "\<forall>x \<in> set ops. walop_ok x \<Longrightarrow>
   replay_loop onPut onDelete (wal_bytes ops) t = (mt.put_all (map walop_write ops) t, None)"
  using replay_wal_bytes [of ops onPut onDelete "[]" t] by (simp add: fold_walop_do)

end
