(* ===== verification/Compaction.thy ===== *)
theory Compaction
  imports DB_View
begin

text \<open>
  What \<open>doCompaction\<close> does to the view. The picked tables are the oldest ones, and the
  merged table is installed as the newest one: \<open>doCompaction_tables\<close> states the result exactly.
  The view is kept when every table was picked and no value is empty; otherwise an old version of a
  key comes back in front of the newer tables, and an empty value turns into a tombstone.
\<close>

definition compaction_output :: "DB \<Rightarrow> disk \<Rightarrow> KVPair list" where
  "compaction_output db d =
     (case open_iterators (pickCompactionFiles db) d of
        Inl e \<Rightarrow> [] | Inr its \<Rightarrow> b_pairs (doMerge (map Some its)))"

text \<open>Tables a compaction can merge: no empty key, and the result fits in a file.\<close>

definition compactable :: "DB \<Rightarrow> disk \<Rightarrow> bool" where
  "compactable db d \<longleftrightarrow>
     list_all (\<lambda>m. [] \<notin> Key ` set (table_pairs d m)) (pickCompactionFiles db) \<and>
     length (pickCompactionFiles db) < 2 ^ 64 \<and>
     length (sst_bytes (compaction_output db d)) < 2 ^ 63 \<and>
     unat (nextFileID db) + 1 < 2 ^ 64"

lemma open_iterators_ok:
  "list_all (table_ok d) ms \<Longrightarrow>
   \<exists>its. open_iterators ms d = Inr its \<and> map iter_pairs its = map (table_pairs d) ms"
proof (induction ms)
  case (Cons m ms)
  then obtain its where its: "open_iterators ms d = Inr its" "map iter_pairs its = map (table_pairs d) ms"
    by auto
  from Cons.prems obtain ps where ps: "storable ps" "m = sst_meta (sm_FileID m) ps"
    "table_pairs d m = ps" "disk_file d (sst_path (sm_FileID m)) = Some (sst_bytes ps)"
    by (auto elim: table_ok_cases)
  obtain it where "NewSSTableIterator (Some m) d = Inr it" "iter_pairs it = ps"
    using NewSSTableIterator_sst_bytes [OF ps(1,4)] ps(2) by auto
  with its ps(3) show ?case by auto
qed simp

lemma layered_SomeD: "layered ms k = Some v \<Longrightarrow> \<exists>m \<in> set ms. m k = Some v"
  by (induction ms) (auto split: option.splits)

lemma layered_NoneD: "layered ms k = None \<Longrightarrow> m \<in> set ms \<Longrightarrow> m k = None"
  by (induction ms) (auto split: option.splits)

lemma tables_view_append:
  "tables_view d (ms @ ns) k =
     (case tables_view d ns k of None \<Rightarrow> tables_view d ms k | Some v \<Rightarrow> Some v)"
  by (simp add: tables_view_def layered_append split: option.splits)

lemma tables_view_Some_pair:
  assumes "tables_view d ms k = Some v"
  obtains m p where "m \<in> set ms" "p \<in> set (table_pairs d m)" "Key p = k" "Value p = v"
  using layered_SomeD [OF assms [unfolded tables_view_def]] by (auto dest!: pairs_map_SomeD)

lemma table_ok_storable: "table_ok d m \<Longrightarrow> storable (table_pairs d m)"
  by (auto simp: table_ok_def Let_def)

lemma pair_ok_clone: "pair_ok p \<Longrightarrow> pair_ok (p\<lparr>Value := clone_append (Value p)\<rparr>)"
  by (auto simp: pair_ok_def clone_append_def split: option.splits)

text \<open>The merged table holds the newest version of every key of the picked tables.\<close>

lemma merged_tables:
  assumes "list_all (table_ok d) ms" and "length ms < 2 ^ 64"
    and "list_all (\<lambda>m. [] \<notin> Key ` set (table_pairs d m)) ms"
    and "open_iterators ms d = Inr its"
  defines "out \<equiv> b_pairs (doMerge (map Some its))"
  shows "sorted_pairs out" and "pairs_map out k = map_option clone_append (tables_view d ms k)"
    and "list_all pair_ok out" and "ms \<noteq> [] \<Longrightarrow> out \<noteq> []"
proof -
  have its: "map iter_pairs its = map (table_pairs d) ms" using open_iterators_ok [OF assms(1)] assms(4) by auto
  then have len: "length its < 2 ^ 64" using assms(2) by (metis length_map)
  have img: "iter_pairs ` set its = table_pairs d ` set ms" using arg_cong [OF its, of set] by simp
  have ok: "\<forall>it \<in> set its. sorted_pairs (iter_pairs it) \<and> [] \<notin> Key ` set (iter_pairs it)"
  proof
    fix it assume "it \<in> set its"
    with img obtain m where "m \<in> set ms" "iter_pairs it = table_pairs d m" by blast
    with assms(1,3) table_ok_storable [of d m] show
      "sorted_pairs (iter_pairs it) \<and> [] \<notin> Key ` set (iter_pairs it)"
      by (simp add: list_all_iff storable_def)
  qed
  have "map (\<lambda>it. pairs_map (iter_pairs it)) its = map pairs_map (map iter_pairs its)" by simp
  then have stack: "rev (map (\<lambda>it. pairs_map (iter_pairs it)) its) =
      map (\<lambda>m. pairs_map (table_pairs d m)) (rev ms)"
    by (simp add: its rev_map)
  show "sorted_pairs out" unfolding out_def by (rule doMerge_spec(1) [OF len ok])
  have view: "pairs_map out k = map_option clone_append (tables_view d ms k)" for k
    unfolding out_def doMerge_spec(2) [OF len ok] stack tables_view_def ..
  then show "pairs_map out k = map_option clone_append (tables_view d ms k)" .
  show "list_all pair_ok out"
    unfolding list_all_iff
  proof
    fix p assume "p \<in> set out"
    then have "map_option clone_append (tables_view d ms (Key p)) = Some (Value p)"
      using pairs_map_mem [OF \<open>sorted_pairs out\<close>] view by metis
    then obtain v where v: "tables_view d ms (Key p) = Some v" "Value p = clone_append v" by auto
    from v(1) obtain m q where q: "m \<in> set ms" "q \<in> set (table_pairs d m)" "Key q = Key p" "Value q = v"
      by (rule tables_view_Some_pair)
    then have "pair_ok q"
      using assms(1) table_ok_storable [of d m] by (auto simp: list_all_iff storable_def)
    from pair_ok_clone [OF this] show "pair_ok p" using q(3,4) v(2) by (simp add: pair_ok_def)
  qed
  assume "ms \<noteq> []"
  then obtain m where m: "m \<in> set ms" by (cases ms) auto
  then obtain p where p: "p \<in> set (table_pairs d m)"
    using assms(1) table_ok_storable [of d m] by (cases "table_pairs d m") (auto simp: list_all_iff storable_def)
  have "tables_view d ms (Key p) \<noteq> None"
    using layered_NoneD [of "map (\<lambda>m. pairs_map (table_pairs d m)) (rev ms)" "Key p"] m p
    by (force simp: tables_view_def pairs_map_None)
  with view [of "Key p"] show "out \<noteq> []" by auto
qed

section \<open>Installing the merged table\<close>

lemma filter_drop:
  assumes "distinct (map f xs)"
  shows "filter (\<lambda>x. f x \<notin> set (map f (take n xs))) xs = drop n xs"
proof -
  have split: "xs = take n xs @ drop n xs" by simp
  have "distinct (map f (take n xs) @ map f (drop n xs))"
    using assms by (metis append_take_drop_id map_append)
  then have "f x \<notin> set (map f (take n xs))" if "x \<in> set (drop n xs)" for x
    using that by auto
  then have "filter (\<lambda>x. f x \<notin> set (map f (take n xs))) (drop n xs) = drop n xs"
    by (simp add: filter_id_conv)
  moreover have "filter (\<lambda>x. f x \<notin> set (map f (take n xs))) (take n xs) = []"
    by (auto simp: filter_empty_conv)
  ultimately show ?thesis by (metis (no_types, lifting) append_Nil append_take_drop_id filter_append)
qed

lemma removeObsoleteFiles_frame:
  "q \<notin> (\<lambda>m. sst_path (sm_FileID m)) ` set olds \<Longrightarrow> disk_file (removeObsoleteFiles olds d) q = disk_file d q"
  unfolding removeObsoleteFiles_def
  by (induction olds arbitrary: d) (auto simp: calls_frame)

text \<open>The engine after the installation: the oldest tables are gone, the merged one is the newest.\<close>

lemma install_compacted_db:
  assumes "distinct (map sm_FileID (sstables db))" and "olds = take n (sstables db)"
  shows "install_compacted (Some m) olds db =
    (drop n (sstables db) @ [m], db\<lparr>sstables := drop n (sstables db) @ [m]\<rparr>)"
  using filter_drop [OF assms(1), of n] assms(2) by (simp add: install_compacted_def Let_def)

lemma pickCompactionFiles_take:
  "pickCompactionFiles db \<noteq> [] \<Longrightarrow> pickCompactionFiles db = take (compactionThreshold db) (sstables db)"
  by (simp add: pickCompactionFiles_def split: if_splits)

lemma picked_ok:
  assumes "db_inv db d"
  shows "list_all (table_ok d) (pickCompactionFiles db)"
proof -
  have "m \<in> set (pickCompactionFiles db) \<Longrightarrow> m \<in> set (sstables db)" for m
    by (auto simp: pickCompactionFiles_def dest: in_set_takeD split: if_splits)
  then show ?thesis using db_invD(3) [OF assms] by (simp add: list_all_iff)
qed

text \<open>The successful run, as an equation.\<close>

lemma doCompaction_run:
  assumes "db_inv db d" and "compactable db d" and "pickCompactionFiles db \<noteq> []"
    and "doCompaction ns db d = (err, db', d')"
  defines "out \<equiv> compaction_output db d" and "fid \<equiv> nextFileID db"
    and "olds \<equiv> pickCompactionFiles db"
    and "news \<equiv> drop (compactionThreshold db) (sstables db) @ [sst_meta (nextFileID db) (compaction_output db d)]"
  shows "storable out"
    and "pairs_map out k = map_option clone_append (tables_view d olds k)"
    and "memTable db' = memTable db" "immTable db' = immTable db" "wal db' = wal db" "nextwal db' = nextwal db"
    and "err \<noteq> None \<Longrightarrow> sstables db' = sstables db \<and> nextFileID db' = fid + 1 \<and>
      d' = snd (writeSSTable (sst_path fid) out d)"
    and "err = None \<Longrightarrow> sstables db' = news \<and> nextFileID db' = fid + 1 \<and>
      (\<exists>d1. disk_file d1 (sst_path fid) = Some (sst_bytes out) \<and>
        (\<forall>q. q \<noteq> sst_path fid \<longrightarrow> disk_file d1 q = disk_file d q) \<and>
        d' = removeObsoleteFiles olds (snd (persistManifest news d1)))"
proof -
  have olds: "olds = take (compactionThreshold db) (sstables db)" "olds \<noteq> []"
    using pickCompactionFiles_take [OF assms(3)] assms(3) by (simp_all add: olds_def)
  note inv = db_invD [OF assms(1)]
  have ok: "list_all (table_ok d) olds" unfolding olds_def by (rule picked_ok [OF assms(1)])
  then obtain its where its: "open_iterators olds d = Inr its" using open_iterators_ok by blast
  have out: "out = b_pairs (doMerge (map Some its))"
    using its by (simp add: out_def compaction_output_def olds_def)
  have c: "length olds < 2 ^ 64" "list_all (\<lambda>m. [] \<notin> Key ` set (table_pairs d m)) olds"
    "length (sst_bytes out) < 2 ^ 63"
    using assms(2) by (simp_all add: compactable_def olds_def out_def)
  note merged = merged_tables [OF ok c(1,2) its, folded out]
  show st: "storable out" using merged(1,3,4) olds(2) c(3) by (simp add: storable_def)
  show "pairs_map out k = map_option clone_append (tables_view d olds k)" by (rule merged(2))
  have ne: "out \<noteq> []" using merged(4) olds(2) by simp
  obtain n index e d1 where w: "writeSSTable (sst_path fid) out d = ((n, index, e), d1)"
    by (metis prod.exhaust)
  let ?rec = "\<lambda>outs f db. db\<lparr>metrics := recordCompaction (length olds) outs ns f (metrics db)\<rparr>"
  let ?db1 = "db\<lparr>nextFileID := fid + 1\<rparr>"
  have run: "doCompaction ns db d =
      (case e of Some e' \<Rightarrow> (Some e', ?rec 0 True ?db1, d1)
       | None \<Rightarrow> (None, ?rec 1 False (?db1\<lparr>sstables := news\<rparr>),
                 removeObsoleteFiles olds (snd (persistManifest news d1))))"
  proof (cases e)
    case None
    have "\<lparr>sm_FileID = fid, sm_MinKey = Key (hd out), sm_MaxKey = Key (last out), sm_Size = n,
        sm_Index = index\<rparr> = sst_meta fid out"
      using writeSSTable_None [OF w [unfolded None]] by (simp add: sst_meta_def)
    moreover have "install_compacted (Some (sst_meta fid out)) olds ?db1 = (news, ?db1\<lparr>sstables := news\<rparr>)"
      using install_compacted_db [of ?db1 olds "compactionThreshold db"] inv(4) olds(1)
      by (simp add: news_def fid_def out_def)
    ultimately show ?thesis
      using None w ne olds(2) its out [symmetric]
      by (simp add: doCompaction_def Let_def olds_def [symmetric] Builder_Len_def reserveNextFileID_def
          fid_def [symmetric] installCompactedTable_def case_prod_beta)
  next
    case (Some e')
    then show ?thesis
      using w ne olds(2) its out [symmetric]
      by (simp add: doCompaction_def Let_def olds_def [symmetric] Builder_Len_def reserveNextFileID_def
          fid_def [symmetric])
  qed
  show "memTable db' = memTable db" "immTable db' = immTable db" "wal db' = wal db" "nextwal db' = nextwal db"
    using run assms(4) by (auto split: option.splits)
  show "sstables db' = sstables db \<and> nextFileID db' = fid + 1 \<and> d' = snd (writeSSTable (sst_path fid) out d)"
    if "err \<noteq> None" using run assms(4) that w by (auto split: option.splits)
  assume "err = None"
  with run assms(4) have e: "e = None" "sstables db' = news" "nextFileID db' = fid + 1"
    "d' = removeObsoleteFiles olds (snd (persistManifest news d1))"
    by (auto split: option.splits)
  have "disk_file d1 (sst_path fid) = Some (sst_bytes out)"
    using writeSSTable_None [OF w [unfolded e(1)]] by simp
  moreover have "disk_file d1 q = disk_file d q" if "q \<noteq> sst_path fid" for q
    using writeSSTable_frame [OF that, of out d] w by simp
  ultimately show "sstables db' = news \<and> nextFileID db' = fid + 1 \<and>
      (\<exists>d1. disk_file d1 (sst_path fid) = Some (sst_bytes out) \<and>
        (\<forall>q. q \<noteq> sst_path fid \<longrightarrow> disk_file d1 q = disk_file d q) \<and>
        d' = removeObsoleteFiles olds (snd (persistManifest news d1)))"
    using e by blast
qed

lemma nextFileID_fresh:
  assumes "db_inv db d" and "m \<in> set (sstables db)"
  shows "sm_FileID m \<noteq> nextFileID db"
  using db_invD(5) [OF assms] by auto

lemma doCompaction_tables:
  assumes "db_inv db d" and "compactable db d" and "pickCompactionFiles db \<noteq> []"
    and "doCompaction ns db d = (err, db', d')"
  shows "db_inv db' d'"
    and "err \<noteq> None \<Longrightarrow> db_view db' d' = db_view db d"
    and "err = None \<Longrightarrow> tables_view d' (sstables db') k =
      (case map_option clone_append (tables_view d (pickCompactionFiles db) k) of
         None \<Rightarrow> tables_view d (drop (compactionThreshold db) (sstables db)) k
       | Some v \<Rightarrow> Some v)"
proof -
  let ?out = "compaction_output db d" and ?fid = "nextFileID db" and ?olds = "pickCompactionFiles db"
  let ?rest = "drop (compactionThreshold db) (sstables db)"
  note run = doCompaction_run [OF assms]
  note inv = db_invD [OF assms(1)]
  have fid: "?fid < ?fid + 1"
    using assms(2) unfolding compactable_def word_less_nat_alt by (simp add: unat_word_ariths)
  have ids: "list_all (\<lambda>m. sm_FileID m < ?fid + 1) (sstables db)"
    using inv(5) fid by (auto simp: list_all_iff intro: less_trans)
  have fail: "db_view db' d' = db_view db d \<and> db_inv db' d'" if "err \<noteq> None"
  proof -
    have "disk_file d' (sst_path (sm_FileID m)) = disk_file d (sst_path (sm_FileID m))"
      if "m \<in> set (sstables db)" for m
      using run(7) [OF \<open>err \<noteq> None\<close>] nextFileID_fresh [OF assms(1) that] by (simp add: writeSSTable_frame)
    note cong = tables_view_cong [OF this]
    show ?thesis
      using assms(1) run(3-6) run(7) [OF that] ids cong
      by (simp add: db_view_def db_inv_def)
  qed
  then show "err \<noteq> None \<Longrightarrow> db_view db' d' = db_view db d" by blast
  have succ: "db_inv db' d' \<and> tables_view d' (sstables db') k =
      (case map_option clone_append (tables_view d ?olds k) of
         None \<Rightarrow> tables_view d ?rest k | Some v \<Rightarrow> Some v)" if none: "err = None" for k
  proof -
    obtain d1 where d1: "disk_file d1 (sst_path ?fid) = Some (sst_bytes ?out)"
      "\<And>q. q \<noteq> sst_path ?fid \<Longrightarrow> disk_file d1 q = disk_file d q"
      and d': "d' = removeObsoleteFiles ?olds (snd (persistManifest (sstables db') d1))"
      and ss: "sstables db' = ?rest @ [sst_meta ?fid ?out]" "nextFileID db' = ?fid + 1"
      using run(8) [OF none] by metis
    have "distinct (map sm_FileID (?olds @ ?rest))"
      using inv(4) pickCompactionFiles_take [OF assms(3)] by simp
    then have disj: "sm_FileID m \<notin> sm_FileID ` set ?olds" if "m \<in> set ?rest" for m
      using that by auto
    have fresh: "?fid \<notin> sm_FileID ` set ?olds"
      using nextFileID_fresh [OF assms(1)] pickCompactionFiles_take [OF assms(3)]
      by (metis imageE in_set_takeD)
    have fresh': "?fid \<notin> sm_FileID ` set ?rest"
      using nextFileID_fresh [OF assms(1)] by (metis imageE in_set_dropD)
    have kept: "disk_file d' (sst_path i) = disk_file d1 (sst_path i)" if "i \<notin> sm_FileID ` set ?olds" for i
      unfolding d' using that by (subst removeObsoleteFiles_frame) (auto simp: persistManifest_frame)
    have new: "table_pairs d' (sst_meta ?fid ?out) = ?out" "table_ok d' (sst_meta ?fid ?out)"
      using table_written [OF run(1)] kept [OF fresh] d1(1) by simp_all
    have old: "disk_file d' (sst_path (sm_FileID m)) = disk_file d (sst_path (sm_FileID m))"
      if "m \<in> set ?rest" for m
      using kept [OF disj [OF that]] d1(2) fresh' that by (metis image_eqI sst_path_inject)
    note cong = tables_view_cong [OF old]
    have rest: "tables_view d' ?rest = tables_view d ?rest" by (rule cong(1))
    have "list_all (table_ok d) ?rest" "list_all (\<lambda>m. sm_FileID m < ?fid + 1) ?rest"
      using inv(3) ids by (auto simp: list_all_iff dest: in_set_dropD)
    moreover have "sm_FileID (sst_meta ?fid ?out) = ?fid" by (simp add: sst_meta_def)
    moreover have "distinct (map sm_FileID ?rest)" using inv(4) by (simp flip: drop_map)
    ultimately have "db_inv db' d'"
      using assms(1) run(3-6) ss cong(2) new(2) fid fresh' by (simp add: db_inv_def)
    moreover have "tables_view d' (sstables db') k =
        (case map_option clone_append (tables_view d ?olds k) of
           None \<Rightarrow> tables_view d ?rest k | Some v \<Rightarrow> Some v)"
      unfolding ss(1) tables_view_snoc new(1) run(2) rest ..
    ultimately show ?thesis ..
  qed
  then show "err = None \<Longrightarrow> tables_view d' (sstables db') k =
      (case map_option clone_append (tables_view d ?olds k) of
         None \<Rightarrow> tables_view d ?rest k | Some v \<Rightarrow> Some v)" by blast
  show "db_inv db' d'" using fail succ by (cases "err = None") auto
qed

lemma clone_append_id: "v \<noteq> Some [] \<Longrightarrow> clone_append v = v"
  by (auto simp: clone_append_def split: option.splits)

text \<open>Compacting all tables keeps the view.\<close>

lemma doCompaction_all:
  assumes "db_inv db d" and "compactable db d" and "length (sstables db) = compactionThreshold db"
    and "list_all (\<lambda>m. Some [] \<notin> Value ` set (table_pairs d m)) (sstables db)"
    and "doCompaction ns db d = (err, db', d')"
  shows "db_view db' d' = db_view db d"
proof (cases "sstables db = []")
  case True
  with assms(3,5) show ?thesis by (simp add: doCompaction_def pickCompactionFiles_def)
next
  case False
  have pick: "pickCompactionFiles db = sstables db" using assms(3) by (simp add: pickCompactionFiles_def)
  with False have ne: "pickCompactionFiles db \<noteq> []" by simp
  note run = doCompaction_run [OF assms(1,2) ne assms(5)]
  note tables = doCompaction_tables [OF assms(1,2) ne assms(5)]
  show ?thesis
  proof (cases err)
    case None
    have "map_option clone_append (tables_view d (sstables db) k) = tables_view d (sstables db) k" for k
    proof (cases "tables_view d (sstables db) k")
      case (Some v)
      then obtain m p where "m \<in> set (sstables db)" "p \<in> set (table_pairs d m)" "Value p = v"
        by (rule tables_view_Some_pair)
      with assms(4) have "v \<noteq> Some []" by (auto simp: list_all_iff image_iff eq_commute [of "Some []"])
      with Some show ?thesis by (simp add: clone_append_id)
    qed simp
    then have "tables_view d' (sstables db') = tables_view d (sstables db)"
      using tables(3) [OF None] by (auto simp: pick fun_eq_iff assms(3) tables_view_def split: option.splits)
    then show ?thesis using run(3,4) by (simp add: db_view_def)
  qed (use tables(2) in simp)
qed

text \<open>Compacting only the older tables brings their versions to the front.\<close>

lemma doCompaction_stale:
  assumes "db_inv db d" and "compactable db d" and "pickCompactionFiles db \<noteq> []"
    and "doCompaction ns db d = (None, db', d')"
    and "layered [pairs_map (pairs (memTable db)), mem_view (immTable db)] k = None"
    and "tables_view d (pickCompactionFiles db) k = Some v"
  shows "db_view db' d' k = Some (clone_append v)"
  using doCompaction_run(3,4) [OF assms(1-4)] doCompaction_tables(3) [OF assms(1-4) refl, of k] assms(5,6)
  by (auto simp: db_view_def split: option.splits)

end
