(* ===== verification/Stored.thy ===== *)
theory Stored
  imports Compaction
begin

text \<open>
  Engines over given tables: a disk that holds the files of a list of tables, and an engine that has
  just these tables installed. They satisfy the invariant of the engine, and their view is the stack of the
  tables, so that the theorems of the engine can be applied to concrete tables.
\<close>

definition stored_disk :: "(u64 \<times> KVPair list) list \<Rightarrow> disk" where
  "stored_disk ts = \<lparr>files = map (\<lambda>(i, ps). (sst_path i, sst_bytes ps)) ts, faults = []\<rparr>"

definition stored_db :: "(u64 \<times> KVPair list) list \<Rightarrow> DB" where
  "stored_db ts = (initial_DB \<lparr>EnableCompaction = True\<rparr>)
     \<lparr>sstables := map (\<lambda>(i, ps). sst_meta i ps) ts, nextFileID := 100, wal := Some (Some (wal_path 1))\<rparr>"

lemma stored_file:
  assumes "distinct (map fst ts)" and "(i, ps) \<in> set ts"
  shows "disk_file (stored_disk ts) (sst_path i) = Some (sst_bytes ps)"
proof -
  have "map fst (map (\<lambda>(i, ps). (sst_path i, sst_bytes ps)) ts) = map sst_path (map fst ts)"
    by (simp add: case_prod_beta)
  then have "distinct (map fst (map (\<lambda>(i, ps). (sst_path i, sst_bytes ps)) ts))"
    using assms(1) by (simp add: distinct_map inj_on_def)
  then show ?thesis using assms(2) by (force simp: disk_file_def stored_disk_def)
qed

lemma stored_table:
  assumes "distinct (map fst ts)" and "(i, ps) \<in> set ts" and "storable ps"
  shows "table_pairs (stored_disk ts) (sst_meta i ps) = ps" and "table_ok (stored_disk ts) (sst_meta i ps)"
  using table_written [OF assms(3) stored_file [OF assms(1,2)]] by simp_all

lemma stored_inv:
  assumes "distinct (map fst ts)" and "\<forall>(i, ps) \<in> set ts. i < 100 \<and> storable ps"
  shows "db_inv (stored_db ts) (stored_disk ts)"
proof -
  have ids: "map (sm_FileID \<circ> (\<lambda>(i, ps). sst_meta i ps)) ts = map fst ts"
    by (simp add: case_prod_beta sst_meta_def comp_def)
  have "list_all (table_ok (stored_disk ts)) (map (\<lambda>(i, ps). sst_meta i ps) ts)"
    using stored_table(2) [OF assms(1)] assms(2) by (fastforce simp: list_all_iff)
  moreover have "list_all (\<lambda>m. sm_FileID m < 100) (map (\<lambda>(i, ps). sst_meta i ps) ts)"
    using assms(2) by (auto simp: list_all_iff sst_meta_def)
  moreover have "distinct (map (sm_FileID \<circ> (\<lambda>(i, ps). sst_meta i ps)) ts)"
    unfolding ids by (rule assms(1))
  moreover have "handle_ok (Some (Some (wal_path 1)))" by (simp add: handle_ok_def wal_path_def)
  ultimately show ?thesis
    using mt.invar_empty by (simp add: db_inv_def stored_db_def initial_DB_def handle_ok_def)
qed

lemma stored_tables_view:
  assumes "distinct (map fst ts)" and "\<forall>(i, ps) \<in> set ts. storable ps" and "set us \<subseteq> set ts"
  shows "tables_view (stored_disk ts) (map (\<lambda>(i, ps). sst_meta i ps) us) =
    layered (rev (map (\<lambda>(i, ps). pairs_map ps) us))"
proof -
  have "map (\<lambda>m. pairs_map (table_pairs (stored_disk ts) m)) (map (\<lambda>(i, ps). sst_meta i ps) us) =
      map (\<lambda>(i, ps). pairs_map ps) us"
    using assms(2,3) stored_table(1) [OF assms(1)] by (fastforce simp: subset_iff)
  then show ?thesis unfolding tables_view_def rev_map [symmetric] by (rule arg_cong)
qed

end
