(* ===== verification/LSM_Properties.thy ===== *)
theory LSM_Properties
  imports Stored
begin

text \<open>
  The properties of the storage engine, component by component: the memory table, the write-ahead log,
  the sorted tables and their readers, the manifest, the merge, and the engine that puts
  them together. A theorem with hypotheses is followed by a witness that applies it to a concrete
  input.
\<close>

section \<open>Memory table\<close>

text \<open>A memory table that took any sequence of writes, puts and tombstones alike, returns for
  every key the last write of that key, and nothing for a key that was never written.\<close>

theorem memtable_last_write:
  "MemTable_Get (fold (\<lambda>(k, v) t. MemTable_Put t k v) ws NewMemTable) k = map_of (rev ws) k"
  using mt.get_put_all_empty [of ws k] by (simp add: mt.put_all_def)

text \<open>After any sequence of writes the pairs are strictly sorted by key and the recorded size is
  the total length of the keys and values held, which is what triggers the flush.\<close>

theorem memtable_sorted_and_sized:
  "mt_invar (fold (\<lambda>(k, v) t. MemTable_Put t k v) ws NewMemTable)"
  using mt.invar_put_all [OF mt.invar_empty] by (simp add: mt.put_all_def)

section \<open>Write-ahead log\<close>

text \<open>C31. A log file cut off at an arbitrary byte, as a crash leaves it, replays into a memory table
  that holds exactly a prefix of the logged operations, and all of them when nothing was cut.\<close>

theorem wal_torn_replay:
  assumes "\<forall>x \<in> set ops. walop_ok x" and "disk_file d p = Some (take n (wal_bytes ops))"
  shows "\<exists>us vs. ops = us @ vs \<and> (length (wal_bytes ops) \<le> n \<longrightarrow> vs = []) \<and>
    (\<forall>k. MemTable_Get (fst (WAL_Replay (Some p) onPut onDelete d NewMemTable)) k =
      map_of (rev (map walop_write us)) k)"
proof -
  let ?t = "fst (WAL_Replay (Some p) onPut onDelete d NewMemTable)"
  have "\<exists>us vs. ops = us @ vs \<and> (length (wal_bytes ops) \<le> n \<longrightarrow> vs = []) \<and>
      ?t = mt.put_all (map walop_write us) NewMemTable"
  proof (cases "length (wal_bytes ops) \<le> n")
    case True
    then have "?t = mt.put_all (map walop_write ops) NewMemTable"
      using assms by (simp add: WAL_Replay_def replay_complete)
    then show ?thesis by blast
  next
    case False
    have "?t = fst (replay_loop onPut onDelete (take n (wal_bytes ops)) NewMemTable)"
      by (simp add: WAL_Replay_def assms(2))
    then show ?thesis
      using False replay_prefix [OF assms(1), of onPut onDelete n NewMemTable] by (metis fold_walop_do)
  qed
  then show ?thesis using mt.get_put_all_empty by metis
qed

theorem wal_torn_replay_witness:
  "\<exists>us vs. [WalPut [1] [2], WalDelete [1]] = us @ vs \<and>
    (length (wal_bytes [WalPut [1] [2], WalDelete [1]]) \<le> 14 \<longrightarrow> vs = []) \<and>
    (\<forall>k. MemTable_Get (fst (WAL_Replay (Some (wal_path 1)) onPut onDelete
        \<lparr>files = [(wal_path 1, take 14 (wal_bytes [WalPut [1] [2], WalDelete [1]]))], faults = []\<rparr>
        NewMemTable)) k = map_of (rev (map walop_write us)) k)"
  by (rule wal_torn_replay) (simp_all add: disk_file_def)

text \<open>An append that returns without an error adds exactly its record to the log: replaying
  the file afterwards performs the operations logged before and then the new one, whatever faults
  other calls meet.\<close>

theorem wal_append_then_replay:
  assumes "\<forall>x \<in> set ops. walop_ok x" and "walop_ok (WalPut k v)"
    and "disk_file d p = Some (wal_bytes ops)" and "WAL_AppendPut (Some p) k v d = (None, d')"
  shows "WAL_Replay (Some p) onPut onDelete d' t =
    (MemTable_Put (fst (WAL_Replay (Some p) onPut onDelete d t)) k (Some v), None)"
proof -
  obtain d1 where "file_Write p (put_record k v) d = (None, d1)" "file_Sync p d1 = (None, d')"
    using assms(4) by (auto simp: WAL_AppendPut_def wal_write_def split: prod.splits option.splits)
  then have "disk_file d' p = Some (wal_bytes (ops @ [WalPut k v]))"
    using file_Write_None [of p "put_record k v" d d1 p] file_Sync_disk [of p d1] assms(3) by simp
  moreover have "\<forall>x \<in> set (ops @ [WalPut k v]). walop_ok x" using assms(1,2) by simp
  ultimately show ?thesis
    using replay_complete [of "ops @ [WalPut k v]" t] replay_complete [OF assms(1), of t] assms(3)
    by (simp add: WAL_Replay_def)
qed

theorem wal_append_then_replay_witness:
  "WAL_Replay (Some (wal_path 1)) onPut onDelete
     (snd (WAL_AppendPut (Some (wal_path 1)) [7] [8] \<lparr>files = [(wal_path 1, [])], faults = []\<rparr>)) NewMemTable =
   (MemTable_Put (fst (WAL_Replay (Some (wal_path 1)) onPut onDelete
      \<lparr>files = [(wal_path 1, [])], faults = []\<rparr> NewMemTable)) [7] (Some [8]), None)"
  by (rule wal_append_then_replay [of "[]" "[7]" "[8]"])
    (simp_all add: disk_file_def WAL_AppendPut_def wal_write_def)

section \<open>Sorted tables\<close>

text \<open>C30. When the writer returns without an error, a point lookup through the index it returned
  finds for every key what the written pairs hold for it, tombstones included, and nothing for other
  keys: block splitting, index search and record decoding are inverse to the encoding.\<close>

theorem sstable_write_then_read:
  assumes "storable ps" and "writeSSTable (sst_path fid) ps d = ((n, index, None), d')"
  shows "readValFromSSTable
    \<lparr>sm_FileID = fid, sm_MinKey = Key (hd ps), sm_MaxKey = Key (last ps), sm_Size = n, sm_Index = index\<rparr>
    d' k = pairs_map ps k"
proof -
  have w: "n = of_nat (length (sst_bytes ps))" "index = sst_index ps"
    "disk_file d' (sst_path fid) = Some (sst_bytes ps)"
    using writeSSTable_None [OF assms(2)] by simp_all
  show ?thesis
    using readValFromSSTable_sst_bytes [OF assms(1) w(3)] by (simp add: sst_meta_def w(1,2))
qed

lemma storable_small:
  "storable [\<lparr>Key = [a], Value = Some [b]\<rparr>]"
  by (simp add: storable_def sst_bytes_def index_bytes_def sst_index_def pair_ok_def encode_pair_def
      encode_index_entry_def)

theorem sstable_write_then_read_witness:
  "readValFromSSTable
    \<lparr>sm_FileID = 1, sm_MinKey = [5], sm_MaxKey = [5],
     sm_Size = of_nat (length (sst_bytes [\<lparr>Key = [5], Value = Some [6]\<rparr>])),
     sm_Index = sst_index [\<lparr>Key = [5], Value = Some [6]\<rparr>]\<rparr>
    (set_file (sst_path 1) (sst_bytes [\<lparr>Key = [5], Value = Some [6]\<rparr>]) \<lparr>files = [], faults = []\<rparr>) [5] =
   Some (Some [6])"
  using sstable_write_then_read [OF storable_small [of 5 6], of 1 "\<lparr>files = [], faults = []\<rparr>" _ _ _ "[5]"]
  by (simp add: writeSSTable_ok)

text \<open>The sequential iterator over a written table delivers exactly its pairs, in order, and
  stops before the index.\<close>

theorem sstable_write_then_iterate:
  assumes "storable ps" and "writeSSTable (sst_path fid) ps d = ((n, index, None), d')"
  shows "\<exists>it. NewSSTableIterator (Some
    \<lparr>sm_FileID = fid, sm_MinKey = Key (hd ps), sm_MaxKey = Key (last ps), sm_Size = n, sm_Index = index\<rparr>)
    d' = Inr it \<and> iter_pairs it = ps"
proof -
  have w: "n = of_nat (length (sst_bytes ps))" "index = sst_index ps"
    "disk_file d' (sst_path fid) = Some (sst_bytes ps)"
    using writeSSTable_None [OF assms(2)] by simp_all
  show ?thesis
    using NewSSTableIterator_sst_bytes [OF assms(1) w(3)] by (simp add: sst_meta_def w(1,2))
qed

theorem sstable_write_then_iterate_witness:
  "\<exists>it. NewSSTableIterator (Some
    \<lparr>sm_FileID = 1, sm_MinKey = [5], sm_MaxKey = [5],
     sm_Size = of_nat (length (sst_bytes [\<lparr>Key = [5], Value = Some [6]\<rparr>])),
     sm_Index = sst_index [\<lparr>Key = [5], Value = Some [6]\<rparr>]\<rparr>)
    (set_file (sst_path 1) (sst_bytes [\<lparr>Key = [5], Value = Some [6]\<rparr>]) \<lparr>files = [], faults = []\<rparr>) = Inr it \<and>
    iter_pairs it = [\<lparr>Key = [5], Value = Some [6]\<rparr>]"
  using sstable_write_then_iterate [OF storable_small [of 5 6], of 1 "\<lparr>files = [], faults = []\<rparr>"]
  by (simp add: writeSSTable_ok)

text \<open>A written file that is loaded at the next start gives the same meta data as the writer's caller
  built, key range, size and block index.\<close>

theorem sstable_write_then_load:
  assumes "storable ps" and "writeSSTable (sst_path fid) ps d = ((n, index, None), d')"
  shows "\<exists>content. disk_file d' (sst_path fid) = Some content \<and> load_sst fid name content =
    Inr (Some \<lparr>sm_FileID = fid, sm_MinKey = Key (hd ps), sm_MaxKey = Key (last ps), sm_Size = n,
               sm_Index = index\<rparr>)"
  using writeSSTable_None [OF assms(2)] load_sst_bytes [OF assms(1), of fid name]
  by (auto simp: sst_meta_def)

theorem sstable_write_then_load_witness:
  "\<exists>content. disk_file (set_file (sst_path 1) (sst_bytes [\<lparr>Key = [5], Value = Some [6]\<rparr>])
      \<lparr>files = [], faults = []\<rparr>) (sst_path 1) = Some content \<and>
    load_sst 1 ''000001.sst'' content =
      Inr (Some \<lparr>sm_FileID = 1, sm_MinKey = [5], sm_MaxKey = [5],
        sm_Size = of_nat (length (sst_bytes [\<lparr>Key = [5], Value = Some [6]\<rparr>])),
        sm_Index = sst_index [\<lparr>Key = [5], Value = Some [6]\<rparr>]\<rparr>)"
  using sstable_write_then_load [OF storable_small [of 5 6], of 1 "\<lparr>files = [], faults = []\<rparr>"]
  by (simp add: writeSSTable_ok)

section \<open>Manifest\<close>



section \<open>Merge\<close>


definition table_iter :: "KVPair list \<Rightarrow> SSTableIterator" where
  "table_iter ps = Iterator_Next
     \<lparr>it_key = [], it_value = None, it_valid = False, it_open = True, it_reader = enc ps\<rparr>"

lemma iter_pairs_table_iter: "list_all pair_ok ps \<Longrightarrow> iter_pairs (table_iter ps) = ps"
  unfolding table_iter_def by (rule iter_pairs_enc) simp_all


text \<open>A key whose newest version is the empty string is a tombstone after the merge: the
  clone \<^verbatim>\<open>append([]byte(nil), v...)\<close> of an empty slice is nil, so compaction deletes the key.\<close>

theorem merge_empty_value_deleted:
  assumes "length its < 2 ^ 64"
    and "\<forall>it \<in> set its. sorted_pairs (iter_pairs it) \<and> [] \<notin> Key ` set (iter_pairs it)"
    and "layered (rev (map (\<lambda>it. pairs_map (iter_pairs it)) its)) k = Some (Some [])"
  shows "pairs_map (b_pairs (doMerge (map Some its))) k = Some None"
  using doMerge_spec(2) [OF assms(1,2), of k] assms(3) by (simp add: clone_append_def)

theorem merge_empty_value_deleted_witness:
  "pairs_map (b_pairs (doMerge (map Some [table_iter [\<lparr>Key = [1], Value = Some []\<rparr>]]))) [1] = Some None"
  by (rule merge_empty_value_deleted) (simp_all add: iter_pairs_table_iter pair_ok_def)

lemma iter_single:
  assumes "iter_pairs it = [p]"
  shows "it_valid it" "it_key it = Key p" "it_value it = Value p" "\<not> it_valid (Iterator_Next it)"
proof -
  show v: "it_valid it" using assms by (metis list.distinct(1) stream_invalid)
  have "\<lparr>Key = it_key it, Value = it_value it\<rparr> # iter_pairs (Iterator_Next it) = [p]"
    using assms v by (simp add: iter_pairs.simps [of it])
  then have p: "p = \<lparr>Key = it_key it, Value = it_value it\<rparr>" "iter_pairs (Iterator_Next it) = []" by auto
  then show "it_key it = Key p" "it_value it = Value p" by simp_all
  show "\<not> it_valid (Iterator_Next it)"
    using p(2) iter_pairs.simps [of "Iterator_Next it"] by (auto split: if_splits)
qed

text \<open>For the empty key the merge keeps the oldest version instead of the newest: the test
  \<^verbatim>\<open>len(lastKey) == 0\<close> takes every copy as new, and the builder overwrites the version it holds.\<close>

lemma merge_empty_key_stale:
  assumes "iter_pairs older = [\<lparr>Key = [], Value = v1\<rparr>]" and "iter_pairs newer = [\<lparr>Key = [], Value = v2\<rparr>]"
  shows "b_pairs (doMerge [Some older, Some newer]) = [\<lparr>Key = [], Value = clone_append v1\<rparr>]"
  using iter_single [OF assms(1)] iter_single [OF assms(2)]
  by (simp add: doMerge_def merge_init_def merge_loop.simps heap_Push_def heap_Pop_def heap_up.simps
      heap_down.simps heap_Init_def Let_def swap_def Builder_Append_def NewSSTableBuilder_def
      mergeHeap_Less_iff numeral_2_eq_2)

section \<open>Engine\<close>

abbreviation empty_disk :: disk where
  "empty_disk \<equiv> \<lparr>files = [], faults = []\<rparr>"

text \<open>C7. A put that returns without an error is visible at once under its key, every other key
  reads as before, and the engine keeps its invariant, whether or not the put starts a flush.\<close>

theorem engine_put_then_get:
  assumes "db_inv db d" and "DB_Put k v db d = ((None, job), db', d')"
  shows "db_inv db' d' \<and>
    (\<forall>k'. fst (DB_Get k' db' d') = (if k' = k then (v, True) else fst (DB_Get k' db d)))"
  using DB_Put_view(1) [OF assms] DB_Put_view(2) [OF assms refl]
  by (simp add: DB_Get_view assms(1) found_result_def)

lemma stored_empty_inv: "db_inv (stored_db []) (stored_disk [])"
  by (rule stored_inv) simp_all

lemma stored_empty_disk: "stored_disk [] = empty_disk"
  by (simp add: stored_disk_def)

theorem engine_put_then_get_witness:
  "\<exists>db' d'. DB_Put [1] [2] (stored_db []) empty_disk = ((None, None), db', d') \<and> db_inv db' d' \<and>
     fst (DB_Get [1] db' d') = ([2], True) \<and>
     fst (DB_Get [3] db' d') = fst (DB_Get [3] (stored_db []) empty_disk)"
proof -
  have "mt_size (MemTable_Put NewMemTable [1] (Some [2])) = 2"
    by (simp add: MemTable_Put_def NewMemTable_def Let_def mt_search_def sort_Search_def search_loop.simps
        slice_len_def)
  then have "DB_Put [1] [2] (stored_db []) empty_disk = ((None, None),
      (stored_db [])\<lparr>memTable := MemTable_Put NewMemTable [1] (Some [2])\<rparr>, empty_disk)"
    by (simp add: DB_Put_def stored_db_def initial_DB_def WAL_AppendPut_def wal_write_def append_file_def
        disk_file_def checkAndFlush_def)
  from engine_put_then_get [OF stored_empty_inv [unfolded stored_empty_disk] this] show ?thesis
    using \<open>DB_Put [1] [2] (stored_db []) empty_disk = _\<close> by simp
qed

text \<open>C27. A delete that returns without an error hides its key at once, also when older tables hold a value
  for it, and every other key reads as before.\<close>

theorem engine_delete_then_get:
  assumes "db_inv db d" and "DB_Delete k db d = ((None, job), db', d')"
  shows "db_inv db' d' \<and>
    (\<forall>k'. fst (DB_Get k' db' d') = (if k' = k then ([], False) else fst (DB_Get k' db d)))"
  using DB_Delete_view(1) [OF assms] DB_Delete_view(2) [OF assms refl]
  by (simp add: DB_Get_view assms(1) found_result_def)

lemma stored_one_inv: "db_inv (stored_db [(1, [\<lparr>Key = [1], Value = Some [9]\<rparr>])])
    (stored_disk [(1, [\<lparr>Key = [1], Value = Some [9]\<rparr>])])"
  by (rule stored_inv) (simp_all add: storable_small)

theorem engine_delete_then_get_witness:
  "\<exists>db' d'. DB_Delete [1] (stored_db [(1, [\<lparr>Key = [1], Value = Some [9]\<rparr>])])
      (stored_disk [(1, [\<lparr>Key = [1], Value = Some [9]\<rparr>])]) = ((None, None), db', d') \<and>
    db_inv db' d' \<and> fst (DB_Get [1] db' d') = ([], False)"
proof -
  let ?ts = "[(1, [\<lparr>Key = [1], Value = Some [9]\<rparr>])]"
  have "mt_size (MemTable_Put NewMemTable [1] None) = 1"
    by (simp add: MemTable_Put_def NewMemTable_def Let_def mt_search_def sort_Search_def search_loop.simps
        slice_len_def)
  then have run: "DB_Delete [1] (stored_db ?ts) (stored_disk ?ts) = ((None, None),
      (stored_db ?ts)\<lparr>memTable := MemTable_Put NewMemTable [1] None\<rparr>, stored_disk ?ts)"
    by (simp add: DB_Delete_def stored_db_def initial_DB_def WAL_AppendDelete_def wal_write_def append_file_def
        disk_file_def checkAndFlush_def stored_disk_def)
  from engine_delete_then_get [OF stored_one_inv run] run show ?thesis by simp
qed

text \<open>A put whose log append fails is reported to the caller and changes no read: the
  memory table is only touched after the log.\<close>

theorem engine_failed_put:
  assumes "db_inv db d" and "DB_Put k v db d = ((Some e, job), db', d')"
  shows "db' = db \<and> job = None \<and> db_inv db' d' \<and> (\<forall>k'. fst (DB_Get k' db' d') = fst (DB_Get k' db d))"
  using DB_Put_view(1) [OF assms] DB_Put_view(3) [OF assms] by (auto simp: DB_Get_view assms(1))

theorem engine_failed_put_witness:
  "DB_Put [1] [2] (stored_db []) \<lparr>files = [], faults = [Some 3]\<rparr> =
     ((Some PathError, None), stored_db [], empty_disk) \<and>
   (\<forall>k'. fst (DB_Get k' (stored_db []) empty_disk) =
      fst (DB_Get k' (stored_db []) \<lparr>files = [], faults = [Some 3]\<rparr>))"
proof -
  let ?d = "\<lparr>files = [], faults = [Some 3]\<rparr>"
  have inv: "db_inv (stored_db []) ?d"
    using stored_empty_inv by (simp add: db_inv_def stored_db_def)
  have run: "DB_Put [1] [2] (stored_db []) ?d = ((Some PathError, None), stored_db [], empty_disk)"
    by (simp add: DB_Put_def stored_db_def initial_DB_def WAL_AppendPut_def wal_write_def file_Write_def
        append_file_def disk_file_def next_fault_def)
  from engine_failed_put [OF inv run] run show ?thesis by blast
qed

text \<open>C28. Flushing the immutable table changes no read, whichever of its system calls fail: the
  table stays readable in memory until its file is installed.\<close>

theorem flush_keeps_reads:
  assumes "db_inv db d" and "immTable db = Some imm" and "storable (pairs imm)"
    and "handle_ok oldWal" and "unat (nextFileID db) + 1 < 2 ^ 64"
    and "flush (Some imm) oldWal db d = (db', d')"
  shows "db_inv db' d' \<and> (\<forall>k. fst (DB_Get k db' d') = fst (DB_Get k db d))"
  using flush_view [OF assms] by (simp add: DB_Get_view assms(1))

theorem flush_keeps_reads_witness:
  "\<exists>db db' d'. immTable db = Some \<lparr>pairs = [\<lparr>Key = [4], Value = Some [5]\<rparr>], mt_size = 2\<rparr> \<and>
     flush (immTable db) (Some (Some (wal_path 1))) db (stored_disk []) = (db', d') \<and>
     db_inv db' d' \<and> (\<forall>k. fst (DB_Get k db' d') = fst (DB_Get k db (stored_disk [])))"
proof -
  let ?imm = "\<lparr>pairs = [\<lparr>Key = [4], Value = Some [5]\<rparr>], mt_size = 2\<rparr>"
  let ?db = "(stored_db [])\<lparr>immTable := Some ?imm\<rparr>"
  obtain db' d' where run: "flush (Some ?imm) (Some (Some (wal_path 1))) ?db (stored_disk []) = (db', d')"
    by (rule prod.exhaust)
  have "db_inv ?db (stored_disk [])"
    using stored_empty_inv by (simp add: db_inv_def mt_invar_def pair_bytes_def slice_len_def)
  then have "db_inv db' d' \<and> (\<forall>k. fst (DB_Get k db' d') = fst (DB_Get k ?db (stored_disk [])))"
    by (rule flush_keeps_reads [OF _ _ _ _ _ run])
      (simp_all add: storable_small handle_ok_def wal_path_def stored_db_def)
  with run show ?thesis by (intro exI [of _ ?db] exI [of _ db'] exI [of _ d']) simp
qed


abbreviation one_pair :: "byte \<Rightarrow> byte \<Rightarrow> KVPair list" where
  "one_pair k v \<equiv> [\<lparr>Key = [k], Value = Some [v]\<rparr>]"

definition four_tables :: "(u64 \<times> KVPair list) list" where
  "four_tables = [(1, one_pair 7 1), (2, one_pair 7 2), (3, one_pair 8 3), (4, one_pair 9 4)]"

definition five_tables :: "(u64 \<times> KVPair list) list" where
  "five_tables = four_tables @ [(5, one_pair 7 5)]"

lemma tables_inv:
  "db_inv (stored_db four_tables) (stored_disk four_tables)"
  "db_inv (stored_db five_tables) (stored_disk five_tables)"
  by (rule stored_inv; simp add: four_tables_def five_tables_def storable_small)+

text \<open>The output of the first compaction of either engine, by its view.\<close>

lemma pick_tables:
  assumes "ts = four_tables \<or> ts = five_tables"
  shows "pickCompactionFiles (stored_db ts) = map (\<lambda>(i, ps). sst_meta i ps) four_tables"
  using assms by (auto simp: pickCompactionFiles_def stored_db_def initial_DB_def four_tables_def
      five_tables_def)

lemma picked_view:
  assumes "ts = four_tables \<or> ts = five_tables"
  shows "tables_view (stored_disk ts) (pickCompactionFiles (stored_db ts)) =
    layered (map pairs_map [one_pair 9 4, one_pair 8 3, one_pair 7 2, one_pair 7 1])"
proof -
  have "tables_view (stored_disk ts) (map (\<lambda>(i, ps). sst_meta i ps) four_tables) =
      layered (rev (map (\<lambda>(i, ps). pairs_map ps) four_tables))"
    by (rule stored_tables_view)
      (use assms in \<open>auto simp: four_tables_def five_tables_def storable_small\<close>)
  then show ?thesis unfolding pick_tables [OF assms] by (simp add: four_tables_def)
qed

lemma picked_pairs:
  assumes "ts = four_tables \<or> ts = five_tables"
  shows "map (table_pairs (stored_disk ts)) (pickCompactionFiles (stored_db ts)) =
    [one_pair 7 1, one_pair 7 2, one_pair 8 3, one_pair 9 4]"
proof -
  have "distinct (map fst ts)" and sub: "set four_tables \<subseteq> set ts"
    using assms by (auto simp: four_tables_def five_tables_def)
  note table = stored_table(1) [OF this(1)]
  show ?thesis
    unfolding pick_tables [OF assms] using sub table
    by (simp add: four_tables_def storable_small)
qed

lemma tables_output:
  assumes "ts = four_tables \<or> ts = five_tables"
  shows "compaction_output (stored_db ts) (stored_disk ts) = one_pair 7 2 @ one_pair 8 3 @ one_pair 9 4"
    and "compactable (stored_db ts) (stored_disk ts)"
proof -
  let ?db = "stored_db ts" and ?d = "stored_disk ts"
  have inv: "db_inv ?db ?d" using assms tables_inv by auto
  have pick: "pickCompactionFiles ?db \<noteq> []" "length (pickCompactionFiles ?db) = 4"
    using pick_tables [OF assms] by (simp_all add: four_tables_def)
  have "list_all (table_ok ?d) (pickCompactionFiles ?db)" by (rule picked_ok [OF inv])
  moreover from this obtain its where its: "open_iterators (pickCompactionFiles ?db) ?d = Inr its"
    using open_iterators_ok by blast
  moreover have keys: "list_all (\<lambda>m. [] \<notin> Key ` set (table_pairs ?d m)) (pickCompactionFiles ?db)"
    using arg_cong [OF picked_pairs [OF assms], of "list_all (\<lambda>ps. [] \<notin> Key ` set ps)"]
    by (simp add: list.pred_map comp_def)
  moreover have "length (pickCompactionFiles ?db) < 2 ^ 64" using pick(2) by simp
  ultimately have "sorted_pairs (compaction_output ?db ?d)" and
    "\<And>k. pairs_map (compaction_output ?db ?d) k =
      map_option clone_append (tables_view ?d (pickCompactionFiles ?db) k)"
    using merged_tables(1,2) [of ?d "pickCompactionFiles ?db" its] by (simp_all add: compaction_output_def)
  then show out: "compaction_output ?db ?d = one_pair 7 2 @ one_pair 8 3 @ one_pair 9 4"
    unfolding picked_view [OF assms] by (intro sorted_pairs_unique) (simp_all add: clone_append_def)
  show "compactable ?db ?d"
    unfolding compactable_def out using keys pick(2)
    by (simp add: sst_bytes_def index_bytes_def sst_index_def encode_pair_def encode_index_entry_def
        stored_db_def)
qed


text \<open>C33. When more tables exist than the threshold, a successful compaction brings old versions
  back: a key that is neither in memory nor being flushed reads as its version in the merged oldest
  tables, even if a newer table that was not picked holds another version, because the merged table
  is installed as the newest one.\<close>

theorem compaction_returns_stale_version:
  assumes "db_inv db d" and "compactable db d" and "pickCompactionFiles db \<noteq> []"
    and "doCompaction ns db d = (None, db', d')"
    and "layered [pairs_map (pairs (memTable db)), mem_view (immTable db)] k = None"
    and "tables_view d (pickCompactionFiles db) k = Some (Some v)" and "v \<noteq> []"
  shows "fst (DB_Get k db' d') = (v, True)"
  using doCompaction_stale [OF assms(1-6)] doCompaction_tables(1) [OF assms(1-4)] assms(7)
  by (simp add: DB_Get_view found_result_def clone_append_def)

lemma five_tables_run:
  "\<exists>db' d'. doCompaction 5 (stored_db five_tables) (stored_disk five_tables) = (None, db', d')"
proof -
  let ?db = "stored_db five_tables" and ?d = "stored_disk five_tables"
  obtain its where "open_iterators (pickCompactionFiles ?db) ?d = Inr its"
    using open_iterators_ok [OF picked_ok [OF tables_inv(2)]] by blast
  moreover have "pickCompactionFiles ?db \<noteq> []" by (simp add: pick_tables four_tables_def)
  moreover have "faults ?d = []" by (simp add: stored_disk_def)
  ultimately show ?thesis
    by (simp add: doCompaction_def Let_def reserveNextFileID_def writeSSTable_ok split: prod.splits)
qed

theorem compaction_returns_stale_version_witness:
  "\<exists>db' d'. doCompaction 5 (stored_db five_tables) (stored_disk five_tables) = (None, db', d') \<and>
     fst (DB_Get [7] (stored_db five_tables) (stored_disk five_tables)) = ([5], True) \<and>
     fst (DB_Get [7] db' d') = ([2], True)"
proof -
  let ?db = "stored_db five_tables" and ?d = "stored_disk five_tables"
  obtain db' d' where run: "doCompaction 5 ?db ?d = (None, db', d')" using five_tables_run by blast
  have mem: "layered [pairs_map (pairs (memTable ?db)), mem_view (immTable ?db)] [7] = None"
    by (simp add: stored_db_def initial_DB_def NewMemTable_def mem_view_def)
  have pick: "pickCompactionFiles ?db \<noteq> []" by (simp add: pick_tables four_tables_def)
  have "tables_view ?d (pickCompactionFiles ?db) [7] = Some (Some [2])" by (simp add: picked_view)
  from compaction_returns_stale_version [OF tables_inv(2) tables_output(2) pick run mem this]
  have after: "fst (DB_Get [7] db' d') = ([2], True)" by simp
  have "sstables ?db = map (\<lambda>(i, ps). sst_meta i ps) five_tables" by (simp add: stored_db_def)
  then have "tables_view ?d (sstables ?db) = layered (rev (map (\<lambda>(i, ps). pairs_map ps) five_tables))"
    using stored_tables_view [of five_tables five_tables]
    by (simp add: five_tables_def four_tables_def storable_small)
  then have "db_view ?db ?d [7] = Some (Some [5])"
    using mem by (simp add: db_view_def five_tables_def stored_db_def initial_DB_def NewMemTable_def mem_view_def)
  then have "fst (DB_Get [7] ?db ?d) = ([5], True)"
    by (simp add: DB_Get_view [OF tables_inv(2)] found_result_def)
  with run after show ?thesis by blast
qed

section \<open>Startup and the log allocator\<close>

lemma load_files_corrupt:
  assumes "name \<in> set names" and "filepath_Ext name = ''.sst''" and "disk_file d (SstDir, name) = Some content"
    and "load_sst (Sscanf_06d name) name content = Inl e"
  shows "\<exists>e'. fst (load_files d names loaded n) = Inl e'"
  using assms(1)
proof (induction names arbitrary: loaded n)
  case (Cons x names)
  then show ?case
    using assms(2-4)
    by (cases "x = name") (auto simp: Let_def split: option.splits sum.splits)
qed simp

text \<open>C36. One table file that carries a wrong magic number, as a flush cut off by a crash leaves
  it, makes the whole startup lose every table: loading returns an error and the table list stays
  empty, however many intact tables the directory holds.\<close>

theorem corrupt_table_hides_all_tables:
  assumes "disk_file d (SstDir, name) = Some content" and "filepath_Ext name = ''.sst''"
    and "FooterSize \<le> length content"
    and "le_Uint64 (drop (length content - 8) content) \<noteq> SSTableMagicNumber"
  shows "fst (loadSSTables (initial_DB options) d) \<noteq> None \<and>
    sstables (snd (loadSSTables (initial_DB options) d)) = []"
proof -
  have "take 8 (drop 16 (drop (length content - FooterSize) content)) = drop (length content - 8) content"
    using assms(3) by (simp add: FooterSize_def)
  with assms(3,4) have "load_sst (Sscanf_06d name) name content = Inl (BadMagic name)"
    by (simp only: load_sst_def Let_def not_less [symmetric] if_False if_True simp_thms)
  then obtain e where "fst (load_files d (os_ReadDir SstDir d) [] (nextFileID (initial_DB options))) = Inl e"
    using load_files_corrupt [OF os_ReadDir_mem [OF assms(1)] assms(2,1)] by blast
  then show ?thesis
    by (auto simp: loadSSTables_def initial_DB_def split: prod.splits sum.splits)
qed

theorem corrupt_table_hides_all_tables_witness:
  "sstables (snd (loadSSTables (initial_DB \<lparr>EnableCompaction = True\<rparr>)
     \<lparr>files = [((SstDir, ''000001.sst''), sst_bytes (one_pair 1 2)),
              ((SstDir, ''000002.sst''), replicate 24 0)], faults = []\<rparr>)) = []"
proof -
  have "le_Uint64 (drop 16 (replicate 24 0)) = (0 :: u64)"
    by (simp add: le_Uint64_def numeral_eq_Suc)
  then show ?thesis
    using corrupt_table_hides_all_tables [of "\<lparr>files = [((SstDir, ''000001.sst''), sst_bytes (one_pair 1 2)),
        ((SstDir, ''000002.sst''), replicate 24 0)], faults = []\<rparr>" "''000002.sst''" "replicate 24 0"
        "\<lparr>EnableCompaction = True\<rparr>"]
    by (simp add: disk_file_def FooterSize_def filepath_Ext_def SSTableMagicNumber_def)
qed








end
