(* ===== verification/Recovery.thy ===== *)
theory Recovery
  imports DB_View "HOL-Library.Sublist"
begin

text \<open>
  What a restart finds on the disk. \<open>holds_tables\<close> and \<open>holds_logs\<close> describe the two directories exactly,
  \<open>manifest_ok\<close> the manifest of an engine that only ever appended tables, and \<open>log_content\<close> the
  bytes of a log whose last record may be torn. The lemmas follow \<^verbatim>\<open>NewDBWithOptions\<close> step by step:
  the tables come back in the order of their numbers, the logs are replayed in order, the
  replayed table becomes the newest table, the logs are removed and a fresh log is opened. The bound on
  the size of a table file is stated in terms of what was written into it.
\<close>

section \<open>Histories of writes\<close>

text \<open>The last write of every key in a history, oldest write first.\<close>

definition last_writes :: "kv_write list \<Rightarrow> bytes \<Rightarrow> slice option" where
  "last_writes ws = map_of (rev ws)"

definition write_ok :: "kv_write \<Rightarrow> bool" where
  "write_ok w \<longleftrightarrow> fst w \<noteq> [] \<and> length (fst w) < 2 ^ 32 \<and>
     (case snd w of None \<Rightarrow> True | Some v \<Rightarrow> length v < 2 ^ 32 - 1)"

definition write_bytes :: "kv_write \<Rightarrow> nat" where
  "write_bytes w = length (fst w) + (case snd w of None \<Rightarrow> 0 | Some v \<Rightarrow> length v) + 28"

definition history_bytes :: "kv_write list \<Rightarrow> nat" where
  "history_bytes ws = sum_list (map write_bytes ws)"

lemma last_writes_simps [simp]:
  "last_writes [] = Map.empty"
  "last_writes (xs @ ys) = last_writes xs ++ last_writes ys"
  by (simp_all add: last_writes_def map_of_append)

lemma last_writes_single [simp]: "last_writes [w] = [fst w \<mapsto> snd w]"
  by (cases w) (simp add: last_writes_def)

lemma last_writes_mem: "last_writes ws k = Some v \<Longrightarrow> (k, v) \<in> set ws"
  by (auto simp: last_writes_def dest: map_of_SomeD)

text \<open>Applying a history again on top of a part of it.\<close>

lemma last_writes_again: "last_writes (base @ xs) ++ last_writes (xs @ ys) = last_writes (base @ xs @ ys)"
  by (auto simp: map_add_def fun_eq_iff split: option.splits)

lemma layered_add: "layered [] = Map.empty" "layered (m # ms) = layered ms ++ m"
  by (auto simp: map_add_def fun_eq_iff split: option.splits)

lemma sum_list_subset:
  fixes f :: "'a \<Rightarrow> nat"
  assumes "distinct xs" and "set xs \<subseteq> set ys"
  shows "sum_list (map f xs) \<le> sum_list (map f ys)"
proof -
  have "sum f (set ys) \<le> sum_list (map f ys)" for ys :: "'a list"
    by (induction ys) (auto simp: sum.insert_if)
  moreover have "sum f (set xs) \<le> sum f (set ys)" by (rule sum_mono2) (use assms(2) in auto)
  ultimately show ?thesis using sum_list_distinct_conv_sum_set [OF assms(1), of f] by (metis order_trans)
qed

section \<open>The size of a table\<close>

definition pair_weight :: "KVPair \<Rightarrow> nat" where
  "pair_weight p = write_bytes (kv_entry p)"

lemma length_enc: "length (enc ps) + 20 * length ps = sum_list (map pair_weight ps)"
  by (induction ps)
    (auto simp: pair_weight_def write_bytes_def kv_entry_def encode_pair_def split: option.splits)

lemma length_index:
  assumes "\<forall>b \<in> set bs. b \<noteq> []"
  shows "length (concat (map encode_index_entry (block_index off bs))) \<le>
    sum_list (map pair_weight (concat bs))"
  using assms
proof (induction off bs rule: block_index.induct)
  case (2 off b bs)
  let ?e = "\<lparr>ie_MaxKey = Key (last b),
    ie_Handle = \<lparr>bh_Offset = of_nat off, bh_Size = of_nat (length (enc b))\<rparr>\<rparr>"
  have "length (encode_index_entry ?e) \<le> pair_weight (last b)"
    by (simp add: encode_index_entry_def pair_weight_def write_bytes_def kv_entry_def split: option.splits)
  also have "\<dots> \<le> sum_list (map pair_weight b)" using 2 by (intro member_le_sum_list) auto
  finally show ?case using 2 by simp
qed simp

lemma length_sst_bytes: "length (sst_bytes ps) \<le> 2 * sum_list (map pair_weight ps) + 24"
proof -
  have "length (index_bytes ps) \<le> sum_list (map pair_weight (concat (split_blocks [] ps)))"
    unfolding index_bytes_def sst_index_def by (rule length_index) (use split_blocks_nonempty in blast)
  then show ?thesis using length_enc [of ps] by (simp add: sst_bytes_def)
qed

text \<open>A table that holds the last writes of a history fits into a file if the history does.\<close>

lemma storable_history:
  assumes "sorted_pairs ps" and "ps \<noteq> []" and "\<And>p. p \<in> set ps \<Longrightarrow> kv_entry p \<in> set ws"
    and "\<forall>w \<in> set ws. write_ok w" and "history_bytes ws < 2 ^ 61"
  shows "storable ps"
proof -
  have "map fst (map kv_entry ps) = map Key ps" by (simp add: kv_entry_def)
  then have "distinct (map kv_entry ps)"
    using sorted_pairs_distinct [OF assms(1)] by (metis distinct_map)
  moreover have "set (map kv_entry ps) \<subseteq> set ws" using assms(3) by auto
  ultimately have "sum_list (map write_bytes (map kv_entry ps)) \<le> history_bytes ws"
    unfolding history_bytes_def by (rule sum_list_subset)
  then have "length (sst_bytes ps) < 2 ^ 63"
    using length_sst_bytes [of ps] assms(5) by (simp add: pair_weight_def [abs_def] comp_def)
  moreover have "list_all pair_ok ps"
    using assms(3,4) by (fastforce simp: list_all_iff pair_ok_def write_ok_def kv_entry_def split: option.splits)
  ultimately show ?thesis using assms(1,2) by (simp add: storable_def)
qed

lemma table_of_history:
  assumes "mt_invar t" and "pairs_map (pairs t) = last_writes ws" and "p \<in> set (pairs t)"
  shows "kv_entry p \<in> set ws"
  using assms pairs_map_mem [of "pairs t" p] last_writes_mem [of ws "Key p" "Value p"]
  by (simp add: mt_invar_def kv_entry_def)

lemma storable_table:
  assumes "mt_invar t" and "pairs_map (pairs t) = last_writes ws" and "pairs t \<noteq> []"
    and "\<forall>w \<in> set ws. write_ok w" and "history_bytes ws < 2 ^ 61"
  shows "storable (pairs t)"
  by (rule storable_history [OF _ assms(3) table_of_history [OF assms(1,2)] assms(4,5)])
    (use assms(1) in \<open>simp_all add: mt_invar_def\<close>)

lemma table_size_zero:
  assumes "mt_invar t" and "\<forall>p \<in> set (pairs t). Key p \<noteq> []" and "mt_size t \<le> 0"
  shows "pairs t = []"
proof (rule ccontr)
  assume "pairs t \<noteq> []"
  then have "0 < sum_list (map pair_bytes (pairs t))"
  proof (cases "pairs t")
    case (Cons p ps)
    have "0 \<le> sum_list (map pair_bytes ps)"
      by (rule sum_list_nonneg) (auto simp: pair_bytes_def slice_len_def split: option.splits)
    moreover have "0 < int (length (Key p))" "0 \<le> slice_len (Value p)"
      using assms(2) Cons by (auto simp: slice_len_def split: option.splits)
    then have "0 < pair_bytes p" unfolding pair_bytes_def by linarith
    ultimately show ?thesis using Cons by simp
  qed simp
  with assms(1,3) show False by (simp add: mt_invar_def)
qed

lemma put_all_history:
  assumes "mt_invar t" and "pairs_map (pairs t) = last_writes us"
  shows "pairs_map (pairs (mt.put_all ws t)) = last_writes (us @ ws)" and "mt_invar (mt.put_all ws t)"
proof -
  show inv: "mt_invar (mt.put_all ws t)" using assms(1) by (rule mt.invar_put_all)
  show "pairs_map (pairs (mt.put_all ws t)) = last_writes (us @ ws)"
  proof
    fix k
    have "pairs_map (pairs (mt.put_all ws t)) k = MemTable_Get (mt.put_all ws t) k"
      using inv by (simp add: mt_invar_def MemTable_Get_pairs_map)
    also have "\<dots> = last_writes (us @ ws) k"
      using mt.get_put_all [OF assms(1), of ws k] assms MemTable_Get_pairs_map [of t k]
      by (simp add: mt_invar_def last_writes_def map_of_append map_add_def split: option.splits)
    finally show "pairs_map (pairs (mt.put_all ws t)) k = last_writes (us @ ws) k" .
  qed
qed

section \<open>The directories\<close>

definition holds_tables :: "disk \<Rightarrow> (u64 \<times> KVPair list) list \<Rightarrow> bool" where
  "holds_tables d ts \<longleftrightarrow>
     sorted_wrt (<) (map fst ts) \<and>
     (\<forall>(i, ps) \<in> set ts. unat i < 10 ^ 6 \<and> storable ps \<and> disk_file d (sst_path i) = Some (sst_bytes ps)) \<and>
     (\<forall>name. disk_file d (SstDir, name) \<noteq> None \<longrightarrow> (SstDir, name) \<in> sst_path ` fst ` set ts)"

text \<open>The bytes of a log with its operations, and of one that a crash may have cut off while it was written.\<close>

definition complete :: "walop list \<Rightarrow> bytes \<Rightarrow> bool" where
  "complete ops bs \<longleftrightarrow> (\<forall>x \<in> set ops. walop_ok x) \<and> bs = wal_bytes ops"

definition maybe_torn :: "walop list \<Rightarrow> bytes \<Rightarrow> bool" where
  "maybe_torn ops bs \<longleftrightarrow> (\<forall>x \<in> set ops. walop_ok x) \<and>
     (\<exists>x m. walop_ok x \<and> m < length (wal_record x) \<and> bs = wal_bytes ops @ take m (wal_record x))"

definition holds_logs :: "(walop list \<Rightarrow> bytes \<Rightarrow> bool) \<Rightarrow> disk \<Rightarrow> (u64 \<times> walop list) list \<Rightarrow> bool" where
  "holds_logs C d ls \<longleftrightarrow>
     sorted_wrt (<) (map fst ls) \<and>
     (\<forall>(i, ops) \<in> set ls. unat i < 10 ^ 6 \<and> (\<exists>bs. disk_file d (wal_path i) = Some bs \<and> C ops bs)) \<and>
     (\<forall>name. disk_file d (WalDir, name) \<noteq> None \<longrightarrow> (WalDir, name) \<in> wal_path ` fst ` set ls)"

definition metas :: "(u64 \<times> KVPair list) list \<Rightarrow> SSTableMeta list" where
  "metas ts = map (\<lambda>(i, ps). sst_meta i ps) ts"

definition stack :: "(u64 \<times> KVPair list) list \<Rightarrow> bytes \<Rightarrow> slice option" where
  "stack ts = layered (map (\<lambda>t. pairs_map (snd t)) (rev ts))"

text \<open>The lines of the manifest, if there are any, list the first so many tables.\<close>

definition manifest_ok :: "disk \<Rightarrow> SSTableMeta list \<Rightarrow> bool" where
  "manifest_ok d ms \<longleftrightarrow>
     (case disk_file d manifest_path of
        None \<Rightarrow> True
      | Some bs \<Rightarrow> \<exists>snaps. bs = manifest_bytes snaps \<and> (\<forall>snap \<in> set snaps. snap \<noteq> [] \<and> prefix snap ms))"

lemma set_os_ReadDir: "set (os_ReadDir dir d) = {name. disk_file d (dir, name) \<noteq> None}"
proof -
  have "name \<in> set (os_ReadDir dir d) \<longleftrightarrow> (dir, name) \<in> fst ` set (files d)" for name
    by (force simp: os_ReadDir_def)
  then show ?thesis by (auto simp: disk_file_def map_of_eq_None_iff)
qed

lemma distinct_os_ReadDir: "distinct (os_ReadDir dir d)"
  by (simp add: os_ReadDir_def)

lemma metas_simps [simp]:
  "metas [] = []" "metas (t # ts) = sst_meta (fst t) (snd t) # metas ts" "metas (ts @ us) = metas ts @ metas us"
  "metas ts = [] \<longleftrightarrow> ts = []" "length (metas ts) = length ts"
  by (simp_all add: metas_def case_prod_beta)

lemma metas_ids [simp]: "map sm_FileID (metas ts) = map fst ts"
  by (simp add: metas_def sst_meta_def case_prod_beta)

lemma stack_simps [simp]: "stack [] = Map.empty" "stack (ts @ [t]) = stack ts ++ pairs_map (snd t)"
  by (auto simp: stack_def map_add_def fun_eq_iff split: option.splits)

lemma holds_tables_ok:
  assumes "holds_tables d ts" and "set us \<subseteq> set ts"
  shows "list_all (table_ok d) (metas us)" and "tables_view d (metas us) = stack us"
proof -
  have t: "table_pairs d (sst_meta i ps) = ps \<and> table_ok d (sst_meta i ps)" if "(i, ps) \<in> set us" for i ps
  proof -
    have "storable ps" "disk_file d (sst_path i) = Some (sst_bytes ps)"
      using assms that by (auto simp: holds_tables_def)
    then show ?thesis using table_written by blast
  qed
  show "list_all (table_ok d) (metas us)" using t by (auto simp: list_all_iff metas_def)
  have "map (\<lambda>m. pairs_map (table_pairs d m)) (rev (metas us)) = map (\<lambda>t. pairs_map (snd t)) (rev us)"
    using t by (auto simp: metas_def rev_map)
  then show "tables_view d (metas us) = stack us" by (simp add: tables_view_def stack_def)
qed

lemma sorted_ids_distinct: "sorted_wrt (<) (map fst ts) \<Longrightarrow> distinct (map fst (ts :: ('a :: linorder \<times> 'b) list))"
  by (simp add: strict_sorted_iff)

section \<open>Loading the tables\<close>

lemma sst_names:
  assumes "holds_tables d ts"
  shows "set (os_ReadDir SstDir d) = (\<lambda>t. snd (sst_path (fst t))) ` set ts"
proof -
  have "(SstDir, snd (sst_path i)) = sst_path i" for i by (simp add: sst_path_def)
  then show ?thesis
    using assms by (auto simp: set_os_ReadDir holds_tables_def image_iff) (metis snd_conv)+
qed

lemma bump_bounds:
  assumes "unat i < 10 ^ 6"
  shows "n \<le> bumpNextFileID i n" "i < bumpNextFileID i n" "n \<le> b \<Longrightarrow> i < b \<Longrightarrow> bumpNextFileID i n \<le> b"
proof -
  have "unat (i + 1) = unat i + 1" using assms by (simp add: unat_word_ariths)
  then show "n \<le> bumpNextFileID i n" "i < bumpNextFileID i n" "n \<le> b \<Longrightarrow> i < b \<Longrightarrow> bumpNextFileID i n \<le> b"
    by (auto simp: bumpNextFileID_def word_le_nat_alt word_less_nat_alt)
qed

lemma bump_fold:
  assumes "\<forall>i \<in> set is. unat i < 10 ^ 6"
  shows "n \<le> fold bumpNextFileID is n" and "i \<in> set is \<Longrightarrow> i < fold bumpNextFileID is n"
    and "n \<le> b \<Longrightarrow> \<forall>i \<in> set is. i < b \<Longrightarrow> fold bumpNextFileID is n \<le> b"
proof -
  have "n \<le> fold bumpNextFileID is n \<and> (\<forall>i \<in> set is. i < fold bumpNextFileID is n) \<and>
      (\<forall>b. n \<le> b \<longrightarrow> (\<forall>i \<in> set is. i < b) \<longrightarrow> fold bumpNextFileID is n \<le> b)"
    using assms
  proof (induction "is" arbitrary: n)
    case (Cons i "is")
    have i: "unat i < 10 ^ 6" using Cons.prems by simp
    note IH = Cons.IH [of "bumpNextFileID i n"]
    show ?case
      using IH Cons.prems bump_bounds [OF i, of n] by (auto intro: order_trans less_le_trans)
  qed simp
  then show "n \<le> fold bumpNextFileID is n" "i \<in> set is \<Longrightarrow> i < fold bumpNextFileID is n"
    "n \<le> b \<Longrightarrow> \<forall>i \<in> set is. i < b \<Longrightarrow> fold bumpNextFileID is n \<le> b" by blast+
qed

lemma sort_metas:
  assumes "sorted_wrt (<) (map fst ts)" and "distinct names"
    and "set names = (\<lambda>t. snd (sst_path (fst t))) ` set ts" and "\<forall>t \<in> set ts. unat (fst t) < 10 ^ 6"
  shows "sort_key sm_FileID (map (\<lambda>name. sst_meta (Sscanf_06d name) (the (map_of ts (Sscanf_06d name)))) names) =
    metas ts"
proof -
  let ?m = "\<lambda>name. sst_meta (Sscanf_06d name) (the (map_of ts (Sscanf_06d name)))"
  let ?ms = "map ?m names"
  have dis: "distinct (map fst ts)" using assms(1) by (rule sorted_ids_distinct)
  have m: "?m (snd (sst_path (fst t))) = sst_meta (fst t) (snd t)" if "t \<in> set ts" for t
    using that assms(4) map_of_is_SomeI [OF dis, of "fst t" "snd t"] by (simp add: Sscanf_sst_path)
  have set: "set ?ms = set (metas ts)"
    using m by (force simp: assms(3) metas_def case_prod_beta image_image)
  have "inj_on Sscanf_06d (set names)"
    using assms(3,4) by (auto simp: inj_on_def Sscanf_sst_path)
  then have dm: "distinct (map sm_FileID ?ms)"
    using assms(2) by (simp add: comp_def sst_meta_def distinct_map)
  have dm': "distinct (map sm_FileID (sort_key sm_FileID ?ms))"
    using dm by (simp only: distinct_map set_sort distinct_sort)
  have inj: "inj_on sm_FileID (set (sort_key sm_FileID ?ms) \<union> set (metas ts))"
    using dm by (simp only: set_sort set Un_absorb distinct_map)
  show ?thesis
    by (rule map_sorted_distinct_set_unique [OF inj _ dm'])
      (use assms(1) dis in \<open>simp_all only: sorted_sort_key metas_ids set_sort set strict_sorted_iff\<close>)
qed

lemma manifest_order:
  assumes "manifest_ok d (metas ts)" and "distinct (map fst ts)"
  shows "applyManifestOrder (metas ts) d = metas ts"
proof (cases "disk_file d manifest_path")
  case None
  then show ?thesis by (simp add: applyManifestOrder_def)
next
  case (Some bs)
  then obtain snaps where s: "bs = manifest_bytes snaps" "\<forall>snap \<in> set snaps. snap \<noteq> [] \<and> prefix snap (metas ts)"
    using assms(1) by (auto simp: manifest_ok_def)
  show ?thesis
  proof (cases snaps rule: rev_cases)
    case Nil
    then show ?thesis
      using Some s(1) Split_manifest_bytes [of "[]"] by (simp add: applyManifestOrder_def TrimSpace_id [of "[]"])
  next
    case (snoc snaps' snap)
    then obtain rest where r: "metas ts = snap @ rest" "snap \<noteq> []" using s(2) by (auto simp: prefix_def)
    have dis: "distinct (map sm_FileID (snap @ rest))" using assms(2) by (metis r(1) metas_ids)
    have "applyManifestOrder (metas ts) d = snap @ filter (\<lambda>m. sm_FileID m \<notin> sm_FileID ` set snap) (metas ts)"
    proof (rule applyManifestOrder_bytes)
      show "disk_file d manifest_path = Some (manifest_bytes (snaps' @ [snap]))" using Some s(1) snoc by simp
      show "distinct (map sm_FileID (metas ts))" using assms(2) by simp
    qed (use r in auto)
    moreover have "filter (\<lambda>m. sm_FileID m \<notin> sm_FileID ` set snap) (snap @ rest) = rest"
      using dis by (auto simp: filter_empty_conv filter_id_conv)
    ultimately show ?thesis by (simp add: r(1))
  qed
qed

lemma loadSSTables_ok:
  assumes "holds_tables d ts" and "manifest_ok d (metas ts)"
  obtains n where "loadSSTables (initial_DB opts) d = (None, (initial_DB opts)\<lparr>nextFileID := n, sstables := metas ts\<rparr>)"
    and "1 \<le> n" and "\<forall>i \<in> fst ` set ts. i < n" and "\<And>b. 1 \<le> b \<Longrightarrow> \<forall>i \<in> fst ` set ts. i < b \<Longrightarrow> n \<le> b"
proof -
  let ?names = "os_ReadDir SstDir d"
  have sorted: "sorted_wrt (<) (map fst ts)" and small: "\<forall>t \<in> set ts. unat (fst t) < 10 ^ 6"
    using assms(1) by (auto simp: holds_tables_def)
  have dis: "distinct (map fst ts)" using sorted by (rule sorted_ids_distinct)
  note names = sst_names [OF assms(1)]
  have load: "load_files d ?names [] 1 =
      (Inr ([] @ map (\<lambda>name. sst_meta (Sscanf_06d name) (the (map_of ts (Sscanf_06d name)))) ?names),
       fold (bumpNextFileID \<circ> Sscanf_06d) ?names 1)"
  proof (rule load_files_ok)
    fix name
    assume "name \<in> set ?names"
    then obtain i ps where "(i, ps) \<in> set ts" "name = snd (sst_path i)" using names by auto
    then show "\<exists>fid. name = snd (sst_path fid) \<and> unat fid < 10 ^ 6 \<and> storable (the (map_of ts fid)) \<and>
        disk_file d (sst_path fid) = Some (sst_bytes (the (map_of ts fid)))"
      using assms(1) dis by (intro exI [of _ i]) (auto simp: holds_tables_def)
  qed
  let ?n = "fold bumpNextFileID (map Sscanf_06d ?names) 1"
  have ids: "set (map Sscanf_06d ?names) = fst ` set ts"
    using names small by (force simp: Sscanf_sst_path image_image)
  have smalls: "\<forall>i \<in> set (map Sscanf_06d ?names). unat i < 10 ^ 6" using small unfolding ids by auto
  show thesis
  proof (rule that [of ?n])
    show "loadSSTables (initial_DB opts) d = (None, (initial_DB opts)\<lparr>nextFileID := ?n, sstables := metas ts\<rparr>)"
      using load sort_metas [OF sorted distinct_os_ReadDir names small] manifest_order [OF assms(2) dis]
      by (simp add: loadSSTables_def initial_DB_def fold_map)
    show "1 \<le> ?n" by (rule bump_fold(1) [OF smalls])
    show "\<forall>i \<in> fst ` set ts. i < ?n" using bump_fold(2) [OF smalls] unfolding ids by blast
    show "?n \<le> b" if "1 \<le> b" "\<forall>i \<in> fst ` set ts. i < b" for b
      using bump_fold(3) [OF smalls that(1)] that(2) unfolding ids by blast
  qed
qed

section \<open>Replaying the logs\<close>

definition logged :: "(u64 \<times> walop list) list \<Rightarrow> kv_write list" where
  "logged ls = concat (map (\<lambda>l. map walop_write (snd l)) ls)"

lemma logged_simps [simp]:
  "logged [] = []" "logged (l # ls) = map walop_write (snd l) @ logged ls" "logged (ls @ ls') = logged ls @ logged ls'"
  by (simp_all add: logged_def)

lemma complete_maybe_torn: "complete ops bs \<Longrightarrow> maybe_torn ops bs"
  unfolding complete_def maybe_torn_def
  by (intro conjI exI [of _ "WalDelete []"] exI [of _ 0]) (auto simp: delete_record_def)

lemma recover_one_ok:
  assumes "faults d = []" and "disk_file d (wal_path i) = Some bs" and "maybe_torn ops bs"
  shows "recover_one i (t, d) = (mt.put_all (map walop_write ops) t, d)"
proof -
  obtain x m where ok: "\<forall>x \<in> set ops. walop_ok x" "walop_ok x" and m: "m < length (wal_record x)"
    and bs: "bs = wal_bytes ops @ take m (wal_record x)"
    using assms(3) by (auto simp: maybe_torn_def)
  have "fst (replay_loop onPut onDelete bs t) = mt.put_all (map walop_write ops) t"
    unfolding bs replay_wal_bytes [OF ok(1)] fold_walop_do by (rule replay_torn [OF ok(2) m])
  moreover have "OpenWAL (wal_path i) d = (Inr (Some (wal_path i)), d)"
    using assms(1,2) by (simp add: OpenWAL_def os_OpenAppend_def)
  ultimately show ?thesis
    using assms(1,2) by (auto simp: recover_one_def WAL_Replay_def WAL_Close_def split: prod.splits)
qed

lemma fold_recover_one:
  assumes "faults d = []"
    and "\<forall>(i, ops) \<in> set ls. \<exists>bs. disk_file d (wal_path i) = Some bs \<and> maybe_torn ops bs"
  shows "fold recover_one (map fst ls) (t, d) = (mt.put_all (logged ls) t, d)"
  using assms(2)
proof (induction ls arbitrary: t)
  case (Cons l ls)
  obtain bs where "disk_file d (wal_path (fst l)) = Some bs" "maybe_torn (snd l) bs"
    using Cons.prems by (cases l) auto
  from recover_one_ok [OF assms(1) this] Cons show ?case by simp
qed simp

lemma wal_path_simps [simp]:
  "wal_path i = wal_path j \<longleftrightarrow> i = j" "fst (wal_path i) = WalDir"
  "wal_path i \<noteq> manifest_path" "manifest_path \<noteq> wal_path i"
  by (auto simp: wal_path_def word_unat_eq_iff manifest_path_def)

lemma Sscanf_wal_path: "unat i < 10 ^ 6 \<Longrightarrow> Sscanf_06d (snd (wal_path i)) = i"
  unfolding wal_path_def using Sscanf_fmt_06d [of i "CHR ''w''" "''al.log''"]
  by (simp add: is_digit_def)

lemma filepath_Ext_wal [simp]: "filepath_Ext (snd (wal_path i)) = ''.log''"
  by (simp add: filepath_Ext_def wal_path_def)

lemma wal_names:
  assumes "holds_logs C d ls"
  shows "set (os_ReadDir WalDir d) = (\<lambda>l. snd (wal_path (fst l))) ` set ls"
proof -
  have "(WalDir, snd (wal_path i)) = wal_path i" for i by (simp add: wal_path_def)
  then show ?thesis
    using assms by (auto simp: set_os_ReadDir holds_logs_def image_iff) (metis snd_conv)+
qed

lemma foldl_dec: "foldl (\<lambda>a c. 10 * a + digit_val c) n s = n * 10 ^ length s + dec_val s"
proof (induction s arbitrary: n)
  case (Cons c s)
  show ?case using Cons [of "10 * n + digit_val c"] Cons [of "digit_val c"] by (simp add: dec_val_def algebra_simps)
qed (simp add: dec_val_def)

lemma dec_val_Cons: "dec_val (c # s) = digit_val c * 10 ^ length s + dec_val s"
  using foldl_dec [of "digit_val c" s] by (simp add: dec_val_def)

lemma dec_val_less: "list_all is_digit s \<Longrightarrow> dec_val s < 10 ^ length s"
proof (induction s)
  case (Cons c s)
  have "is_digit c" using Cons.prems by simp
  then have "digit_val c \<le> 9" unfolding is_digit_def digit_val_def by arith
  then have "digit_val c * 10 ^ length s \<le> 9 * 10 ^ length s" by simp
  moreover have "dec_val s < 10 ^ length s" using Cons by simp
  ultimately show ?case unfolding dec_val_Cons length_Cons power_Suc by linarith
qed simp

text \<open>Numbers with the same number of digits are ordered like their texts.\<close>

lemma digits_less:
  assumes "list_all is_digit s" and "list_all is_digit t" and "length s = length t" and "dec_val s < dec_val t"
  shows "s @ u < t @ u"
  using assms
proof (induction s arbitrary: t)
  case (Cons c s)
  obtain e t' where t: "t = e # t'" using Cons.prems(3) by (cases t) auto
  have len: "length t' = length s" and dig: "is_digit c" "is_digit e" "list_all is_digit s" "list_all is_digit t'"
    using Cons.prems t by auto
  have lt: "dec_val s < 10 ^ length s" "dec_val t' < 10 ^ length s"
    using dec_val_less [OF dig(3)] dec_val_less [OF dig(4)] len by simp_all
  have le: "digit_val c \<le> digit_val e"
  proof (rule ccontr)
    assume "\<not> digit_val c \<le> digit_val e"
    then have "(digit_val e + 1) * 10 ^ length s \<le> digit_val c * 10 ^ length s" by (intro mult_right_mono) auto
    then show False using Cons.prems(4) lt t len by (simp add: dec_val_Cons)
  qed
  show ?case
  proof (cases "digit_val c = digit_val e")
    case True
    then have "(of_char c :: nat) = of_char e" using dig(1,2) unfolding is_digit_def digit_val_def by arith
    then have "c = e" by simp
    moreover have "dec_val s < dec_val t'" using Cons.prems(4) True t len by (simp add: dec_val_Cons)
    ultimately show ?thesis using Cons.IH [of t'] dig(3,4) len t by simp
  next
    case False
    then have "c < e" using le dig(1,2) unfolding less_char_def is_digit_def digit_val_def by arith
    then show ?thesis using t by simp
  qed
qed simp

lemma wal_name_less: "unat i < 10 ^ 6 \<Longrightarrow> unat j < 10 ^ 6 \<Longrightarrow> i < j \<Longrightarrow> snd (wal_path i) < snd (wal_path j)"
  unfolding wal_path_def snd_conv
  by (rule digits_less) (simp_all add: fmt_06d_digits fmt_06d_length word_less_nat_alt)

lemma wal_names_in_order:
  assumes "holds_logs C d ls"
  shows "os_ReadDir WalDir d = map (\<lambda>l. snd (wal_path (fst l))) ls"
proof -
  have small: "\<forall>l \<in> set ls. unat (fst l) < 10 ^ 6" and sorted: "sorted_wrt (<) (map fst ls)"
    using assms by (auto simp: holds_logs_def)
  have "sorted_wrt (<) (map (\<lambda>l. snd (wal_path (fst l))) ls)"
    unfolding sorted_wrt_map
    by (rule sorted_wrt_mono_rel [OF _ sorted [unfolded sorted_wrt_map]]) (use small in \<open>blast intro: wal_name_less\<close>)
  then show ?thesis
    using wal_names [OF assms] distinct_os_ReadDir [of WalDir d]
    by (intro sorted_distinct_set_unique) (auto simp: strict_sorted_iff os_ReadDir_def)
qed
lemma logs_fresh:
  assumes "holds_logs C d ls" and "i \<notin> fst ` set ls"
  shows "disk_file d (wal_path i) = None"
proof (rule ccontr)
  have path: "(WalDir, snd (wal_path i)) = wal_path i" by (simp add: wal_path_def)
  assume "disk_file d (wal_path i) \<noteq> None"
  then have "wal_path i \<in> wal_path ` fst ` set ls"
    using assms(1) unfolding holds_logs_def by (metis path)
  then obtain l where "l \<in> set ls" "i = fst l" by auto
  with assms(2) show False by blast
qed

lemma wal_ids_ok:
  assumes "holds_logs C d ls"
  shows "wal_ids d = map fst ls"
proof -
  let ?names = "os_ReadDir WalDir d"
  have small: "\<forall>l \<in> set ls. unat (fst l) < 10 ^ 6" and sorted: "sorted_wrt (<) (map fst ls)"
    using assms by (auto simp: holds_logs_def)
  note names = wal_names [OF assms]
  have ids: "wal_ids d = sort (map Sscanf_06d ?names)"
    unfolding wal_ids_def by (subst filter_True) (auto simp: names)
  have "inj_on Sscanf_06d (set ?names)" using names small by (auto simp: inj_on_def Sscanf_wal_path)
  then have "distinct (map Sscanf_06d ?names)" by (simp add: distinct_map distinct_os_ReadDir)
  moreover have "set (map Sscanf_06d ?names) = set (map fst ls)"
    using names small by (force simp: Sscanf_wal_path image_image)
  ultimately show ?thesis
    unfolding ids using sorted by (intro sorted_distinct_set_unique) (simp_all add: strict_sorted_iff)
qed

lemma RecoverFromWAL_ok:
  assumes "faults d = []" and "holds_logs maybe_torn d ls"
  shows "RecoverFromWAL db d =
    (db\<lparr>memTable := mt.put_all (logged ls) (memTable db),
        walFileID := (if ls = [] then 1 else fst (last ls) + 1)\<rparr>, d)"
proof -
  have "fold recover_one (map fst ls) (memTable db, d) = (mt.put_all (logged ls) (memTable db), d)"
    by (rule fold_recover_one [OF assms(1)]) (use assms(2) in \<open>auto simp: holds_logs_def\<close>)
  then show ?thesis
    by (simp add: RecoverFromWAL_def wal_ids_ok [OF assms(2)] last_map Let_def)
qed

text \<open>Removing the logs.\<close>

lemma os_Remove_ok: "faults d = [] \<Longrightarrow> faults (snd (os_Remove p d)) = []"
  "faults d = [] \<Longrightarrow> disk_file (snd (os_Remove p d)) q = (if q = p then None else disk_file d q)"
  by (auto simp: os_Remove_def split: option.splits)

definition remove_logs :: "string list \<Rightarrow> disk \<Rightarrow> disk" where
  "remove_logs names d =
     fold (\<lambda>name d. if filepath_Ext name = ''.log'' then snd (os_Remove (WalDir, name) d) else d) names d"

lemma removeAllOldWalFiles_remove: "removeAllOldWalFiles d = remove_logs (os_ReadDir WalDir d) d"
  by (simp add: removeAllOldWalFiles_def remove_logs_def)

lemma remove_logs_ok:
  assumes "faults d = []" and "\<forall>name \<in> set names. filepath_Ext name = ''.log''"
  shows "faults (remove_logs names d) = []"
    and "disk_file (remove_logs names d) q = (if fst q = WalDir \<and> snd q \<in> set names then None else disk_file d q)"
proof -
  have "faults (remove_logs names d) = [] \<and>
      disk_file (remove_logs names d) q = (if fst q = WalDir \<and> snd q \<in> set names then None else disk_file d q)"
    using assms
    by (induction names arbitrary: d) (auto simp: remove_logs_def os_Remove_ok prod_eq_iff)
  then show "faults (remove_logs names d) = []"
    "disk_file (remove_logs names d) q = (if fst q = WalDir \<and> snd q \<in> set names then None else disk_file d q)"
    by blast+
qed

lemma removeAllOldWalFiles_ok:
  assumes "faults d = []" and "holds_logs C d ls"
  shows "faults (removeAllOldWalFiles d) = []"
    and "disk_file (removeAllOldWalFiles d) q = (if fst q = WalDir then None else disk_file d q)"
proof -
  have ext: "\<forall>name \<in> set (os_ReadDir WalDir d). filepath_Ext name = ''.log''"
    using wal_names [OF assms(2)] by auto
  note rm = remove_logs_ok [OF assms(1) ext]
  show "faults (removeAllOldWalFiles d) = []" by (simp add: removeAllOldWalFiles_remove rm)
  have "fst q = WalDir \<Longrightarrow> snd q \<notin> set (os_ReadDir WalDir d) \<Longrightarrow> disk_file d q = None"
    unfolding set_os_ReadDir by (cases q) auto
  then show "disk_file (removeAllOldWalFiles d) q = (if fst q = WalDir then None else disk_file d q)"
    unfolding removeAllOldWalFiles_remove rm(2) by auto
qed

text \<open>The logs are removed oldest first.\<close>

lemma remove_oldest_logs:
  assumes "faults d = []" and "holds_logs C d ls"
  shows "holds_logs C (remove_logs (take m (os_ReadDir WalDir d)) d) (drop m ls)"
proof -
  let ?names = "take m (os_ReadDir WalDir d)"
  have names: "?names = map (\<lambda>l. snd (wal_path (fst l))) (take m ls)"
    using wal_names_in_order [OF assms(2)] by (simp add: take_map)
  have ext: "\<forall>name \<in> set ?names. filepath_Ext name = ''.log''" unfolding names by auto
  note rm = remove_logs_ok [OF assms(1) ext]
  have sorted: "sorted_wrt (<) (map fst (take m ls @ drop m ls))" using assms(2) by (simp add: holds_logs_def)
  then have dis: "distinct (map fst (take m ls @ drop m ls))" by (rule sorted_ids_distinct)
  have path: "(WalDir, snd (wal_path i)) = wal_path i" for i by (simp add: wal_path_def)
  have gone: "snd (wal_path i) \<in> set ?names \<longleftrightarrow> i \<in> fst ` set (take m ls)" for i
  proof -
    have "snd (wal_path i) = snd (wal_path j) \<longleftrightarrow> i = j" for j by (metis path wal_path_simps(1))
    then show ?thesis unfolding names by auto
  qed
  have "unat i < 10 ^ 6 \<and> (\<exists>bs. disk_file (remove_logs ?names d) (wal_path i) = Some bs \<and> C ops bs)"
    if "(i, ops) \<in> set (drop m ls)" for i ops
  proof -
    have "set (map fst (take m ls)) \<inter> set (map fst (drop m ls)) = {}"
      using dis unfolding map_append distinct_append by blast
    moreover have "i \<in> set (map fst (drop m ls))" using that by force
    ultimately have "i \<notin> fst ` set (take m ls)" unfolding set_map by blast
    moreover have "(i, ops) \<in> set ls" using that by (rule in_set_dropD)
    ultimately show ?thesis using assms(2) gone [of i] by (auto simp: holds_logs_def rm)
  qed
  moreover have "(WalDir, name) \<in> wal_path ` fst ` set (drop m ls)"
    if "disk_file (remove_logs ?names d) (WalDir, name) \<noteq> None" for name
  proof -
    have keep: "name \<notin> set ?names" "disk_file d (WalDir, name) \<noteq> None" using that by (auto simp: rm split: if_splits)
    then obtain l where l: "l \<in> set ls" "(WalDir, name) = wal_path (fst l)"
      using assms(2) by (auto simp: holds_logs_def)
    then have "fst l \<notin> fst ` set (take m ls)" using keep(1) gone [of "fst l"] by (metis snd_conv)
    then have "l \<in> set (drop m ls)" using l(1) append_take_drop_id [of m ls] by (metis Un_iff imageI set_append)
    then show ?thesis using l(2) by auto
  qed
  ultimately show ?thesis
    using sorted unfolding holds_logs_def by (auto simp: sorted_wrt_append simp del: append_take_drop_id)
qed

section \<open>Startup\<close>

lemma persistManifest_ok:
  assumes "faults d = []"
  shows "fst (persistManifest snap d) = None" and "faults (snd (persistManifest snap d)) = []"
    and "disk_file (snd (persistManifest snap d)) q =
      (if q = manifest_path
       then Some ((case disk_file d manifest_path of None \<Rightarrow> [] | Some old \<Rightarrow> old) @ manifest_bytes [snap])
       else disk_file d q)"
  using assms
  by (auto simp: persistManifest_def os_OpenAppend_def disk_file_append manifest_bytes_def split: option.splits)

lemma manifest_ok_append:
  assumes "manifest_ok d ms" and "snap \<noteq> []" and "prefix snap ms"
    and "disk_file d' manifest_path =
      Some ((case disk_file d manifest_path of None \<Rightarrow> [] | Some old \<Rightarrow> old) @ manifest_bytes [snap])"
  shows "manifest_ok d' ms"
proof (cases "disk_file d manifest_path")
  case None
  with assms show ?thesis by (auto simp: manifest_ok_def intro!: exI [of _ "[snap]"])
next
  case (Some bs)
  then obtain snaps where "bs = manifest_bytes snaps" "\<forall>snap \<in> set snaps. snap \<noteq> [] \<and> prefix snap ms"
    using assms(1) by (auto simp: manifest_ok_def)
  with Some assms(2-4) show ?thesis by (auto simp: manifest_ok_def intro!: exI [of _ "snaps @ [snap]"])
qed

lemma manifest_ok_prefix:
  "manifest_ok d ms \<Longrightarrow> prefix ms ms' \<Longrightarrow> disk_file d' manifest_path = disk_file d manifest_path \<Longrightarrow> manifest_ok d' ms'"
  unfolding manifest_ok_def by (auto split: option.splits intro: prefix_order.trans)

lemma holds_tables_cong:
  assumes "holds_tables d ts" and "\<And>q. fst q = SstDir \<Longrightarrow> disk_file d' q = disk_file d q"
  shows "holds_tables d' ts"
  using assms by (auto simp: holds_tables_def)

lemma holds_tables_snoc:
  assumes "holds_tables d ts" and "\<forall>i \<in> fst ` set ts. i < fid" and "unat fid < 10 ^ 6" and "storable ps"
    and "\<And>q. fst q = SstDir \<Longrightarrow> disk_file d' q = (if q = sst_path fid then Some (sst_bytes ps) else disk_file d q)"
  shows "holds_tables d' (ts @ [(fid, ps)])"
proof -
  have *: "disk_file d' (sst_path i) = (if i = fid then Some (sst_bytes ps) else disk_file d (sst_path i))" for i
    using assms(5) [of "sst_path i"] by simp
  have "(SstDir, name) \<in> insert (sst_path fid) (sst_path ` fst ` set ts)" if "disk_file d' (SstDir, name) \<noteq> None" for name
    using that assms(1) assms(5) [of "(SstDir, name)"] by (auto simp: holds_tables_def split: if_splits)
  moreover have "unat i < 10 ^ 6 \<and> storable qs \<and> disk_file d' (sst_path i) = Some (sst_bytes qs)"
    if "(i, qs) \<in> set ts" for i qs
  proof -
    have "i < fid" using assms(2) that by force
    then show ?thesis using assms(1) that by (auto simp: * holds_tables_def)
  qed
  moreover have "sorted_wrt (<) (map fst (ts @ [(fid, ps)]))"
    using assms(1,2) by (auto simp: holds_tables_def sorted_wrt_append)
  ultimately show ?thesis
    using assms(3,4) unfolding holds_tables_def by (auto simp: *)
qed

lemma flush_recovered_ok:
  assumes "faults d = []" and "storable (pairs (memTable db))" and "0 < mt_size (memTable db)"
    and "flush_recovered db d = (db', d')"
  shows "db' = db\<lparr>immTable := None, memTable := NewMemTable, nextFileID := nextFileID db + 1,
      sstables := sstables db @ [sst_meta (nextFileID db) (pairs (memTable db))]\<rparr>" (is ?db)
    and "faults d' = []"
    and "disk_file d' q =
      (if q = sst_path (nextFileID db) then Some (sst_bytes (pairs (memTable db)))
       else if q = manifest_path
       then Some ((case disk_file d manifest_path of None \<Rightarrow> [] | Some old \<Rightarrow> old) @ manifest_bytes [sstables db'])
       else disk_file d q)"
proof -
  have ne: "pairs (memTable db) \<noteq> []" using assms(2) by (simp add: storable_def)
  let ?d = "set_file (sst_path (nextFileID db)) (sst_bytes (pairs (memTable db))) d"
  have ok: "faults ?d = []" using assms(1) by simp
  have "?db \<and> d' = snd (persistManifest (sstables db') ?d)"
    using assms ne
    by (auto simp: flush_recovered_def flush_def reserveNextFileID_def writeSSTable_ok flush_meta_sst_meta
        installFlushedTable_def install_flushed_def Let_def delete_old_wal_def split: prod.splits)
  then show ?db "faults d' = []" "disk_file d' q =
      (if q = sst_path (nextFileID db) then Some (sst_bytes (pairs (memTable db)))
       else if q = manifest_path
       then Some ((case disk_file d manifest_path of None \<Rightarrow> [] | Some old \<Rightarrow> old) @ manifest_bytes [sstables db'])
       else disk_file d q)"
    using persistManifest_ok [OF ok] by auto
qed

text \<open>What an engine looks like when it has just been opened over the tables \<open>ts\<close>.\<close>

definition opened :: "Options \<Rightarrow> (u64 \<times> KVPair list) list \<Rightarrow> u64 \<Rightarrow> DB \<Rightarrow> disk \<Rightarrow> bool" where
  "opened opts ts c db d \<longleftrightarrow>
     faults d = [] \<and> holds_tables d ts \<and> manifest_ok d (metas ts) \<and> holds_logs complete d [(c, [])] \<and>
     (\<forall>i \<in> fst ` set ts. i < nextFileID db) \<and> c < walFileID db \<and>
     memTable db = NewMemTable \<and> immTable db = None \<and> sstables db = metas ts \<and>
     wal db = Some (Some (wal_path c)) \<and> nextwal db = None \<and> enableCompaction db = EnableCompaction opts"

lemma open_fresh_log:
  assumes "faults d = []" and "\<And>q. fst q = WalDir \<Longrightarrow> disk_file d q = None" and "unat c < 10 ^ 6"
  shows "OpenWAL (wal_path c) d = (Inr (Some (wal_path c)), set_file (wal_path c) [] d)"
    and "holds_logs complete (set_file (wal_path c) [] d) [(c, [])]"
  using assms by (auto simp: OpenWAL_def os_OpenAppend_def holds_logs_def complete_def)

lemma unat_less_Suc: "unat (i :: u64) < 10 ^ 6 \<Longrightarrow> i < i + 1"
  by (simp add: word_less_nat_alt unat_word_ariths)

lemma unat_Suc_small: "unat (i :: u64) < 10 ^ 6 \<Longrightarrow> unat (i + 1) = unat i + 1"
  by (simp add: unat_word_ariths)

lemma holds_logs_cong:
  assumes "holds_logs C d ls" and "\<And>q. fst q = WalDir \<Longrightarrow> disk_file d' q = disk_file d q"
  shows "holds_logs C d' ls"
  using assms by (auto simp: holds_logs_def)

lemma flush_recovered_state:
  assumes d: "faults d = []" "holds_tables d ts" "manifest_ok d (metas ts)" "holds_logs C d ls"
    and t: "mt_invar (memTable db)" "pairs_map (pairs (memTable db)) = last_writes ws"
    and ws: "\<forall>w \<in> set ws. write_ok w" "history_bytes ws < 2 ^ 61"
    and n: "1 \<le> nextFileID db" "\<forall>i \<in> fst ` set ts. i < nextFileID db" "unat (nextFileID db) < 10 ^ 6"
    and db: "sstables db = metas ts" "immTable db = None" and run: "flush_recovered db d = (db', d')"
  shows "\<exists>ts' n'. faults d' = [] \<and> holds_tables d' ts' \<and> manifest_ok d' (metas ts') \<and> holds_logs C d' ls \<and>
    stack ts' = stack ts ++ last_writes ws \<and> (\<forall>i \<in> fst ` set ts'. i < n') \<and> 1 \<le> n' \<and> n' \<le> nextFileID db + 1 \<and>
    db' = db\<lparr>memTable := NewMemTable, nextFileID := n', sstables := metas ts'\<rparr>"
proof (cases "mt_size (memTable db) > 0")
  case True
  let ?n = "nextFileID db" and ?ps = "pairs (memTable db)"
  let ?ts = "ts @ [(?n, ?ps)]"
  have "?ps \<noteq> []" using True t(1) by (auto simp: mt_invar_def)
  then have st: "storable ?ps" by (rule storable_table [OF t _ ws])
  note fl = flush_recovered_ok [OF d(1) st True run]
  have db': "db' = db\<lparr>memTable := NewMemTable, nextFileID := ?n + 1, sstables := metas ?ts\<rparr>"
    using fl(1) db by simp
  have "holds_tables d' ?ts"
    by (rule holds_tables_snoc [OF d(2) n(2,3) st]) (auto simp: fl(3) manifest_path_def)
  moreover have "manifest_ok d (metas ?ts)" by (rule manifest_ok_prefix [OF d(3)]) simp_all
  then have "manifest_ok d' (metas ?ts)"
    by (rule manifest_ok_append [where snap = "metas ?ts"]) (simp_all add: fl(3) db' del: manifest_bytes_simps)
  moreover have "holds_logs C d' ls"
    by (rule holds_logs_cong [OF d(4)]) (auto simp: fl(3) manifest_path_def sst_path_def)
  moreover have "?n < ?n + 1" using n(3) by (rule unat_less_Suc)
  then have "\<forall>i \<in> fst ` set ?ts. i < ?n + 1" "1 \<le> ?n + 1"
    using n(1,2) by (auto intro: less_trans order.strict_implies_order le_less_trans)
  ultimately show ?thesis
    using fl(2) t(2) db' by (intro exI [of _ ?ts] exI [of _ "?n + 1"]) simp
next
  case False
  have "\<forall>p \<in> set (pairs (memTable db)). Key p \<noteq> []"
    using table_of_history [OF t] ws(1) by (fastforce simp: write_ok_def kv_entry_def)
  then have empty: "pairs (memTable db) = []" using table_size_zero [OF t(1)] False by simp
  then have "memTable db = NewMemTable" using t(1) by (simp add: mt_invar_def NewMemTable_def)
  moreover have "last_writes ws = Map.empty" using t(2) empty by (auto simp: fun_eq_iff)
  moreover have "db' = db" "d' = d" using run False by (auto simp: flush_recovered_def)
  ultimately show ?thesis
    using d n db unat_less_Suc [OF n(3)] by (intro exI [of _ ts] exI [of _ "nextFileID db"]) (simp add: order.strict_implies_order)
qed

text \<open>What a startup needs: \<open>nf\<close> and \<open>nw\<close> bound the numbers of tables and logs.\<close>

definition restartable :: "disk \<Rightarrow> (u64 \<times> KVPair list) list \<Rightarrow> (u64 \<times> walop list) list \<Rightarrow> u64 \<Rightarrow> u64 \<Rightarrow> bool" where
  "restartable d ts ls nf nw \<longleftrightarrow>
     faults d = [] \<and> holds_tables d ts \<and> manifest_ok d (metas ts) \<and> holds_logs maybe_torn d ls \<and>
     (\<forall>w \<in> set (logged ls). write_ok w) \<and> history_bytes (logged ls) < 2 ^ 61 \<and>
     1 \<le> nf \<and> (\<forall>i \<in> fst ` set ts. i < nf) \<and> unat nf < 10 ^ 6 \<and>
     (\<forall>i \<in> fst ` set ls. i < nw) \<and> unat nw < 10 ^ 6"

text \<open>Startup up to the point where the replayed table has been written.\<close>

definition replayed :: "Options \<Rightarrow> disk \<Rightarrow> DB \<times> disk" where
  "replayed opts d =
     (case loadSSTables (initial_DB opts) d of (e, db1) \<Rightarrow>
      (case RecoverFromWAL db1 d of (db2, d2) \<Rightarrow> flush_recovered db2 d2))"

lemma NewDB_replayed:
  "NewDBWithOptions opts d =
     (case replayed opts d of (db3, d3) \<Rightarrow>
        case OpenWAL (wal_path (walFileID db3)) (removeAllOldWalFiles d3) of
          (r, d5) \<Rightarrow> (db3\<lparr>wal := (case r of Inl e \<Rightarrow> None | Inr w \<Rightarrow> Some w),
            walFileID := walFileID db3 + 1, walNotifyCh := True\<rparr>, d5))"
  by (simp add: NewDBWithOptions_def replayed_def Let_def split: prod.splits)

lemma replayed_ok:
  assumes "restartable d ts ls nf nw" and run: "replayed opts d = (db, d')"
  shows "\<exists>ts' n c. faults d' = [] \<and> holds_tables d' ts' \<and> manifest_ok d' (metas ts') \<and> holds_logs maybe_torn d' ls \<and>
    stack ts' = stack ts ++ last_writes (logged ls) \<and> (\<forall>i \<in> fst ` set ts'. i < n) \<and> 1 \<le> n \<and> n \<le> nf + 1 \<and> unat c < 10 ^ 6 \<and>
    db = (initial_DB opts)\<lparr>nextFileID := n, sstables := metas ts', walFileID := c\<rparr>"
proof -
  have R: "faults d = []" "holds_tables d ts" "manifest_ok d (metas ts)" "holds_logs maybe_torn d ls"
    "\<forall>w \<in> set (logged ls). write_ok w" "history_bytes (logged ls) < 2 ^ 61"
    "1 \<le> nf" "\<forall>i \<in> fst ` set ts. i < nf" "unat nf < 10 ^ 6" "\<forall>i \<in> fst ` set ls. i < nw" "unat nw < 10 ^ 6"
    using assms(1) by (simp_all add: restartable_def)
  obtain n where load: "loadSSTables (initial_DB opts) d = (None, (initial_DB opts)\<lparr>nextFileID := n, sstables := metas ts\<rparr>)"
    and n: "1 \<le> n" "\<forall>i \<in> fst ` set ts. i < n" "n \<le> nf"
    using loadSSTables_ok [OF R(2,3)] R(7,8) by metis
  define t where "t = mt.put_all (logged ls) NewMemTable"
  define c where "c = (if ls = [] then 1 else fst (last ls) + 1)"
  let ?db2 = "(initial_DB opts)\<lparr>nextFileID := n, sstables := metas ts, memTable := t, walFileID := c\<rparr>"
  have rec: "RecoverFromWAL ((initial_DB opts)\<lparr>nextFileID := n, sstables := metas ts\<rparr>) d = (?db2, d)"
    using RecoverFromWAL_ok [OF R(1,4)] by (simp add: initial_DB_def t_def c_def)
  have small: "unat n < 10 ^ 6" using n(3) R(9) by (simp add: word_le_nat_alt)
  have bound: "n + 1 \<le> nf + 1"
    using n(3) unat_Suc_small [OF small] unat_Suc_small [OF R(9)] by (simp add: word_le_nat_alt)
  have c: "unat c < 10 ^ 6"
  proof (cases "ls = []")
    case False
    then have "fst (last ls) < nw" using R(10) by auto
    then show ?thesis using R(11) unat_Suc_small [of "fst (last ls)"] False
      by (simp add: c_def word_less_nat_alt)
  qed (simp add: c_def)
  have t: "mt_invar t" "pairs_map (pairs t) = last_writes (logged ls)"
    using put_all_history [of NewMemTable "[]" "logged ls"] by (simp_all add: fun_eq_iff t_def)
  have fl: "flush_recovered ?db2 d = (db, d')" using run by (simp add: replayed_def load rec)
  have "\<exists>ts' n'. faults d' = [] \<and> holds_tables d' ts' \<and> manifest_ok d' (metas ts') \<and> holds_logs maybe_torn d' ls \<and>
      stack ts' = stack ts ++ last_writes (logged ls) \<and> (\<forall>i \<in> fst ` set ts'. i < n') \<and> 1 \<le> n' \<and> n' \<le> nextFileID ?db2 + 1 \<and>
      db = ?db2\<lparr>memTable := NewMemTable, nextFileID := n', sstables := metas ts'\<rparr>"
    by (rule flush_recovered_state [OF R(1-4) _ _ R(5,6) _ _ _ _ _ fl])
      (use t n small in \<open>simp_all add: initial_DB_def\<close>)
  then obtain ts' n' where ts': "faults d' = []" "holds_tables d' ts'" "manifest_ok d' (metas ts')" "holds_logs maybe_torn d' ls"
    "stack ts' = stack ts ++ last_writes (logged ls)" "\<forall>i \<in> fst ` set ts'. i < n'" "1 \<le> n'" "n' \<le> n + 1"
    and db: "db = ?db2\<lparr>memTable := NewMemTable, nextFileID := n', sstables := metas ts'\<rparr>"
    by auto
  have "n' \<le> nf + 1" using ts'(8) bound by (rule order_trans)
  with ts' c db show ?thesis
    by (intro exI [of _ ts'] exI [of _ n'] exI [of _ c]) (simp add: initial_DB_def)
qed

lemma NewDB_recovers:
  assumes "restartable d ts ls nf nw" and run: "NewDBWithOptions opts d = (db, d')"
  shows "\<exists>ts' c. opened opts ts' c db d' \<and> stack ts' = stack ts ++ last_writes (logged ls) \<and>
    walNotifyCh db \<and> 1 \<le> nextFileID db"
proof -
  obtain db3 d3 where rep: "replayed opts d = (db3, d3)" by (rule prod.exhaust)
  obtain ts' n' c where ts': "faults d3 = []" "holds_tables d3 ts'" "manifest_ok d3 (metas ts')" "holds_logs maybe_torn d3 ls"
    "stack ts' = stack ts ++ last_writes (logged ls)" "\<forall>i \<in> fst ` set ts'. i < n'" "1 \<le> n'" "unat c < 10 ^ 6"
    and db3: "db3 = (initial_DB opts)\<lparr>nextFileID := n', sstables := metas ts', walFileID := c\<rparr>"
    using replayed_ok [OF assms(1) rep] by blast
  define d4 where "d4 = removeAllOldWalFiles d3"
  note rm = removeAllOldWalFiles_ok [OF ts'(1,4), folded d4_def]
  have o: "OpenWAL (wal_path c) d4 = (Inr (Some (wal_path c)), set_file (wal_path c) [] d4)"
    "holds_logs complete (set_file (wal_path c) [] d4) [(c, [])]"
    by (rule open_fresh_log [OF rm(1) _ ts'(8)]; simp add: rm)+
  have db: "db = db3\<lparr>wal := Some (Some (wal_path c)), walFileID := c + 1, walNotifyCh := True\<rparr>"
    and d': "d' = set_file (wal_path c) [] d4"
    using run by (auto simp: NewDB_replayed rep o(1) d4_def [symmetric] db3)
  have tables: "holds_tables d' ts'"
    by (rule holds_tables_cong [OF ts'(2)]) (auto simp: d' rm(2) wal_path_def)
  have "manifest_ok d' (metas ts')"
    by (rule manifest_ok_prefix [OF ts'(3)]) (simp_all add: d' rm(2) manifest_path_def wal_path_def)
  with tables have "opened opts ts' c db d'"
    using ts'(6) rm(1) o(2) unat_less_Suc [OF ts'(8)] by (simp add: opened_def d' db db3 initial_DB_def)
  then show ?thesis using ts'(5,7) by (auto simp: db db3)
qed

section \<open>Startups that crash\<close>

text \<open>A startup that was interrupted when it had removed \<open>m\<close> of the logs. Before it writes the
  replayed table it does not change the disk.\<close>

definition interrupted_startup :: "Options \<Rightarrow> nat \<Rightarrow> disk \<Rightarrow> disk" where
  "interrupted_startup opts m d =
     (case replayed opts d of (db, d') \<Rightarrow> remove_logs (take m (os_ReadDir WalDir d')) d')"

text \<open>The disk holds a history: the tables all of it but an end of the logs.\<close>

definition recoverable :: "disk \<Rightarrow> kv_write list \<Rightarrow> u64 \<Rightarrow> u64 \<Rightarrow> bool" where
  "recoverable d h nf nw \<longleftrightarrow>
     (\<exists>ts ls base us vs. restartable d ts ls nf nw \<and> h = base @ logged ls \<and> logged ls = us @ vs \<and>
        stack ts = last_writes (base @ us))"

lemma recoverable_stack:
  assumes "h = base @ logged ls" and "logged ls = us @ vs" and "stack ts = last_writes (base @ us)"
  shows "stack ts ++ last_writes (logged ls) = last_writes h"
  unfolding assms by (rule last_writes_again)

lemma recoverable_restart:
  assumes "recoverable d h nf nw" and "NewDBWithOptions opts d = (db, d')"
  shows "\<exists>ts c. opened opts ts c db d' \<and> stack ts = last_writes h \<and> 1 \<le> nextFileID db"
proof -
  obtain ts ls base us vs where r: "restartable d ts ls nf nw"
    and h: "h = base @ logged ls" "logged ls = us @ vs" "stack ts = last_writes (base @ us)"
    using assms(1) by (auto simp: recoverable_def)
  show ?thesis using NewDB_recovers [OF r assms(2)] recoverable_stack [OF h] by auto
qed

lemma logged_drop: "logged ls = logged (take m ls) @ logged (drop m ls)"
  by (metis append_take_drop_id logged_simps(3))

lemma restartable_interrupted:
  assumes "restartable d ts ls nf nw" and "unat nf + 1 < 10 ^ 6"
  shows "\<exists>ts'. restartable (interrupted_startup opts m d) ts' (drop m ls) (nf + 1) nw \<and>
    stack ts' = stack ts ++ last_writes (logged ls)"
proof -
  have R: "\<forall>w \<in> set (logged ls). write_ok w" "history_bytes (logged ls) < 2 ^ 61"
    "\<forall>i \<in> fst ` set ls. i < nw" "unat nw < 10 ^ 6" "unat nf < 10 ^ 6" "1 \<le> nf"
    using assms(1) by (simp_all add: restartable_def)
  obtain db d' where rep: "replayed opts d = (db, d')" by (rule prod.exhaust)
  obtain ts' n c where ts': "faults d' = []" "holds_tables d' ts'" "manifest_ok d' (metas ts')" "holds_logs maybe_torn d' ls"
    "stack ts' = stack ts ++ last_writes (logged ls)" "\<forall>i \<in> fst ` set ts'. i < n" "n \<le> nf + 1"
    using replayed_ok [OF assms(1) rep] by blast
  let ?names = "take m (os_ReadDir WalDir d')"
  have ext: "\<forall>name \<in> set ?names. filepath_Ext name = ''.log''"
    using wal_names [OF ts'(4)] in_set_takeD by fastforce
  note rm = remove_logs_ok [OF ts'(1) ext]
  let ?d = "remove_logs ?names d'"
  have d: "interrupted_startup opts m d = ?d" by (simp add: interrupted_startup_def rep)
  have "holds_tables ?d ts'" by (rule holds_tables_cong [OF ts'(2)]) (simp add: rm)
  moreover have "manifest_ok ?d (metas ts')"
    by (rule manifest_ok_prefix [OF ts'(3)]) (simp_all add: rm manifest_path_def)
  moreover have "holds_logs maybe_torn ?d (drop m ls)" by (rule remove_oldest_logs [OF ts'(1,4)])
  moreover have "\<forall>w \<in> set (logged (drop m ls)). write_ok w" "history_bytes (logged (drop m ls)) < 2 ^ 61"
    using R(1,2) logged_drop [of ls m] by (auto simp: history_bytes_def)
  moreover have "\<forall>i \<in> fst ` set (drop m ls). i < nw" using R(3) by (auto dest: in_set_dropD)
  moreover have "unat (nf + 1) < 10 ^ 6" "1 \<le> nf + 1" "\<forall>i \<in> fst ` set ts'. i < nf + 1"
    using assms(2) unat_Suc_small [OF R(5)] ts'(6,7) by (auto simp: word_le_nat_alt intro: less_le_trans)
  ultimately show ?thesis using ts'(5) R(4) rm(1) unfolding d restartable_def by blast
qed

lemma recoverable_interrupted:
  assumes "recoverable d h nf nw" and "unat nf + 1 < 10 ^ 6"
  shows "recoverable (interrupted_startup opts m d) h (nf + 1) nw"
proof -
  obtain ts ls base us vs where r: "restartable d ts ls nf nw"
    and h: "h = base @ logged ls" "logged ls = us @ vs" "stack ts = last_writes (base @ us)"
    using assms(1) by (auto simp: recoverable_def)
  obtain ts' where "restartable (interrupted_startup opts m d) ts' (drop m ls) (nf + 1) nw"
    "stack ts' = last_writes h"
    using restartable_interrupted [OF r assms(2)] recoverable_stack [OF h] by auto
  moreover have "h = (base @ logged (take m ls)) @ logged (drop m ls)" using h(1) logged_drop [of ls m] by simp
  ultimately show ?thesis
    unfolding recoverable_def
    by (intro exI [of _ ts'] exI [of _ "drop m ls"] exI [of _ "base @ logged (take m ls)"]
        exI [of _ "logged (drop m ls)"] exI [of _ "[]"]) simp
qed

text \<open>Any number of startups may fail before one succeeds.\<close>

lemma recoverable_startups:
  "recoverable d h nf nw \<Longrightarrow> unat nf + length ms < 10 ^ 6 \<Longrightarrow>
   \<exists>nf'. recoverable (fold (interrupted_startup opts) ms d) h nf' nw"
proof (induction ms arbitrary: d nf)
  case (Cons m ms)
  have "unat (nf + 1) = unat nf + 1" using Cons.prems(2) by (intro unat_Suc_small) simp
  then show ?case
    using Cons.IH [OF recoverable_interrupted [OF Cons.prems(1)]] Cons.prems(2) by simp
qed auto

end
