(* ===== verification/Transition.thy ===== *)
theory Transition
  imports Main
begin

text \<open>
  Transition systems: the states that can be reached from an initial one, and the rule for invariants. The
  cluster of Raft peers and the storage engine with its background jobs are instances.
\<close>

locale transition_system =
  fixes initial :: "'s \<Rightarrow> bool"
    and step :: "'s \<Rightarrow> 's \<Rightarrow> bool"
begin

inductive reach :: "'s \<Rightarrow> bool" where
  start: "initial s \<Longrightarrow> reach s"
| next_state: "reach s \<Longrightarrow> step s s' \<Longrightarrow> reach s'"

lemma invariant:
  assumes "reach s" and "\<And>s. initial s \<Longrightarrow> I s"
    and "\<And>s s'. reach s \<Longrightarrow> I s \<Longrightarrow> step s s' \<Longrightarrow> I s'"
  shows "I s"
  using assms(1) by induction (blast intro: assms(2,3))+

lemma reach_steps:
  assumes "step\<^sup>*\<^sup>* s s'" and "reach s"
  shows "reach s'"
  using assms by induction (auto intro: next_state)

end

end
