(* ===== verification/Durability.thy ===== *)
theory Durability
  imports Recovery Transition
begin

text \<open>
  The engine with its background goroutines and crashes. A flush in progress is a value of type \<open>flusher\<close>:
  \<open>run_flusher\<close> does its next section, and running all sections without interruption is
  \<open>flush\<close>. The step relation interleaves them with writes, reads and the log pre-allocator; a crash may tear
  the record that is being appended, drops everything in memory, and the engine starts again from the
  disk. System calls succeed. Compaction is off, as with \<^verbatim>\<open>RAFT_LSM_COMPACTION=false\<close>, and the
  old logs are removed in the order in which their flushes began.

  The invariant \<open>durable\<close> relates the layers and the files to the history of acknowledged writes. The
  main lemma is that every reachable engine reads as the last writes of its history.
\<close>

section \<open>Sections of a flush\<close>

datatype flusher =
    Fresh MemTable "WAL option"
  | Written SSTableMeta "WAL option"
  | Installed "SSTableMeta list" "WAL option"
  | Listed "WAL option"

fun run_flusher :: "flusher \<Rightarrow> DB \<Rightarrow> disk \<Rightarrow> flusher option \<times> DB \<times> disk" where
  "run_flusher (Fresh imm oldWal) db d =
     (if length (pairs imm) = 0 then (None, db, d)
      else (case reserveNextFileID db of
              (fileID, db1) \<Rightarrow>
                (case writeSSTable (sst_path fileID) (pairs imm) d of
                   ((sz, index, Some e), d1) \<Rightarrow> (None, db1, d1)
                 | ((sz, index, None), d1) \<Rightarrow>
                     (Some (Written (flush_meta fileID imm sz index) oldWal), db1, d1))))"
| "run_flusher (Written meta oldWal) db d =
     (case install_flushed meta db of (snapshot, db') \<Rightarrow> (Some (Installed snapshot oldWal), db', d))"
| "run_flusher (Installed snapshot oldWal) db d =
     (case persistManifest snapshot d of (e, d1) \<Rightarrow> (Some (Listed oldWal), db, d1))"
| "run_flusher (Listed oldWal) db d = (None, db, delete_old_wal oldWal d)"

fun run_sections :: "nat \<Rightarrow> flusher option \<times> DB \<times> disk \<Rightarrow> DB \<times> disk" where
  "run_sections 0 (fo, db, d) = (db, d)"
| "run_sections (Suc n) (None, db, d) = (db, d)"
| "run_sections (Suc n) (Some f, db, d) = run_sections n (run_flusher f db d)"

lemma flush_sections: "flush (Some imm) oldWal db d = run_sections 4 (Some (Fresh imm oldWal), db, d)"
  by (auto simp: flush_def installFlushedTable_def eval_nat_numeral split: prod.splits option.splits)

section \<open>The step relation\<close>

record sys =
  sys_db :: DB
  sys_disk :: disk
  flushers :: "flusher list"
  history :: "kv_write list"

definition started :: "flush_job option \<Rightarrow> flusher list" where
  "started job = (case job of None \<Rightarrow> [] | Some (imm, oldWal) \<Rightarrow> [Fresh imm oldWal])"

definition remaining :: "flusher option \<Rightarrow> flusher list" where
  "remaining fo = (case fo of None \<Rightarrow> [] | Some f \<Rightarrow> [f])"

definition is_Listed :: "flusher \<Rightarrow> bool" where
  "is_Listed f = (case f of Listed w \<Rightarrow> True | _ \<Rightarrow> False)"

definition restart :: "disk \<Rightarrow> DB \<times> disk" where
  "restart d = NewDBWithOptions \<lparr>EnableCompaction = False\<rparr> d"

text \<open>The first \<open>n\<close> bytes of a record that was being appended to the current log.\<close>

definition torn_write :: "walop \<Rightarrow> nat \<Rightarrow> DB \<Rightarrow> disk \<Rightarrow> disk" where
  "torn_write x n db d =
     (case wal db of Some (Some p) \<Rightarrow> append_file p (take n (wal_record x)) d | _ \<Rightarrow> d)"

text \<open>What a crash leaves behind for the first startup that succeeds: the startups before it, one for each
  number in \<open>ms\<close>, were interrupted in turn.\<close>

definition left_behind :: "walop \<Rightarrow> nat \<Rightarrow> nat list \<Rightarrow> sys \<Rightarrow> disk" where
  "left_behind x n ms s =
     fold (interrupted_startup \<lparr>EnableCompaction = False\<rparr>) ms (torn_write x n (sys_db s) (sys_disk s))"

inductive engine_step :: "sys \<Rightarrow> sys \<Rightarrow> bool" where
  put: "DB_Put k v (sys_db s) (sys_disk s) = ((err, job), db, d) \<Longrightarrow> write_ok (k, Some v) \<Longrightarrow>
    engine_step s \<lparr>sys_db = db, sys_disk = d, flushers = flushers s @ started job,
      history = history s @ (if err = None then [(k, Some v)] else [])\<rparr>"
| delete: "DB_Delete k (sys_db s) (sys_disk s) = ((err, job), db, d) \<Longrightarrow> write_ok (k, None) \<Longrightarrow>
    engine_step s \<lparr>sys_db = db, sys_disk = d, flushers = flushers s @ started job,
      history = history s @ (if err = None then [(k, None)] else [])\<rparr>"
| get: "DB_Get k (sys_db s) (sys_disk s) = (r, db) \<Longrightarrow> engine_step s (s\<lparr>sys_db := db\<rparr>)"
| allocate: "walPreAllocator (sys_db s) (sys_disk s) = (db, d) \<Longrightarrow>
    engine_step s (s\<lparr>sys_db := db, sys_disk := d\<rparr>)"
| flush: "flushers s = fs @ f # gs \<Longrightarrow> is_Listed f \<longrightarrow> fs = [] \<Longrightarrow>
    run_flusher f (sys_db s) (sys_disk s) = (fo, db, d) \<Longrightarrow>
    engine_step s (s\<lparr>sys_db := db, sys_disk := d, flushers := fs @ remaining fo @ gs\<rparr>)"
| compaction: "compaction_tick ns (sys_db s) (sys_disk s) = (db, d) \<Longrightarrow>
    engine_step s (s\<lparr>sys_db := db, sys_disk := d\<rparr>)"
| crash: "walop_ok x \<Longrightarrow> write_ok (walop_write x) \<Longrightarrow>
    unat (nextFileID (sys_db s)) + length ms < 10 ^ 6 \<Longrightarrow> restart (left_behind x n ms s) = (db, d) \<Longrightarrow>
    engine_step s \<lparr>sys_db = db, sys_disk = d, flushers = [],
      history = history s @ (if length (wal_record x) \<le> n then [walop_write x] else [])\<rparr>"

definition initial_sys :: "sys \<Rightarrow> bool" where
  "initial_sys s \<longleftrightarrow> flushers s = [] \<and> history s = [] \<and>
     restart \<lparr>files = [], faults = []\<rparr> = (sys_db s, sys_disk s)"

text \<open>File numbers have six digits, and the sizes of tables must fit their 64-bit fields.\<close>

definition within_limits :: "sys \<Rightarrow> bool" where
  "within_limits s \<longleftrightarrow> unat (nextFileID (sys_db s)) < 10 ^ 6 \<and> unat (walFileID (sys_db s)) < 10 ^ 6 \<and>
     history_bytes (history s) < 2 ^ 60"

definition limited_step :: "sys \<Rightarrow> sys \<Rightarrow> bool" where
  "limited_step s s' \<longleftrightarrow> within_limits s \<and> engine_step s s'"

interpretation engine: transition_system initial_sys limited_step .

section \<open>The files\<close>

definition layout ::
  "disk \<Rightarrow> (u64 \<times> KVPair list) list \<Rightarrow> (u64 \<times> KVPair list) list \<Rightarrow> (u64 \<times> walop list) list \<Rightarrow> u64 \<Rightarrow> u64 \<Rightarrow> bool"
where
  "layout d ts un ls nf nw \<longleftrightarrow>
     faults d = [] \<and> holds_tables d (ts @ un) \<and> manifest_ok d (metas ts) \<and> holds_logs complete d ls \<and>
     1 \<le> nf \<and> (\<forall>i \<in> fst ` set (ts @ un). i < nf) \<and> (\<forall>i \<in> fst ` set ls. i < nw)"

lemma layout_cong:
  assumes "layout d ts un ls nf nw" and "faults d' = []" and "holds_logs complete d' ls'"
    and "\<forall>i \<in> fst ` set ls'. i < nw'" and "\<And>q. fst q \<noteq> WalDir \<Longrightarrow> disk_file d' q = disk_file d q"
  shows "layout d' ts un ls' nf nw'"
proof -
  have "holds_tables d' (ts @ un)"
    by (rule holds_tables_cong [of d]) (use assms(1,5) in \<open>auto simp: layout_def\<close>)
  moreover have "manifest_ok d' (metas ts)"
    by (rule manifest_ok_prefix [of d "metas ts"]) (use assms(1,5) in \<open>simp_all add: layout_def manifest_path_def\<close>)
  ultimately show ?thesis using assms by (simp add: layout_def)
qed

lemma logs_at:
  assumes "holds_logs complete d (before @ (c, ops) # after)"
  shows "disk_file d (wal_path c) = Some (wal_bytes ops)" "\<forall>y \<in> set ops. walop_ok y" "unat c < 10 ^ 6"
    and "(i, ops') \<in> set (before @ after) \<Longrightarrow> i \<noteq> c"
proof -
  show "disk_file d (wal_path c) = Some (wal_bytes ops)" "\<forall>y \<in> set ops. walop_ok y" "unat c < 10 ^ 6"
    using assms by (auto simp: holds_logs_def complete_def)
  have "distinct (map fst (before @ (c, ops) # after))"
    by (rule sorted_ids_distinct) (use assms in \<open>simp add: holds_logs_def\<close>)
  then show "(i, ops') \<in> set (before @ after) \<Longrightarrow> i \<noteq> c" by force
qed

text \<open>Changing one log.\<close>

lemma log_replaced:
  assumes "holds_logs complete d (before @ (c, ops) # after)" and "C' ops' bs"
    and "\<And>ops bs. complete ops bs \<Longrightarrow> C' ops bs"
    and "\<And>q. disk_file d' q = (if q = wal_path c then Some bs else disk_file d q)"
  shows "holds_logs C' d' (before @ (c, ops') # after)"
proof -
  note at = logs_at [OF assms(1)]
  have "unat i < 10 ^ 6 \<and> (\<exists>bs. disk_file d' (wal_path i) = Some bs \<and> C' o' bs)"
    if "(i, o') \<in> set (before @ (c, ops') # after)" for i o'
  proof (cases "i = c")
    case True
    with that at(4) have "o' = ops'" by auto
    with True show ?thesis using at(3) assms(2,4) by simp
  next
    case False
    with that have "(i, o') \<in> set (before @ (c, ops) # after)" by auto
    then obtain b where "unat i < 10 ^ 6" "disk_file d (wal_path i) = Some b" "complete o' b"
      using assms(1) unfolding holds_logs_def by blast
    with False assms(3) [of o' b] show ?thesis by (simp add: assms(4))
  qed
  moreover have "(WalDir, name) \<in> wal_path ` fst ` set (before @ (c, ops') # after)"
    if "disk_file d' (WalDir, name) \<noteq> None" for name
    using that assms(1) by (auto simp: holds_logs_def assms(4) split: if_splits)
  ultimately show ?thesis
    using assms(1) unfolding holds_logs_def by auto
qed

lemma layout_append_log:
  assumes "layout d ts un (before @ (c, ops) # after) nf nw" and "walop_ok x"
  shows "layout (append_file (wal_path c) (wal_record x) d) ts un (before @ (c, ops @ [x]) # after) nf nw"
proof (rule layout_cong [OF assms(1)])
  have logs: "holds_logs complete d (before @ (c, ops) # after)" using assms(1) by (simp add: layout_def)
  note at = logs_at [OF logs]
  show "holds_logs complete (append_file (wal_path c) (wal_record x) d) (before @ (c, ops @ [x]) # after)"
    by (rule log_replaced [OF logs, of _ _ "wal_bytes (ops @ [x])"])
      (use at(1,2) assms(2) in \<open>auto simp: complete_def disk_file_append\<close>)
qed (use assms(1) in \<open>auto simp: layout_def disk_file_append wal_path_def\<close>)

lemma layout_new_log:
  assumes "layout d ts un ls nf nw" and "unat nw < 10 ^ 6"
  shows "layout (set_file (wal_path nw) [] d) ts un (ls @ [(nw, [])]) nf (nw + 1)"
proof (rule layout_cong [OF assms(1)])
  have logs: "holds_logs complete d ls" and lt: "\<forall>i \<in> fst ` set ls. i < nw"
    using assms(1) by (auto simp: layout_def)
  have "unat i < 10 ^ 6 \<and> (\<exists>bs. disk_file (set_file (wal_path nw) [] d) (wal_path i) = Some bs \<and> complete o' bs)"
    if "(i, o') \<in> set ls" for i o'
  proof -
    have "i \<noteq> nw" using lt that by force
    with that logs show ?thesis by (auto simp: holds_logs_def)
  qed
  moreover have "sorted_wrt (<) (map fst (ls @ [(nw, [])]))"
    using logs lt by (auto simp: holds_logs_def sorted_wrt_append)
  moreover have "(WalDir, name) \<in> wal_path ` fst ` set (ls @ [(nw, [])])"
    if "disk_file (set_file (wal_path nw) [] d) (WalDir, name) \<noteq> None" for name
    using that logs by (auto simp: holds_logs_def split: if_splits)
  ultimately show "holds_logs complete (set_file (wal_path nw) [] d) (ls @ [(nw, [])])"
    using assms(2) by (auto simp: holds_logs_def complete_def)
  show "\<forall>i \<in> fst ` set (ls @ [(nw, [])]). i < nw + 1"
    using lt unat_less_Suc [OF assms(2)] by (auto intro: less_trans)
qed (use assms(1) in \<open>auto simp: layout_def wal_path_def\<close>)

lemma delete_old_wal_ok:
  assumes "faults d = []"
  shows "faults (delete_old_wal (Some (Some p)) d) = []"
    and "disk_file (delete_old_wal (Some (Some p)) d) q = (if q = p then None else disk_file d q)"
proof -
  have "delete_old_wal (Some (Some p)) d = snd (os_Remove p d)"
    using assms by (simp add: delete_old_wal_def WAL_Delete_def split: prod.splits option.splits)
  then show "faults (delete_old_wal (Some (Some p)) d) = []"
    "disk_file (delete_old_wal (Some (Some p)) d) q = (if q = p then None else disk_file d q)"
    using os_Remove_ok [OF assms] by simp_all
qed

lemma logs_remove:
  assumes "faults d = []" and "holds_logs complete d (before @ (i, ops) # after)"
  shows "holds_logs complete (delete_old_wal (Some (Some (wal_path i))) d) (before @ after)"
proof -
  let ?d = "delete_old_wal (Some (Some (wal_path i))) d"
  note at = logs_at [OF assms(2)] and rm = delete_old_wal_ok [OF assms(1), of "wal_path i"]
  have "unat j < 10 ^ 6 \<and> (\<exists>bs. disk_file ?d (wal_path j) = Some bs \<and> complete o' bs)"
    if "(j, o') \<in> set (before @ after)" for j o'
  proof -
    have "(j, o') \<in> set (before @ (i, ops) # after)" using that by auto
    then have "unat j < 10 ^ 6 \<and> (\<exists>bs. disk_file d (wal_path j) = Some bs \<and> complete o' bs)"
      using assms(2) unfolding holds_logs_def by blast
    then show ?thesis using at(4) [OF that] by (simp add: rm)
  qed
  moreover have "(WalDir, name) \<in> wal_path ` fst ` set (before @ after)"
    if "disk_file ?d (WalDir, name) \<noteq> None" for name
    using that assms(2) by (auto simp: holds_logs_def rm split: if_splits)
  ultimately show ?thesis
    using assms(2) by (auto simp: holds_logs_def sorted_wrt_append)
qed

lemma layout_drop_log:
  assumes "layout d ts un ((i, ops) # ls) nf nw"
  shows "layout (delete_old_wal (Some (Some (wal_path i))) d) ts un ls nf nw"
proof (rule layout_cong [OF assms])
  have ok: "faults d = []" using assms by (simp add: layout_def)
  show "holds_logs complete (delete_old_wal (Some (Some (wal_path i))) d) ls"
    using logs_remove [OF ok, of "[]" i ops ls] assms by (simp add: layout_def)
  show "faults (delete_old_wal (Some (Some (wal_path i))) d) = []" by (rule delete_old_wal_ok [OF ok])
  show "disk_file (delete_old_wal (Some (Some (wal_path i))) d) q = disk_file d q" if "fst q \<noteq> WalDir" for q
    using that delete_old_wal_ok(2) [OF ok] by auto
qed (use assms in \<open>simp add: layout_def\<close>)

lemma layout_write_table:
  assumes "layout d ts [] ls nf nw" and "storable ps" and "unat nf < 10 ^ 6"
  shows "layout (set_file (sst_path nf) (sst_bytes ps) d) ts [(nf, ps)] ls (nf + 1) nw"
proof -
  let ?d = "set_file (sst_path nf) (sst_bytes ps) d"
  have tables: "holds_tables d ts" and lt: "\<forall>i \<in> fst ` set ts. i < nf" "1 \<le> nf" using assms(1) by (auto simp: layout_def)
  have lt': "nf < nf + 1" by (rule unat_less_Suc [OF assms(3)])
  have "holds_tables ?d (ts @ [(nf, ps)])" by (rule holds_tables_snoc [OF tables lt(1) assms(3,2)]) simp
  moreover have "manifest_ok ?d (metas ts)"
    by (rule manifest_ok_prefix [of d "metas ts"]) (use assms(1) in \<open>simp_all add: layout_def\<close>)
  moreover have "holds_logs complete ?d ls"
    by (rule holds_logs_cong [of _ d]) (use assms(1) in \<open>auto simp: layout_def sst_path_def\<close>)
  moreover have "\<forall>i \<in> fst ` set (ts @ [(nf, ps)]). i < nf + 1" "1 \<le> nf + 1"
    using lt lt' by (auto intro: less_trans order.strict_implies_order le_less_trans)
  ultimately show ?thesis using assms(1) by (simp add: layout_def)
qed

lemma layout_install:
  assumes "layout d ts un ls nf nw"
  shows "layout d (ts @ un) [] ls nf nw"
  using assms manifest_ok_prefix [of d "metas ts" "metas (ts @ un)" d] by (simp add: layout_def)

lemma layout_manifest:
  assumes "layout d ts un ls nf nw" and "snap \<noteq> []" and "prefix snap (metas ts)"
  shows "layout (snd (persistManifest snap d)) ts un ls nf nw"
proof -
  have ok: "faults d = []" using assms(1) by (simp add: layout_def)
  note pm = persistManifest_ok [OF ok, of snap]
  have "manifest_ok (snd (persistManifest snap d)) (metas ts)"
    by (rule manifest_ok_append [of d "metas ts" snap]) (use assms in \<open>simp_all add: layout_def pm(3) del: manifest_bytes_simps\<close>)
  moreover have "holds_tables (snd (persistManifest snap d)) (ts @ un)"
    by (rule holds_tables_cong [of d]) (use assms(1) in \<open>auto simp: layout_def pm(3) manifest_path_def\<close>)
  moreover have "holds_logs complete (snd (persistManifest snap d)) ls"
    by (rule holds_logs_cong [of _ d]) (use assms(1) in \<open>auto simp: layout_def pm(3) manifest_path_def\<close>)
  ultimately show ?thesis using assms(1) pm(2) by (simp add: layout_def)
qed

section \<open>The invariant\<close>

definition log_handle :: "u64 \<times> walop list \<Rightarrow> WAL option" where
  "log_handle l = Some (Some (wal_path (fst l)))"

definition log_writes :: "u64 \<times> walop list \<Rightarrow> kv_write list" where
  "log_writes l = map walop_write (snd l)"

definition holds_writes :: "MemTable \<Rightarrow> u64 \<times> walop list \<Rightarrow> bool" where
  "holds_writes t l \<longleftrightarrow> mt_invar t \<and> pairs_map (pairs t) = last_writes (log_writes l)"

text \<open>A flush whose table is installed, and the flush whose table is not: there is at most one.\<close>

fun after_install :: "SSTableMeta list \<Rightarrow> flusher \<Rightarrow> u64 \<times> walop list \<Rightarrow> bool" where
  "after_install ms (Installed snap w) l \<longleftrightarrow> w = log_handle l \<and> snap \<noteq> [] \<and> prefix snap ms"
| "after_install ms (Listed w) l \<longleftrightarrow> w = log_handle l"
| "after_install ms f l \<longleftrightarrow> False"

inductive before_install ::
  "MemTable option \<Rightarrow> (u64 \<times> walop list) list \<Rightarrow> flusher list \<Rightarrow> (u64 \<times> KVPair list) list \<Rightarrow> bool"
where
  idle: "before_install None [] [] []"
| fresh: "holds_writes imm l \<Longrightarrow> pairs imm \<noteq> [] \<Longrightarrow> before_install (Some imm) [l] [Fresh imm (log_handle l)] []"
| written: "holds_writes imm l \<Longrightarrow> pairs imm \<noteq> [] \<Longrightarrow>
    before_install (Some imm) [l] [Written (sst_meta fid (pairs imm)) (log_handle l)] [(fid, pairs imm)]"

inductive spare_log :: "DB \<Rightarrow> (u64 \<times> walop list) list \<Rightarrow> bool" where
  none: "nextwal db = None \<Longrightarrow> spare_log db []"
| one: "nextwal db = log_handle (i, []) \<Longrightarrow> \<not> walNotifyCh db \<Longrightarrow> spare_log db [(i, [])]"

definition engine_ok :: "DB \<Rightarrow> (u64 \<times> KVPair list) list \<Rightarrow> u64 \<times> walop list \<Rightarrow> (u64 \<times> walop list) list \<Rightarrow> bool" where
  "engine_ok db ts cur nx \<longleftrightarrow>
     \<not> enableCompaction db \<and> sstables db = metas ts \<and> wal db = log_handle cur \<and> spare_log db nx \<and>
     holds_writes (memTable db) cur"

text \<open>The tables hold everything up to the logs that are still on disk and whose flush was installed.\<close>

definition history_ok ::
  "kv_write list \<Rightarrow> (u64 \<times> KVPair list) list \<Rightarrow> kv_write list \<Rightarrow> (u64 \<times> walop list) list \<Rightarrow>
   (u64 \<times> walop list) list \<Rightarrow> bool"
where
  "history_ok h ts base old new \<longleftrightarrow>
     stack ts = last_writes (base @ logged old) \<and> h = base @ logged (old @ new) \<and> (\<forall>w \<in> set h. write_ok w)"

definition durable_with where
  "durable_with s ts un base old po cur nx fs ps \<longleftrightarrow>
     layout (sys_disk s) ts un (old @ po @ cur # nx) (nextFileID (sys_db s)) (walFileID (sys_db s)) \<and>
     engine_ok (sys_db s) ts cur nx \<and>
     flushers s = fs @ ps \<and> list_all2 (after_install (metas ts)) fs old \<and>
     before_install (immTable (sys_db s)) po ps un \<and>
     history_ok (history s) ts base old (po @ [cur])"

definition durable :: "sys \<Rightarrow> bool" where
  "durable s \<longleftrightarrow> (\<exists>ts un base old po cur nx fs ps. durable_with s ts un base old po cur nx fs ps)"

section \<open>Reads\<close>

lemma durable_view:
  assumes "durable_with s ts un base old po cur nx fs ps"
  shows "db_view (sys_db s) (sys_disk s) = last_writes (history s)" and "db_inv (sys_db s) (sys_disk s)"
proof -
  have l: "holds_tables (sys_disk s) (ts @ un)" "\<forall>i \<in> fst ` set (ts @ un). i < nextFileID (sys_db s)"
    and e: "sstables (sys_db s) = metas ts" "wal (sys_db s) = log_handle cur" "spare_log (sys_db s) nx"
      "holds_writes (memTable (sys_db s)) cur"
    and b: "before_install (immTable (sys_db s)) po ps un"
    and h: "stack ts = last_writes (base @ logged old)" "history s = base @ logged (old @ po @ [cur])"
    using assms by (auto simp: durable_with_def layout_def engine_ok_def history_ok_def)
  note tables = holds_tables_ok [OF l(1), of ts]
  have mem: "mem_view (immTable (sys_db s)) = last_writes (logged po)"
    using b by cases (auto simp: mem_view_def holds_writes_def log_writes_def)
  have "db_view (sys_db s) (sys_disk s) = stack ts ++ last_writes (logged po) ++ last_writes (log_writes cur)"
    using tables(2) e(4) mem by (simp add: db_view_def layered_add e(1) holds_writes_def)
  then show "db_view (sys_db s) (sys_disk s) = last_writes (history s)"
    by (simp add: h log_writes_def)
  have imm: "immTable (sys_db s) = Some m \<Longrightarrow> mt_invar m" for m
    using b by cases (auto simp: holds_writes_def)
  have next_ok: "handle_ok (nextwal (sys_db s))"
    using e(3) by cases (auto simp: handle_ok_def log_handle_def)
  have "sorted_wrt (<) (map fst ts)" using l(1) by (simp add: holds_tables_def sorted_wrt_append)
  then have "distinct (map sm_FileID (metas ts))" using sorted_ids_distinct by simp
  moreover have "list_all (\<lambda>m. sm_FileID m < nextFileID (sys_db s)) (metas ts)"
    using l(2) by (force simp: list_all_iff metas_def sst_meta_def)
  ultimately show "db_inv (sys_db s) (sys_disk s)"
    using tables(1) e imm next_ok
    by (auto simp: db_inv_def holds_writes_def handle_ok_def log_handle_def split: option.splits)
qed

section \<open>Every step keeps the invariant\<close>

lemma holds_writes_put:
  assumes "holds_writes t (c, ops)"
  shows "holds_writes (MemTable_Put t (fst (walop_write x)) (snd (walop_write x))) (c, ops @ [x])"
  using assms MemTable_Put_pairs_map [of t] mt_invar_Put [of t]
  by (simp add: holds_writes_def log_writes_def mt_invar_def)

text \<open>The engine after a record has been logged, whichever operation it was.\<close>

lemma write_keeps:
  assumes inv: "durable_with s ts un base old po cur nx fs ps"
    and x: "walop_ok x" "write_ok (walop_write x)"
    and p: "wal (sys_db s) = Some (Some p)"
    and c: "checkAndFlush ((sys_db s)\<lparr>memTable := MemTable_Put (memTable (sys_db s)) (fst (walop_write x)) (snd (walop_write x))\<rparr>) = (db, job)"
  shows "durable \<lparr>sys_db = db, sys_disk = append_file p (wal_record x) (sys_disk s),
    flushers = flushers s @ started job, history = history s @ [walop_write x]\<rparr>"
proof -
  obtain i ops where cur: "cur = (i, ops)" by (rule prod.exhaust)
  let ?cur = "(i, ops @ [x])"
  let ?db = "(sys_db s)\<lparr>memTable := MemTable_Put (memTable (sys_db s)) (fst (walop_write x)) (snd (walop_write x))\<rparr>"
  let ?d = "append_file p (wal_record x) (sys_disk s)"
  have I: "layout (sys_disk s) ts un (old @ po @ cur # nx) (nextFileID (sys_db s)) (walFileID (sys_db s))"
    "engine_ok (sys_db s) ts cur nx" "flushers s = fs @ ps" "list_all2 (after_install (metas ts)) fs old"
    "before_install (immTable (sys_db s)) po ps un" "history_ok (history s) ts base old (po @ [cur])"
    using inv by (simp_all add: durable_with_def)
  have pi: "p = wal_path i" using p I(2) by (simp add: engine_ok_def log_handle_def cur)
  have lay: "layout ?d ts un (old @ po @ ?cur # nx) (nextFileID (sys_db s)) (walFileID (sys_db s))"
    using layout_append_log [of "sys_disk s" ts un "old @ po" i ops nx] I(1) x(1) by (simp add: pi cur)
  have mem: "holds_writes (memTable ?db) ?cur"
    using holds_writes_put [of "memTable (sys_db s)" i ops x] I(2) by (simp add: engine_ok_def cur)
  have spare: "spare_log db' nx" if "spare_log (sys_db s) nx" "nextwal db' = nextwal (sys_db s)"
    "walNotifyCh db' = walNotifyCh (sys_db s)" for db'
    using that by (auto elim!: spare_log.cases intro: spare_log.intros)
  have eng: "engine_ok ?db ts ?cur nx"
    using I(2) mem spare [of ?db] by (simp add: engine_ok_def cur log_handle_def)
  have hist: "history_ok (history s @ [walop_write x]) ts base old (po @ [?cur])"
    using I(6) x(2) by (auto simp: history_ok_def cur)
  from c show ?thesis
  proof (cases rule: checkAndFlush_cases)
    case stay
    have "durable_with \<lparr>sys_db = db, sys_disk = ?d, flushers = flushers s @ started job,
        history = history s @ [walop_write x]\<rparr> ts un base old po ?cur nx fs ps"
      using lay eng hist I(3-5) stay by (simp add: durable_with_def started_def)
    then show ?thesis unfolding durable_def by blast
  next
    case (switch nw)
    have po: "po = []" "ps = []" "un = []" using I(5) switch(2) by (auto elim: before_install.cases)
    obtain j where nx: "nx = [(j, [])]" "nw = Some (wal_path j)"
      using I(2) switch(3) by (auto simp: engine_ok_def log_handle_def elim!: spare_log.cases)
    have "before_install (immTable db) [?cur] [Fresh (memTable ?db) (log_handle ?cur)] []"
      using before_install.fresh [OF mem] switch(4) by simp
    moreover have "engine_ok db ts (j, []) []"
      using eng nx(2) unfolding switch(4)
      by (auto simp: engine_ok_def log_handle_def holds_writes_def log_writes_def fun_eq_iff intro: spare_log.none)
    moreover have "started job = [Fresh (memTable ?db) (log_handle ?cur)]"
      using switch(5) eng by (simp add: started_def engine_ok_def)
    moreover have "history_ok (history s @ [walop_write x]) ts base old ([?cur] @ [(j, [])])"
      using hist po by (simp add: history_ok_def)
    ultimately have "durable_with \<lparr>sys_db = db, sys_disk = ?d, flushers = flushers s @ started job,
        history = history s @ [walop_write x]\<rparr> ts [] base old [?cur] (j, []) [] fs [Fresh (memTable ?db) (log_handle ?cur)]"
      using lay I(3,4) po nx by (simp add: durable_with_def switch(4))
    then show ?thesis unfolding durable_def by blast
  qed
qed

lemma durable_withD:
  assumes "durable_with s ts un base old po cur nx fs ps"
  shows "layout (sys_disk s) ts un (old @ po @ cur # nx) (nextFileID (sys_db s)) (walFileID (sys_db s))"
    and "engine_ok (sys_db s) ts cur nx" and "flushers s = fs @ ps" and "list_all2 (after_install (metas ts)) fs old"
    and "before_install (immTable (sys_db s)) po ps un" and "history_ok (history s) ts base old (po @ [cur])"
  using assms by (simp_all add: durable_with_def)

lemma log_open:
  assumes "durable_with s ts un base old po cur nx fs ps"
  obtains old where "wal (sys_db s) = Some (Some (wal_path (fst cur)))" "faults (sys_disk s) = []"
    "disk_file (sys_disk s) (wal_path (fst cur)) = Some old"
proof -
  note I = durable_withD [OF assms]
  have "holds_logs complete (sys_disk s) ((old @ po) @ (fst cur, snd cur) # nx)" "faults (sys_disk s) = []"
    using I(1) by (simp_all add: layout_def)
  with logs_at(1) I(2) that show thesis by (fastforce simp: engine_ok_def log_handle_def)
qed

lemma put_keeps:
  assumes "durable s" and "DB_Put k v (sys_db s) (sys_disk s) = ((err, job), db, d)" and "write_ok (k, Some v)"
  shows "durable \<lparr>sys_db = db, sys_disk = d, flushers = flushers s @ started job,
      history = history s @ (if err = None then [(k, Some v)] else [])\<rparr>"
proof -
  obtain ts un base old po cur nx fs ps where inv: "durable_with s ts un base old po cur nx fs ps"
    using assms(1) by (auto simp: durable_def)
  obtain bs where w: "wal (sys_db s) = Some (Some (wal_path (fst cur)))" "faults (sys_disk s) = []"
    "disk_file (sys_disk s) (wal_path (fst cur)) = Some bs"
    using log_open [OF inv] by blast
  obtain db' job' where c: "checkAndFlush ((sys_db s)\<lparr>memTable := MemTable_Put (memTable (sys_db s)) k (Some v)\<rparr>) = (db', job')"
    by (rule prod.exhaust)
  have "err = None" "job = job'" "db = db'" "d = append_file (wal_path (fst cur)) (wal_record (WalPut k v)) (sys_disk s)"
    using assms(2) w c by (auto simp: DB_Put_def WAL_AppendPut_def wal_write_def)
  moreover have "walop_ok (WalPut k v)" using assms(3) by (simp add: write_ok_def)
  ultimately show ?thesis
    using write_keeps [OF inv, of "WalPut k v"] assms(3) w(1) c by simp
qed

lemma delete_keeps:
  assumes "durable s" and "DB_Delete k (sys_db s) (sys_disk s) = ((err, job), db, d)" and "write_ok (k, None)"
  shows "durable \<lparr>sys_db = db, sys_disk = d, flushers = flushers s @ started job,
      history = history s @ (if err = None then [(k, None)] else [])\<rparr>"
proof -
  obtain ts un base old po cur nx fs ps where inv: "durable_with s ts un base old po cur nx fs ps"
    using assms(1) by (auto simp: durable_def)
  obtain bs where w: "wal (sys_db s) = Some (Some (wal_path (fst cur)))" "faults (sys_disk s) = []"
    "disk_file (sys_disk s) (wal_path (fst cur)) = Some bs"
    using log_open [OF inv] by blast
  obtain db' job' where c: "checkAndFlush ((sys_db s)\<lparr>memTable := MemTable_Put (memTable (sys_db s)) k None\<rparr>) = (db', job')"
    by (rule prod.exhaust)
  have "err = None" "job = job'" "db = db'" "d = append_file (wal_path (fst cur)) (wal_record (WalDelete k)) (sys_disk s)"
    using assms(2) w c by (auto simp: DB_Delete_def WAL_AppendDelete_def wal_write_def)
  moreover have "walop_ok (WalDelete k)" using assms(3) by (simp add: write_ok_def)
  ultimately show ?thesis
    using write_keeps [OF inv, of "WalDelete k"] assms(3) w(1) c by simp
qed

text \<open>A step that leaves the engine's tables, logs and numbers alone.\<close>

lemma read_keeps:
  assumes "durable s" and "DB_Get k (sys_db s) (sys_disk s) = (r, db)"
  shows "durable (s\<lparr>sys_db := db\<rparr>)"
proof -
  obtain ts un base old po cur nx fs ps where inv: "durable_with s ts un base old po cur nx fs ps"
    using assms(1) by (auto simp: durable_def)
  obtain m where db: "db = (sys_db s)\<lparr>metrics := m\<rparr>"
    using assms(2) by (auto simp: DB_Get_def split: option.splits prod.splits)
  have "spare_log db nx" using inv
    by (auto simp: durable_with_def engine_ok_def db elim!: spare_log.cases intro: spare_log.intros)
  then have "durable_with (s\<lparr>sys_db := db\<rparr>) ts un base old po cur nx fs ps"
    using inv by (simp add: durable_with_def engine_ok_def db)
  then show ?thesis unfolding durable_def by blast
qed

lemma compaction_keeps:
  assumes "durable s" and "compaction_tick ns (sys_db s) (sys_disk s) = (db, d)"
  shows "durable (s\<lparr>sys_db := db, sys_disk := d\<rparr>)"
proof -
  have "\<not> enableCompaction (sys_db s)"
    using assms(1) by (auto simp: durable_def durable_with_def engine_ok_def)
  then have "db = sys_db s" "d = sys_disk s"
    using assms(2) by (auto simp: compaction_tick_def needCompaction_def)
  then show ?thesis using assms(1) by simp
qed

lemma allocate_keeps:
  assumes "durable s" and "walPreAllocator (sys_db s) (sys_disk s) = (db, d)" and "unat (walFileID (sys_db s)) < 10 ^ 6"
  shows "durable (s\<lparr>sys_db := db, sys_disk := d\<rparr>)"
proof (cases "walNotifyCh (sys_db s)")
  case False
  then have "db = sys_db s" "d = sys_disk s" using assms(2) by (simp_all add: walPreAllocator_def)
  then show ?thesis using assms(1) by simp
next
  case True
  obtain ts un base old po cur nx fs ps where inv: "durable_with s ts un base old po cur nx fs ps"
    using assms(1) by (auto simp: durable_def)
  note I = durable_withD [OF inv]
  let ?i = "walFileID (sys_db s)"
  have nx: "nx = []" using I(2) True by (auto simp: engine_ok_def elim: spare_log.cases)
  have "\<forall>j \<in> fst ` set (old @ po @ [cur]). j < ?i" using I(1) nx unfolding layout_def by simp
  then have "?i \<notin> fst ` set (old @ po @ [cur])" by blast
  moreover have "holds_logs complete (sys_disk s) (old @ po @ [cur])" using I(1) nx by (simp add: layout_def)
  ultimately have "disk_file (sys_disk s) (wal_path ?i) = None" by (rule logs_fresh [rotated])
  then have "db = (sys_db s)\<lparr>walNotifyCh := False, nextwal := Some (Some (wal_path ?i)), walFileID := ?i + 1\<rparr>"
    "d = set_file (wal_path ?i) [] (sys_disk s)"
    using assms(2) True I(1) by (auto simp: walPreAllocator_def OpenWAL_def os_OpenAppend_def layout_def Let_def)
  moreover have "layout (set_file (wal_path ?i) [] (sys_disk s)) ts un (old @ po @ cur # [(?i, [])])
      (nextFileID (sys_db s)) (?i + 1)"
    using layout_new_log [OF I(1) assms(3)] nx by simp
  moreover have "spare_log db [(?i, [])]"
    using calculation(1) by (auto simp: log_handle_def intro: spare_log.one)
  ultimately have "durable_with (s\<lparr>sys_db := db, sys_disk := d\<rparr>) ts un base old po cur [(?i, [])] fs ps"
    using I by (simp add: durable_with_def engine_ok_def)
  then show ?thesis unfolding durable_def by blast
qed

lemma after_install_mono: "after_install ms f l \<Longrightarrow> prefix ms ms' \<Longrightarrow> after_install ms' f l"
  by (cases f) (auto intro: prefix_order.trans)

lemma spare_log_cong:
  "spare_log db nx \<Longrightarrow> nextwal db' = nextwal db \<Longrightarrow> walNotifyCh db' = walNotifyCh db \<Longrightarrow> spare_log db' nx"
  by (auto elim!: spare_log.cases intro: spare_log.intros)

lemma engine_ok_cong:
  assumes "engine_ok db ts cur nx" and "sstables db' = metas ts'" and "enableCompaction db' = enableCompaction db"
    and "wal db' = wal db" and "nextwal db' = nextwal db" and "walNotifyCh db' = walNotifyCh db"
    and "memTable db' = memTable db"
  shows "engine_ok db' ts' cur nx"
  using assms spare_log_cong [of db nx db'] by (simp add: engine_ok_def)

text \<open>A flush whose table is installed: the manifest, then the old log.\<close>

lemma flush_after_keeps:
  assumes inv: "durable_with s ts un base old po cur nx (fs @ f # gs) ps"
    and first: "is_Listed f \<longrightarrow> fs = []"
    and run: "run_flusher f (sys_db s) (sys_disk s) = (fo, db, d)"
  shows "durable (s\<lparr>sys_db := db, sys_disk := d, flushers := fs @ remaining fo @ gs @ ps\<rparr>)"
proof -
  note I = durable_withD [OF inv]
  obtain old1 l old2 where old: "old = old1 @ l # old2" "list_all2 (after_install (metas ts)) fs old1"
    "after_install (metas ts) f l" "list_all2 (after_install (metas ts)) gs old2"
    using I(4) by (auto simp: list_all2_append1 list_all2_Cons1)
  show ?thesis
  proof (cases f)
    case (Installed snap w)
    have "fo = Some (Listed w)" "db = sys_db s" "d = snd (persistManifest snap (sys_disk s))"
      using run Installed by (auto split: prod.splits)
    moreover have "layout (snd (persistManifest snap (sys_disk s))) ts un (old @ po @ cur # nx)
        (nextFileID (sys_db s)) (walFileID (sys_db s))"
      using old(3) Installed by (intro layout_manifest [OF I(1)]) auto
    moreover have "list_all2 (after_install (metas ts)) (fs @ Listed w # gs) old"
      using old Installed by (auto intro!: list_all2_appendI)
    ultimately have "durable_with (s\<lparr>sys_db := db, sys_disk := d, flushers := fs @ remaining fo @ gs @ ps\<rparr>)
        ts un base old po cur nx (fs @ Listed w # gs) ps"
      using I by (simp add: durable_with_def remaining_def)
    then show ?thesis unfolding durable_def by blast
  next
    case (Listed w)
    have fs: "fs = []" "old1 = []" using first old(2) Listed by (auto simp: is_Listed_def)
    have "fo = None" "db = sys_db s" "d = delete_old_wal (Some (Some (wal_path (fst l)))) (sys_disk s)"
      using run Listed old(3) by (auto simp: log_handle_def)
    moreover have "layout (delete_old_wal (Some (Some (wal_path (fst l)))) (sys_disk s)) ts un (old2 @ po @ cur # nx)
        (nextFileID (sys_db s)) (walFileID (sys_db s))"
      using layout_drop_log [of "sys_disk s" ts un "fst l" "snd l" "old2 @ po @ cur # nx"] I(1) old(1) fs by simp
    moreover have "history_ok (history s) ts (base @ log_writes l) old2 (po @ [cur])"
      using I(6) old(1) fs by (simp add: history_ok_def log_writes_def)
    ultimately have "durable_with (s\<lparr>sys_db := db, sys_disk := d, flushers := fs @ remaining fo @ gs @ ps\<rparr>)
        ts un (base @ log_writes l) old2 po cur nx gs ps"
      using I old(4) fs by (simp add: durable_with_def remaining_def)
    then show ?thesis unfolding durable_def by blast
  qed (use old(3) in auto)
qed

text \<open>A flush whose table is not installed yet.\<close>

lemma flush_before_keeps:
  assumes inv: "durable_with s ts un base old po cur nx fs [f]"
    and run: "run_flusher f (sys_db s) (sys_disk s) = (fo, db, d)"
    and lim: "unat (nextFileID (sys_db s)) < 10 ^ 6" "history_bytes (history s) < 2 ^ 61"
  shows "durable (s\<lparr>sys_db := db, sys_disk := d, flushers := fs @ remaining fo\<rparr>)"
proof -
  note I = durable_withD [OF inv]
  show ?thesis
    using I(5)
  proof (cases rule: before_install.cases)
    case (fresh imm l)
    have "history s = (base @ logged old) @ log_writes l @ log_writes cur" "\<forall>w \<in> set (history s). write_ok w"
      using I(6) fresh(2) by (auto simp: history_ok_def log_writes_def)
    then have "\<forall>w \<in> set (log_writes l). write_ok w" "history_bytes (log_writes l) < 2 ^ 61"
      using lim(2) by (auto simp: history_bytes_def)
    then have st: "storable (pairs imm)"
      using storable_table [of imm "log_writes l"] fresh(5,6) by (simp add: holds_writes_def)
    let ?n = "nextFileID (sys_db s)"
    have ok: "faults (sys_disk s) = []" using I(1) by (simp add: layout_def)
    have "fo = Some (Written (sst_meta ?n (pairs imm)) (log_handle l))" "db = (sys_db s)\<lparr>nextFileID := ?n + 1\<rparr>"
      "d = set_file (sst_path ?n) (sst_bytes (pairs imm)) (sys_disk s)"
      using run fresh by (auto simp: reserveNextFileID_def writeSSTable_ok [OF ok] flush_meta_sst_meta)
    moreover have "layout (set_file (sst_path ?n) (sst_bytes (pairs imm)) (sys_disk s)) ts [(?n, pairs imm)]
        (old @ po @ cur # nx) (?n + 1) (walFileID (sys_db s))"
      using layout_write_table [OF _ st lim(1)] I(1) fresh(4) by simp
    moreover have "engine_ok ((sys_db s)\<lparr>nextFileID := ?n + 1\<rparr>) ts cur nx"
      by (rule engine_ok_cong [OF I(2)]) (use I(2) in \<open>simp_all add: engine_ok_def\<close>)
    ultimately have "durable_with (s\<lparr>sys_db := db, sys_disk := d, flushers := fs @ remaining fo\<rparr>) ts
        [(?n, pairs imm)] base old po cur nx fs [Written (sst_meta ?n (pairs imm)) (log_handle l)]"
      using I before_install.written [OF fresh(5,6)] fresh(1,2) by (simp add: durable_with_def remaining_def)
    then show ?thesis unfolding durable_def by blast
  next
    case (written imm l fid)
    let ?ts = "ts @ un" and ?f = "Installed (metas (ts @ un)) (log_handle l)"
    have "fo = Some ?f" "db = (sys_db s)\<lparr>sstables := metas ?ts, immTable := None\<rparr>" "d = sys_disk s"
      using run written I(2) by (auto simp: install_flushed_def Let_def engine_ok_def)
    moreover have "engine_ok ((sys_db s)\<lparr>sstables := metas ?ts, immTable := None\<rparr>) ?ts cur nx"
      by (rule engine_ok_cong [OF I(2)]) simp_all
    moreover have "list_all2 (after_install (metas ?ts)) (fs @ [?f]) (old @ [l])"
      using I(4) written(4) after_install_mono [of "metas ts" _ _ "metas ?ts"]
      by (auto intro!: list_all2_appendI elim: list_all2_mono)
    moreover have "history_ok (history s) ?ts base (old @ [l]) [cur]"
      using I(6) written by (simp add: history_ok_def holds_writes_def log_writes_def)
    ultimately have "durable_with (s\<lparr>sys_db := db, sys_disk := d, flushers := fs @ remaining fo\<rparr>) ?ts
        [] base (old @ [l]) [] cur nx (fs @ [?f]) []"
      using layout_install [OF I(1)] written(2) before_install.idle by (simp add: durable_with_def remaining_def)
    then show ?thesis unfolding durable_def by blast
  qed
qed

lemma flush_keeps:
  assumes "durable s" and "flushers s = fs @ f # gs" and "is_Listed f \<longrightarrow> fs = []"
    and "run_flusher f (sys_db s) (sys_disk s) = (fo, db, d)" and "within_limits s"
  shows "durable (s\<lparr>sys_db := db, sys_disk := d, flushers := fs @ remaining fo @ gs\<rparr>)"
proof -
  obtain ts un base old po cur nx fs' ps where inv: "durable_with s ts un base old po cur nx fs' ps"
    using assms(1) by (auto simp: durable_def)
  have lim: "unat (nextFileID (sys_db s)) < 10 ^ 6" "history_bytes (history s) < 2 ^ 61"
    using assms(5) by (simp_all add: within_limits_def)
  have eq: "fs' @ ps = fs @ f # gs" using durable_withD(3) [OF inv] assms(2) by simp
  have single: "length ps \<le> 1" using durable_withD(5) [OF inv] by (auto elim: before_install.cases)
  show ?thesis
  proof (cases "length fs < length fs'")
    case True
    then obtain gs1 where "fs' = fs @ f # gs1" "gs = gs1 @ ps"
      using eq by (auto simp: append_eq_append_conv2 append_eq_Cons_conv)
    then show ?thesis using flush_after_keeps [of s ts un base old po cur nx fs f gs1 ps fo db d] inv assms(3,4) by simp
  next
    case False
    then obtain ps1 where "fs = fs' @ ps1" "ps = ps1 @ f # gs"
      using eq by (auto simp: append_eq_append_conv2 append_eq_Cons_conv)
    then have "fs = fs'" "ps = [f]" "gs = []" using single by auto
    then show ?thesis using flush_before_keeps [of s ts un base old po cur nx fs' f] inv assms(4) lim by simp
  qed
qed

text \<open>A crash while a record is appended.\<close>

lemma torn_logs:
  assumes "holds_logs complete d (before @ (c, ops) # after)" and "walop_ok x"
  shows "holds_logs maybe_torn (append_file (wal_path c) (take n (wal_record x)) d)
    (before @ (c, ops @ (if length (wal_record x) \<le> n then [x] else [])) # after)"
proof -
  note at = logs_at [OF assms(1)]
  let ?ops = "ops @ (if length (wal_record x) \<le> n then [x] else [])"
  have "maybe_torn ?ops (wal_bytes ops @ take n (wal_record x))"
  proof (cases "length (wal_record x) \<le> n")
    case True
    with at(2) assms(2) show ?thesis by (auto intro!: complete_maybe_torn simp: complete_def)
  next
    case False
    with at(2) assms(2) show ?thesis by (auto simp: maybe_torn_def intro!: exI [of _ x] exI [of _ n])
  qed
  then show ?thesis
    by (rule log_replaced [OF assms(1)]) (auto simp: disk_file_append at(1) complete_maybe_torn)
qed

lemma opened_durable:
  assumes "opened \<lparr>EnableCompaction = False\<rparr> ts c db d" and "stack ts = last_writes h"
    and "1 \<le> nextFileID db" and "\<forall>w \<in> set h. write_ok w"
  shows "durable \<lparr>sys_db = db, sys_disk = d, flushers = [], history = h\<rparr>"
proof -
  have "durable_with \<lparr>sys_db = db, sys_disk = d, flushers = [], history = h\<rparr> ts [] h [] [] (c, []) [] [] []"
    using assms
    by (auto simp: durable_with_def opened_def layout_def engine_ok_def holds_writes_def log_handle_def
        log_writes_def history_ok_def fun_eq_iff intro: before_install.idle spare_log.none)
  then show ?thesis unfolding durable_def by blast
qed

lemma history_step:
  assumes "history_bytes h < 2 ^ 60" and "write_ok w"
  shows "history_bytes (h @ [w]) < 2 ^ 61"
proof -
  have "write_bytes w < 2 ^ 34"
    using assms(2) by (auto simp: write_bytes_def write_ok_def split: option.splits)
  then show ?thesis using assms(1) by (simp add: history_bytes_def)
qed

lemma tables_prefix:
  assumes "before_install imm po ps un" and "stack ts = last_writes (base @ logged old)"
  shows "\<exists>us vs. stack (ts @ un) = last_writes (base @ us) \<and> logged (old @ po) = us @ vs"
  using assms(1)
proof (cases rule: before_install.cases)
  case (written m l fid)
  with assms(2) show ?thesis
    by (intro exI [of _ "logged (old @ [l])"] exI [of _ "[]"]) (simp add: holds_writes_def log_writes_def)
qed (use assms(2) in auto)

lemma crash_recoverable:
  assumes "durable s" and x: "walop_ok x" "write_ok (walop_write x)" and lim: "within_limits s"
  shows "recoverable (torn_write x n (sys_db s) (sys_disk s))
    (history s @ (if length (wal_record x) \<le> n then [walop_write x] else [])) (nextFileID (sys_db s)) (walFileID (sys_db s))"
proof -
  obtain ts un base old po cur nx fs ps where inv: "durable_with s ts un base old po cur nx fs ps"
    using assms(1) by (auto simp: durable_def)
  note I = durable_withD [OF inv]
  obtain c ops where cur: "cur = (c, ops)" by (rule prod.exhaust)
  define xs where "xs = (if length (wal_record x) \<le> n then [x] else [])"
  let ?ls = "(old @ po) @ (c, ops @ xs) # nx"
  let ?h = "history s @ map walop_write xs"
  let ?d = "append_file (wal_path c) (take n (wal_record x)) (sys_disk s)"
  have d: "torn_write x n (sys_db s) (sys_disk s) = ?d"
    using I(2) by (simp add: torn_write_def engine_ok_def log_handle_def cur)
  have lay: "layout (sys_disk s) ts un ((old @ po) @ (c, ops) # nx) (nextFileID (sys_db s)) (walFileID (sys_db s))"
    using I(1) cur by simp
  have tables: "holds_tables ?d (ts @ un)"
    by (rule holds_tables_cong [of "sys_disk s"]) (use lay in \<open>auto simp: layout_def disk_file_append wal_path_def\<close>)
  have manifest: "manifest_ok ?d (metas (ts @ un))"
    by (rule manifest_ok_prefix [of "sys_disk s" "metas ts"]) (use lay in \<open>simp_all add: layout_def disk_file_append\<close>)
  have logs: "holds_logs maybe_torn ?d ?ls"
    using torn_logs [of "sys_disk s" "old @ po" c ops nx x n] lay x(1) by (simp add: layout_def xs_def)
  have nx: "logged nx = []" using I(2) by (auto simp: engine_ok_def elim: spare_log.cases)
  have h1: "?h = base @ logged ?ls" using I(6) nx by (simp add: history_ok_def cur)
  have h2: "stack ts = last_writes (base @ logged old)" using I(6) by (simp add: history_ok_def)
  have old_ok: "\<forall>w \<in> set (history s). write_ok w" using I(6) by (simp add: history_ok_def)
  have h3: "\<forall>w \<in> set ?h. write_ok w" using old_ok x(2) by (cases "length (wal_record x) \<le> n") (auto simp: xs_def)
  have "history_bytes (history s) < 2 ^ 60" using lim by (simp add: within_limits_def)
  then have "history_bytes ?h < 2 ^ 61" using history_step [OF _ x(2)] by (simp add: xs_def)
  then have ok: "\<forall>w \<in> set (logged ?ls). write_ok w" "history_bytes (logged ?ls) < 2 ^ 61"
    unfolding h1 using h3 [unfolded h1] by (simp_all add: history_bytes_def)
  have "restartable ?d (ts @ un) ?ls (nextFileID (sys_db s)) (walFileID (sys_db s))"
    unfolding restartable_def
  proof (intro conjI tables manifest logs ok)
    show "faults ?d = []" "1 \<le> nextFileID (sys_db s)" "\<forall>i \<in> fst ` set (ts @ un). i < nextFileID (sys_db s)"
      "\<forall>i \<in> fst ` set ?ls. i < walFileID (sys_db s)"
      using lay by (simp_all add: layout_def)
    show "unat (nextFileID (sys_db s)) < 10 ^ 6" "unat (walFileID (sys_db s)) < 10 ^ 6"
      using lim by (simp_all add: within_limits_def)
  qed
  moreover obtain us vs where us: "stack (ts @ un) = last_writes (base @ us)" "logged (old @ po) = us @ vs"
    using tables_prefix [OF I(5) h2] by blast
  moreover have "logged ?ls = us @ vs @ map walop_write (ops @ xs)" using us(2) nx by simp
  ultimately have "recoverable ?d ?h (nextFileID (sys_db s)) (walFileID (sys_db s))"
    unfolding recoverable_def using h1 by blast
  then show ?thesis by (simp add: d xs_def split: if_splits)
qed

lemma crash_keeps:
  assumes "durable s" and "walop_ok x" and "write_ok (walop_write x)" and "within_limits s"
    and "unat (nextFileID (sys_db s)) + length ms < 10 ^ 6" and run: "restart (left_behind x n ms s) = (db, d)"
  shows "durable \<lparr>sys_db = db, sys_disk = d, flushers = [],
    history = history s @ (if length (wal_record x) \<le> n then [walop_write x] else [])\<rparr>"
proof -
  let ?h = "history s @ (if length (wal_record x) \<le> n then [walop_write x] else [])"
  obtain nf where "recoverable (left_behind x n ms s) ?h nf (walFileID (sys_db s))"
    using recoverable_startups [OF crash_recoverable [OF assms(1-4)] assms(5)] unfolding left_behind_def by blast
  then obtain ts c where opens: "opened \<lparr>EnableCompaction = False\<rparr> ts c db d" "stack ts = last_writes ?h" "1 \<le> nextFileID db"
    using recoverable_restart run [unfolded restart_def] by blast
  have "\<forall>w \<in> set (history s). write_ok w"
    using assms(1) by (auto simp: durable_def durable_with_def history_ok_def)
  then have "\<forall>w \<in> set ?h. write_ok w" using assms(3) by (cases "length (wal_record x) \<le> n") auto
  then show ?thesis by (rule opened_durable [OF opens])
qed

section \<open>Reachable engines\<close>

lemma initial_durable:
  assumes "initial_sys s"
  shows "durable s"
proof -
  let ?d = "\<lparr>files = [], faults = []\<rparr> :: disk"
  have run: "NewDBWithOptions \<lparr>EnableCompaction = False\<rparr> ?d = (sys_db s, sys_disk s)"
    using assms by (simp add: initial_sys_def restart_def)
  have none: "disk_file ?d q = None" for q by (simp add: disk_file_def)
  have "restartable ?d [] [] 1 1"
    by (simp add: restartable_def none holds_tables_def manifest_ok_def holds_logs_def history_bytes_def)
  from NewDB_recovers [OF this run]
  have "\<exists>ts' c. opened \<lparr>EnableCompaction = False\<rparr> ts' c (sys_db s) (sys_disk s) \<and>
      stack ts' = stack [] ++ last_writes (logged []) \<and> walNotifyCh (sys_db s) \<and> 1 \<le> nextFileID (sys_db s)" .
  then obtain ts c where "opened \<lparr>EnableCompaction = False\<rparr> ts c (sys_db s) (sys_disk s)"
    "stack ts = last_writes []" "1 \<le> nextFileID (sys_db s)" by auto
  then have "durable \<lparr>sys_db = sys_db s, sys_disk = sys_disk s, flushers = [], history = []\<rparr>"
    by (rule opened_durable) simp
  moreover have "s = \<lparr>sys_db = sys_db s, sys_disk = sys_disk s, flushers = [], history = []\<rparr>"
    using assms by (simp add: initial_sys_def)
  ultimately show ?thesis by simp
qed

lemma step_durable:
  assumes "durable s" and "limited_step s s'"
  shows "durable s'"
  using assms(2) unfolding limited_step_def
proof (elim conjE)
  assume lim: "within_limits s" and "engine_step s s'"
  from \<open>engine_step s s'\<close> show "durable s'"
  proof cases
    case put then show ?thesis using put_keeps [OF assms(1)] by blast
  next
    case delete then show ?thesis using delete_keeps [OF assms(1)] by blast
  next
    case get then show ?thesis using read_keeps [OF assms(1)] by blast
  next
    case allocate
    then show ?thesis using allocate_keeps [OF assms(1)] lim by (auto simp: within_limits_def)
  next
    case flush then show ?thesis using flush_keeps [OF assms(1) _ _ _ lim] by blast
  next
    case compaction then show ?thesis using compaction_keeps [OF assms(1)] by blast
  next
    case crash then show ?thesis using crash_keeps [OF assms(1) _ _ lim] by blast
  qed
qed

lemma durable_reach: "engine.reach s \<Longrightarrow> durable s"
  by (rule engine.invariant) (auto intro: initial_durable step_durable)

end
