(* ===== verification/Durability_Properties.thy ===== *)
theory Durability_Properties
  imports Durability
begin

text \<open>
  The properties of the engine under crashes. The first holds for every execution of the step relation. The
  others show why the relation removes old logs in order, does not cut off the manifest and has compaction off: in all
  three cases a restart brings an overwritten value back.
\<close>

section \<open>No acknowledged write is lost\<close>













section \<open>Old values that come back\<close>

text \<open>A disk with given tables and logs.\<close>

definition disk_of :: "(u64 \<times> KVPair list) list \<Rightarrow> (u64 \<times> walop list) list \<Rightarrow> disk" where
  "disk_of ts ls = \<lparr>files = map (\<lambda>(i, ps). (sst_path i, sst_bytes ps)) ts @ map (\<lambda>(i, ops). (wal_path i, wal_bytes ops)) ls,
     faults = []\<rparr>"

lemma opened_view:
  assumes "opened opts ts c db d"
  shows "db_inv db d" and "db_view db d = stack ts"
proof -
  have o: "holds_tables d ts" "\<forall>i \<in> fst ` set ts. i < nextFileID db" "memTable db = NewMemTable" "immTable db = None"
    "sstables db = metas ts" "wal db = Some (Some (wal_path c))" "nextwal db = None"
    using assms by (auto simp: opened_def)
  note tables = holds_tables_ok [OF o(1) subset_refl]
  show "db_view db d = stack ts"
    by (simp add: db_view_def layered_add o tables(2) mem_view_def fun_eq_iff map_add_def)
  have "distinct (map sm_FileID (metas ts))"
    using o(1) sorted_ids_distinct by (auto simp: holds_tables_def)
  moreover have "list_all (\<lambda>m. sm_FileID m < nextFileID db) (metas ts)"
    using o(2) by (force simp: list_all_iff metas_def sst_meta_def)
  ultimately show "db_inv db d"
    using tables(1) mt.invar_empty by (simp add: db_inv_def o handle_ok_def)
qed

text \<open>C34. Two flushes have installed their tables and still have to remove their logs, \<open>j1\<close> of the older and \<open>j2\<close> of the
  newer one. If the newer flush removes its log first and the process crashes before the older one does, the
  restart replays the older log on top of both tables: a key written in both flushes reads
  as its older value again.\<close>

theorem late_log_returns_stale_version:
  assumes d: "faults d = []" "holds_tables d [(i1, ps1), (i2, ps2)]" "manifest_ok d (metas [(i1, ps1), (i2, ps2)])"
      "holds_logs complete d [(j1, ops1), (j2, ops2), (c, [])]"
    and ops: "\<forall>w \<in> set (map walop_write ops1). write_ok w" "history_bytes (map walop_write ops1) < 2 ^ 61"
    and ids: "unat i2 + 1 < 10 ^ 6" "unat c + 1 < 10 ^ 6"
    and k: "last_writes (map walop_write ops1) k = Some old" "pairs_map ps2 k = Some new"
    and run: "restart (delete_old_wal (Some (Some (wal_path j2))) d) = (db, d')"
  shows "tables_view d (metas [(i1, ps1), (i2, ps2)]) k = Some new \<and>
    fst (DB_Get k db d') = found_result old"
proof -
  let ?ts = "[(i1, ps1), (i2, ps2)]"
  let ?d = "delete_old_wal (Some (Some (wal_path j2))) d"
  note rm = delete_old_wal_ok [OF d(1), of "wal_path j2"]
  have tables: "holds_tables ?d ?ts"
    by (rule holds_tables_cong [OF d(2)]) (auto simp: rm)
  have manifest: "manifest_ok ?d (metas ?ts)"
    by (rule manifest_ok_prefix [OF d(3)]) (simp_all add: rm)
  have logs: "holds_logs complete ?d [(j1, ops1), (c, [])]"
    using logs_remove [OF d(1), of "[(j1, ops1)]" j2 ops2 "[(c, [])]"] d(4) by simp
  have torn: "holds_logs maybe_torn ?d [(j1, ops1), (c, [])]"
    using logs unfolding holds_logs_def by (auto intro: complete_maybe_torn)
  have less: "i1 < i2" "j1 < c" "unat i2 < 10 ^ 6" using d(2,4) by (simp_all add: holds_tables_def holds_logs_def)
  have next_ids: "i2 < i2 + 1" "c < c + 1" "1 \<le> i2 + 1" "unat (i2 + 1) < 10 ^ 6" "unat (c + 1) < 10 ^ 6"
    using ids unat_Suc_small [of i2] unat_Suc_small [of c] by (simp_all add: word_less_nat_alt word_le_nat_alt)
  have "restartable ?d ?ts [(j1, ops1), (c, [])] (i2 + 1) (c + 1)"
    unfolding restartable_def
    by (intro conjI rm(1) tables manifest torn) (use ops less next_ids in \<open>auto intro: less_trans\<close>)
  from NewDB_recovers [OF this run [unfolded restart_def]]
  have "\<exists>ts' c'. opened \<lparr>EnableCompaction = False\<rparr> ts' c' db d' \<and>
      stack ts' = stack ?ts ++ last_writes (logged [(j1, ops1), (c, [])]) \<and> walNotifyCh db \<and> 1 \<le> nextFileID db" .
  then obtain ts' c' where "opened \<lparr>EnableCompaction = False\<rparr> ts' c' db d'"
    "stack ts' = stack ?ts ++ last_writes (map walop_write ops1)" by auto
  then have "fst (DB_Get k db d') = found_result old"
    using DB_Get_view [of db d' k] opened_view [of _ ts' c' db d'] k(1) by simp
  moreover have "tables_view d (metas ?ts) k = Some new"
    using holds_tables_ok(2) [OF d(2) subset_refl] k(2) stack_simps(2) [of "[(i1, ps1)]" "(i2, ps2)"] by simp
  ultimately show ?thesis by simp
qed

lemma storable_single: "storable [\<lparr>Key = [a], Value = Some [b]\<rparr>]"
  by (rule storable_history [of _ "[([a], Some [b])]"])
    (auto simp: kv_entry_def write_ok_def history_bytes_def write_bytes_def)

definition two_flushes :: disk where
  "two_flushes = disk_of [(1, [\<lparr>Key = [1], Value = Some [1]\<rparr>]), (2, [\<lparr>Key = [1], Value = Some [2]\<rparr>])]
     [(1, [WalPut [1] [1]]), (2, [WalPut [1] [2]]), (3, [])]"

lemma two_flushes_ok:
  "faults two_flushes = []" "holds_tables two_flushes [(1, [\<lparr>Key = [1], Value = Some [1]\<rparr>]), (2, [\<lparr>Key = [1], Value = Some [2]\<rparr>])]"
  "manifest_ok two_flushes ms" "holds_logs complete two_flushes [(1, [WalPut [1] [1]]), (2, [WalPut [1] [2]]), (3, [])]"
proof -
  have other: "(SstDir, name) \<noteq> wal_path i" "(WalDir, name) \<noteq> sst_path i" for name i
    by (simp_all add: wal_path_def sst_path_def)
  show "faults two_flushes = []" by (simp add: two_flushes_def disk_of_def)
  show "holds_tables two_flushes [(1, [\<lparr>Key = [1], Value = Some [1]\<rparr>]), (2, [\<lparr>Key = [1], Value = Some [2]\<rparr>])]"
    using other by (auto simp: holds_tables_def storable_single two_flushes_def disk_of_def disk_file_def split: if_splits)
  show "manifest_ok two_flushes ms"
    by (simp add: manifest_ok_def two_flushes_def disk_of_def disk_file_def)
  show "holds_logs complete two_flushes [(1, [WalPut [1] [1]]), (2, [WalPut [1] [2]]), (3, [])]"
    using other by (auto simp: holds_logs_def two_flushes_def disk_of_def disk_file_def complete_def split: if_splits)
qed

theorem late_log_returns_stale_version_witness:
  "tables_view two_flushes (metas [(1, [\<lparr>Key = [1], Value = Some [1]\<rparr>]), (2, [\<lparr>Key = [1], Value = Some [2]\<rparr>])]) [1] =
     Some (Some [2]) \<and>
   (case restart (delete_old_wal (Some (Some (wal_path 2))) two_flushes) of
      (db, d') \<Rightarrow> fst (DB_Get [1] db d') = ([1], True))"
proof -
  obtain db d' where run: "restart (delete_old_wal (Some (Some (wal_path 2))) two_flushes) = (db, d')"
    by (rule prod.exhaust)
  have w: "\<forall>w \<in> set (map walop_write [WalPut [1] [1]]). write_ok w" "history_bytes (map walop_write [WalPut [1] [1]]) < 2 ^ 61"
    "unat (2 :: u64) + 1 < 10 ^ 6" "unat (3 :: u64) + 1 < 10 ^ 6"
    "last_writes (map walop_write [WalPut [1] [1]]) [1] = Some (Some [1])"
    "pairs_map [\<lparr>Key = [1], Value = Some [2]\<rparr>] [1] = Some (Some [2])"
    by (simp_all add: write_ok_def history_bytes_def write_bytes_def last_writes_def)
  show ?thesis
    using late_log_returns_stale_version [OF two_flushes_ok w run] unfolding run by (simp add: found_result_def)
qed

text \<open>C35. A crash while a line is appended to the manifest can leave a line whose last number is cut off to the number of another
  table. That table is then listed twice, the second time above newer tables, and a value that was
  overwritten comes back.\<close>

theorem torn_manifest_returns_stale_version:
  assumes ids: "sm_FileID m1 = 1" "sm_FileID m2 = 2" "sm_FileID m3 = 12"
    and torn: "disk_file d manifest_path = Some (take (length (manifest_bytes snaps) + 5) (manifest_bytes (snaps @ [[m1, m2, m3]])))"
    and k: "pairs_map (table_pairs d m1) k = Some old" "pairs_map (table_pairs d m2) k = Some new"
      "pairs_map (table_pairs d m3) k = None"
  shows "applyManifestOrder [m1, m2, m3] d = [m1, m2, m1, m3] \<and>
    tables_view d [m1, m2, m3] k = Some new \<and>
    tables_view d (applyManifestOrder [m1, m2, m3] d) k = Some old"
proof -
  have line: "manifest_line [m1, m2, m3] = ''1,2,12'' @ [newline]"
    by (simp add: manifest_line_def manifest_ids_def ids) code_simp
  have "take (length (manifest_bytes snaps) + 5) (manifest_bytes (snaps @ [[m1, m2, m3]])) =
      manifest_bytes snaps @ of_string ''1,2,1''"
    by (simp add: manifest_bytes_def line of_string_def)
  then have "to_string (take (length (manifest_bytes snaps) + 5) (manifest_bytes (snaps @ [[m1, m2, m3]]))) =
      concat (map (\<lambda>w. w @ [newline]) (map manifest_ids snaps)) @ ''1,2,1''"
    by (simp add: manifest_bytes_def manifest_line_def [abs_def] comp_def)
  moreover have "strings_Split (concat (map (\<lambda>w. w @ [newline]) (map manifest_ids snaps)) @ ''1,2,1'') newline =
      map manifest_ids snaps @ strings_Split ''1,2,1'' newline"
    by (rule strings_Split_Join_snoc) (use manifest_ids_plain in auto)
  moreover have "strings_Split ''1,2,1'' newline = [''1,2,1'']" "strings_TrimSpace ''1,2,1'' = ''1,2,1''"
    "strings_Split ''1,2,1'' (CHR '','') = [''1'', ''2'', ''1'']"
    by code_simp+
  moreover have "metaByID [m1, m2, m3] 1 = Some m1" "metaByID [m1, m2, m3] 2 = Some m2"
    by (simp_all add: metaByID_def ids)
  moreover have "FormatUint 1 = ''1''" "FormatUint 2 = ''2''" by code_simp+
  moreover have "pick_id byID (FormatUint 1) = (case byID 1 of None \<Rightarrow> None | Some m \<Rightarrow> Some (1, m))"
    "pick_id byID (FormatUint 2) = (case byID 2 of None \<Rightarrow> None | Some m \<Rightarrow> Some (2, m))" for byID
    using pick_id_FormatUint [of byID 1] pick_id_FormatUint [of byID 2] by simp_all
  ultimately have order: "applyManifestOrder [m1, m2, m3] d = [m1, m2, m1, m3]"
    by (simp add: applyManifestOrder_def torn List.map_filter_simps ids)
  then show ?thesis using k by (simp add: tables_view_def)
qed

definition cut_tables :: "(u64 \<times> KVPair list) list" where
  "cut_tables = [(1, [\<lparr>Key = [1], Value = Some [1]\<rparr>]), (2, [\<lparr>Key = [1], Value = Some [2]\<rparr>]),
     (12, [\<lparr>Key = [2], Value = Some [3]\<rparr>])]"

definition cut_manifest :: disk where
  "cut_manifest = \<lparr>files = (manifest_path, take 5 (manifest_bytes [metas cut_tables])) #
     map (\<lambda>(i, ps). (sst_path i, sst_bytes ps)) cut_tables, faults = []\<rparr>"

theorem torn_manifest_returns_stale_version_witness:
  "tables_view cut_manifest (metas cut_tables) [1] = Some (Some [2]) \<and>
   tables_view cut_manifest (applyManifestOrder (metas cut_tables) cut_manifest) [1] = Some (Some [1])"
proof -
  let ?m = "\<lambda>i k v. sst_meta i [\<lparr>Key = [k], Value = Some [v]\<rparr>]"
  have p: "table_pairs cut_manifest (?m 1 1 1) = [\<lparr>Key = [1], Value = Some [1]\<rparr>]"
    "table_pairs cut_manifest (?m 2 1 2) = [\<lparr>Key = [1], Value = Some [2]\<rparr>]"
    "table_pairs cut_manifest (?m 12 2 3) = [\<lparr>Key = [2], Value = Some [3]\<rparr>]"
    by (rule table_written(1) [OF storable_single]; simp add: disk_file_def cut_manifest_def cut_tables_def)+
  have "sm_FileID (?m 1 1 1) = 1" "sm_FileID (?m 2 1 2) = 2" "sm_FileID (?m 12 2 3) = 12"
    by (simp_all add: sst_meta_def)
  moreover have "disk_file cut_manifest manifest_path = Some (take (length (manifest_bytes []) + 5)
      (manifest_bytes ([] @ [[?m 1 1 1, ?m 2 1 2, ?m 12 2 3]])))"
    by (simp add: disk_file_def cut_manifest_def cut_tables_def)
  moreover have "pairs_map (table_pairs cut_manifest (?m 1 1 1)) [1] = Some (Some [1])"
    "pairs_map (table_pairs cut_manifest (?m 2 1 2)) [1] = Some (Some [2])"
    "pairs_map (table_pairs cut_manifest (?m 12 2 3)) [1] = None" by (simp_all add: p)
  ultimately have "applyManifestOrder [?m 1 1 1, ?m 2 1 2, ?m 12 2 3] cut_manifest = [?m 1 1 1, ?m 2 1 2, ?m 1 1 1, ?m 12 2 3] \<and>
      tables_view cut_manifest [?m 1 1 1, ?m 2 1 2, ?m 12 2 3] [1] = Some (Some [2]) \<and>
      tables_view cut_manifest (applyManifestOrder [?m 1 1 1, ?m 2 1 2, ?m 12 2 3] cut_manifest) [1] = Some (Some [1])"
    by (rule torn_manifest_returns_stale_version)
  then show ?thesis unfolding cut_tables_def metas_simps fst_conv snd_conv by blast
qed

text \<open>A table file that the last line of the manifest does not name is put above all tables that it names. Such a file is an
  input of a compaction whose removal failed, or was cut off by a crash after the next flush had been
  installed: at the next startup its versions hide every newer one.\<close>

theorem leftover_table_returns_stale_version:
  assumes "disk_file d manifest_path = Some (manifest_bytes (snaps @ [snap]))"
    and "snap \<noteq> []" and "distinct (map sm_FileID loaded)" and "set snap \<subseteq> set loaded"
    and "filter (\<lambda>m. sm_FileID m \<notin> sm_FileID ` set snap) loaded = [leftover]"
    and "pairs_map (table_pairs d leftover) k = Some old" and "tables_view d snap k = Some new"
  shows "tables_view d (applyManifestOrder loaded d) k = Some old"
  unfolding applyManifestOrder_bytes [OF assms(1-4)] using assms(5,6) by (simp add: tables_view_snoc)

definition leftover_tables :: "(u64 \<times> KVPair list) list" where
  "leftover_tables = [(1, [\<lparr>Key = [1], Value = Some [1]\<rparr>]), (3, [\<lparr>Key = [1], Value = Some [1]\<rparr>]),
     (4, [\<lparr>Key = [1], Value = Some [2]\<rparr>])]"

definition leftover_disk :: disk where
  "leftover_disk = \<lparr>files = (manifest_path, manifest_bytes [metas (tl leftover_tables)]) #
     map (\<lambda>(i, ps). (sst_path i, sst_bytes ps)) leftover_tables, faults = []\<rparr>"

theorem leftover_table_returns_stale_version_witness:
  "tables_view leftover_disk (metas (tl leftover_tables)) [1] = Some (Some [2]) \<and>
   tables_view leftover_disk (applyManifestOrder (metas leftover_tables) leftover_disk) [1] = Some (Some [1])"
proof -
  let ?m = "\<lambda>i v. sst_meta i [\<lparr>Key = [1], Value = Some [v]\<rparr>]"
  have p: "table_pairs leftover_disk (?m 1 1) = [\<lparr>Key = [1], Value = Some [1]\<rparr>]"
    "table_pairs leftover_disk (?m 3 1) = [\<lparr>Key = [1], Value = Some [1]\<rparr>]"
    "table_pairs leftover_disk (?m 4 2) = [\<lparr>Key = [1], Value = Some [2]\<rparr>]"
    by (rule table_written(1) [OF storable_single]; simp add: disk_file_def leftover_disk_def leftover_tables_def)+
  have ids: "sm_FileID (sst_meta i ps) = i" for i ps by (simp add: sst_meta_def)
  have new: "tables_view leftover_disk [?m 3 1, ?m 4 2] [1] = Some (Some [2])"
    using p by (simp add: tables_view_def)
  have "tables_view leftover_disk (applyManifestOrder [?m 1 1, ?m 3 1, ?m 4 2] leftover_disk) [1] = Some (Some [1])"
    by (rule leftover_table_returns_stale_version [where snaps = "[]" and snap = "[?m 3 1, ?m 4 2]", OF _ _ _ _ _ _ new])
      (simp_all add: ids p, simp add: disk_file_def leftover_disk_def leftover_tables_def, simp add: p)
  with new show ?thesis by (simp add: leftover_tables_def)
qed

end
