(* ===== verification/Raft_Node.thy ===== *)
theory Raft_Node
  imports Go_Prelude
begin

text \<open>
  One Raft peer, \<^verbatim>\<open>internal/raft/raft.go\<close>, over an arbitrary type of commands. The record \<open>Raft\<close> has the
  fields of the source except the election timer, whose expiry is an event of the cluster model, and
  the time spent in \<^verbatim>\<open>persist\<close>. Each handler is a function of the peer under its lock; an index out of
  range, which panics in Go, is the result \<open>None\<close>. The persister of
  \<^verbatim>\<open>internal/raft/persister.go\<close> holds the triple that \<^verbatim>\<open>persist\<close> encodes, or \<open>None\<close> before
  the first save. The lemmas show that no handler returns with an unsaved change of the triple, and
  what each handler does to term, vote and log.
\<close>

datatype NodeState = StateFollower | StateCandidate | StateLeader

record 'c LogEntry =
  le_Term :: int
  le_Command :: "'c option"

record 'c AppendEntriesArgs =
  ae_Term :: int
  ae_LeaderID :: nat
  ae_PrevLogIndex :: int
  ae_PrevLogTerm :: int
  ae_Entries :: "'c LogEntry list"
  ae_LeaderCommit :: int

record AppendEntriesReply =
  ar_Term :: int
  ar_Success :: bool
  ar_XTerm :: int
  ar_XIndex :: int
  ar_XLen :: int

record RequestVoteArgs =
  rv_Term :: int
  rv_CandidateId :: nat
  rv_LastLogIndex :: int
  rv_LastLogTerm :: int

record RequestVoteReply =
  rr_Term :: int
  rr_VoteGranted :: bool

record 'c ApplyMsg =
  CommandValid :: bool
  Command :: "'c option"
  CommandIndex :: int

type_synonym 'c raftstate = "int \<times> int \<times> 'c LogEntry list"

record 'c Raft =
  me :: nat
  peers :: nat
  currentTerm :: int
  votedFor :: int
  state :: NodeState
  log :: "'c LogEntry list"
  commitIndex :: int
  lastApplied :: int
  nextIndex :: "int list"
  matchIndex :: "int list"
  persister :: "'c raftstate option"
  leaderChangeTotal :: u64
  electionStartedTotal :: u64
  termChangeTotal :: u64
  appendEntriesFailedTotal :: u64
  raftPersistCount :: u64

text \<open>Reading an element of a slice; \<open>None\<close> is the run-time panic.\<close>

definition at :: "'a list \<Rightarrow> int \<Rightarrow> 'a option" where
  "at xs i = (if 0 \<le> i \<and> nat i < length xs then Some (xs ! nat i) else None)"

section \<open>State, terms and persistence\<close>

definition GetState :: "'c Raft \<Rightarrow> int \<times> bool" where
  "GetState rf = (currentTerm rf, state rf = StateLeader)"

definition setTermLocked :: "int \<Rightarrow> 'c Raft \<Rightarrow> 'c Raft" where
  "setTermLocked term rf =
     (if term = currentTerm rf then rf
      else rf\<lparr>currentTerm := term, termChangeTotal := termChangeTotal rf + 1\<rparr>)"

definition persist :: "'c Raft \<Rightarrow> 'c Raft" where
  "persist rf =
     rf\<lparr>persister := Some (currentTerm rf, votedFor rf, log rf),
        raftPersistCount := raftPersistCount rf + 1\<rparr>"

definition readPersist :: "'c raftstate option \<Rightarrow> 'c Raft \<Rightarrow> 'c Raft" where
  "readPersist data rf =
     (case data of
        None \<Rightarrow> rf
      | Some (term, vote, l) \<Rightarrow> rf\<lparr>currentTerm := term, votedFor := vote, log := l\<rparr>)"

definition Make :: "nat \<Rightarrow> nat \<Rightarrow> 'c raftstate option \<Rightarrow> 'c Raft" where
  "Make n i data =
     readPersist data
       \<lparr>me = i, peers = n, currentTerm = 0, votedFor = - 1, state = StateFollower,
        log = [\<lparr>le_Term = 0, le_Command = None\<rparr>], commitIndex = 0, lastApplied = 0,
        nextIndex = replicate n 0, matchIndex = replicate n 0, persister = data,
        leaderChangeTotal = 0, electionStartedTotal = 0, termChangeTotal = 0,
        appendEntriesFailedTotal = 0, raftPersistCount = 0\<rparr>"

section \<open>Elections\<close>

definition RequestVote :: "RequestVoteArgs \<Rightarrow> 'c Raft \<Rightarrow> ('c Raft \<times> RequestVoteReply) option" where
  "RequestVote args rf =
     (if rv_Term args < currentTerm rf
      then Some (rf, \<lparr>rr_Term = currentTerm rf, rr_VoteGranted = False\<rparr>)
      else let rf = (if rv_Term args > currentTerm rf
                     then persist ((setTermLocked (rv_Term args) rf)
                            \<lparr>state := StateFollower, votedFor := - 1\<rparr>)
                     else rf);
               lastLogIndex = int (length (log rf)) - 1
           in (case at (log rf) lastLogIndex of
                 None \<Rightarrow> None
               | Some lastEntry \<Rightarrow>
                   let lastLogTerm = le_Term lastEntry;
                       upToDate =
                         (if rv_LastLogTerm args > lastLogTerm then True
                          else rv_LastLogTerm args = lastLogTerm \<and>
                               rv_LastLogIndex args \<ge> lastLogIndex)
                   in if \<not> upToDate
                      then Some (rf, \<lparr>rr_Term = currentTerm rf, rr_VoteGranted = False\<rparr>)
                      else if votedFor rf = - 1 \<or> votedFor rf = int (rv_CandidateId args)
                      then Some (persist (rf\<lparr>votedFor := int (rv_CandidateId args)\<rparr>),
                                 \<lparr>rr_Term = currentTerm rf, rr_VoteGranted = True\<rparr>)
                      else Some (rf, \<lparr>rr_Term = currentTerm rf, rr_VoteGranted = False\<rparr>)))"

text \<open>Starting an election returns the arguments that go to every other peer; the vote count of
  the election starts at 1.\<close>

definition startElection :: "'c Raft \<Rightarrow> ('c Raft \<times> RequestVoteArgs) option" where
  "startElection rf =
     (let rf = persist (rf\<lparr>currentTerm := currentTerm rf + 1,
                           termChangeTotal := termChangeTotal rf + 1,
                           electionStartedTotal := electionStartedTotal rf + 1,
                           state := StateCandidate, votedFor := int (me rf)\<rparr>)
      in (case at (log rf) (int (length (log rf)) - 1) of
            None \<Rightarrow> None
          | Some lastEntry \<Rightarrow>
              Some (rf, \<lparr>rv_Term = currentTerm rf, rv_CandidateId = me rf,
                         rv_LastLogIndex = int (length (log rf)) - 1,
                         rv_LastLogTerm = le_Term lastEntry\<rparr>)))"

text \<open>The goroutine of one peer when its reply arrives, with the vote count of its election.\<close>

definition handleVoteReply ::
  "RequestVoteArgs \<Rightarrow> RequestVoteReply \<Rightarrow> nat \<Rightarrow> 'c Raft \<Rightarrow> 'c Raft \<times> nat"
where
  "handleVoteReply args reply votecount rf =
     (if state rf \<noteq> StateCandidate \<or> currentTerm rf \<noteq> rv_Term args then (rf, votecount)
      else if rr_Term reply > currentTerm rf
      then (persist ((setTermLocked (rr_Term reply) rf)\<lparr>state := StateFollower, votedFor := - 1\<rparr>),
            votecount)
      else if rr_VoteGranted reply
      then let votecount = votecount + 1
           in (if votecount > peers rf div 2 \<and> state rf = StateCandidate
               then rf\<lparr>state := StateLeader, leaderChangeTotal := leaderChangeTotal rf + 1,
                       nextIndex := replicate (peers rf) (int (length (log rf)))\<rparr>
               else rf, votecount)
      else (rf, votecount))"

section \<open>Log replication\<close>

definition Start :: "'c \<Rightarrow> 'c Raft \<Rightarrow> 'c Raft \<times> int \<times> int \<times> bool" where
  "Start command rf =
     (if state rf \<noteq> StateLeader then (rf, - 1, - 1, False)
      else let rf = persist (rf\<lparr>log := log rf @
                      [\<lparr>le_Term = currentTerm rf, le_Command = Some command\<rparr>]\<rparr>)
           in (rf, int (length (log rf)) - 1, currentTerm rf, True))"

text \<open>The loop that looks for the first entry of the conflicting term.\<close>

fun x_index :: "'c LogEntry list \<Rightarrow> int \<Rightarrow> nat \<Rightarrow> nat" where
  "x_index l t 0 = 0"
| "x_index l t (Suc i) = (if le_Term (l ! i) = t then x_index l t i else Suc i)"

text \<open>The loop over the new entries: from the first one that is missing or has another term, the log
  is cut and the rest appended. The flag says whether the log changed.\<close>

fun merge_entries :: "'c LogEntry list \<Rightarrow> nat \<Rightarrow> 'c LogEntry list \<Rightarrow> 'c LogEntry list \<times> bool" where
  "merge_entries l logIndex [] = (l, False)"
| "merge_entries l logIndex (entry # rest) =
     (if logIndex \<ge> length l \<or> le_Term (l ! logIndex) \<noteq> le_Term entry
      then (take logIndex l @ entry # rest, True)
      else merge_entries l (Suc logIndex) rest)"

definition persist_if :: "bool \<Rightarrow> 'c Raft \<Rightarrow> 'c Raft" where
  "persist_if needPersist rf = (if needPersist then persist rf else rf)"

definition count_failure :: "'c Raft \<Rightarrow> 'c Raft" where
  "count_failure rf = rf\<lparr>appendEntriesFailedTotal := appendEntriesFailedTotal rf + 1\<rparr>"

text \<open>Taking over the term of the sender.\<close>

definition adopt_term :: "int \<Rightarrow> 'c Raft \<Rightarrow> 'c Raft" where
  "adopt_term term rf =
     (if term > currentTerm rf then (setTermLocked term rf)\<lparr>votedFor := - 1\<rparr> else rf)
       \<lparr>state := StateFollower\<rparr>"

definition AppendEntries ::
  "'c AppendEntriesArgs \<Rightarrow> 'c Raft \<Rightarrow> ('c Raft \<times> AppendEntriesReply) option"
where
  "AppendEntries args rf =
     (let reply = \<lparr>ar_Term = currentTerm rf, ar_Success = False, ar_XTerm = 0, ar_XIndex = 0, ar_XLen = 0\<rparr>
      in if ae_Term args < currentTerm rf then Some (count_failure rf, reply)
         else let needPersist = (ae_Term args > currentTerm rf);
                  rf = adopt_term (ae_Term args) rf;
                  reply = reply\<lparr>ar_Term := currentTerm rf\<rparr>;
                  lastLogIndex = int (length (log rf)) - 1;
                  prev = ae_PrevLogIndex args
              in if lastLogIndex < prev
                 then Some (persist_if needPersist (count_failure rf),
                            reply\<lparr>ar_XTerm := - 1, ar_XIndex := - 1, ar_XLen := int (length (log rf))\<rparr>)
                 else (case at (log rf) prev of
                   None \<Rightarrow> None
                 | Some prevEntry \<Rightarrow>
                     if le_Term prevEntry \<noteq> ae_PrevLogTerm args
                     then Some (persist_if needPersist (count_failure rf),
                                reply\<lparr>ar_XTerm := le_Term prevEntry,
                                  ar_XIndex := int (x_index (log rf) (le_Term prevEntry) (nat prev))\<rparr>)
                     else (case merge_entries (log rf) (nat prev + 1) (ae_Entries args) of
                       (l, changed) \<Rightarrow>
                         let rf = rf\<lparr>log := l\<rparr>;
                             rf = (if ae_LeaderCommit args > commitIndex rf
                                   then rf\<lparr>commitIndex := min (ae_LeaderCommit args)
                                              (prev + int (length (ae_Entries args)))\<rparr>
                                   else rf)
                         in Some (persist_if (needPersist \<or> changed) rf, reply\<lparr>ar_Success := True\<rparr>))))"

text \<open>The arguments a leader builds for a peer. Slicing from beyond the end panics although the
  length to copy was set to zero.\<close>

definition appendArgs :: "nat \<Rightarrow> 'c Raft \<Rightarrow> 'c AppendEntriesArgs option" where
  "appendArgs peer rf =
     (case at (nextIndex rf) (int peer) of
        None \<Rightarrow> None
      | Some n \<Rightarrow>
          if n < 0 \<or> int (length (log rf)) < n then None
          else (case at (log rf) (n - 1) of
                  None \<Rightarrow> None
                | Some prevEntry \<Rightarrow>
                    Some \<lparr>ae_Term = currentTerm rf, ae_LeaderID = me rf, ae_PrevLogIndex = n - 1,
                          ae_PrevLogTerm = le_Term prevEntry, ae_Entries = drop (nat n) (log rf),
                          ae_LeaderCommit = commitIndex rf\<rparr>))"

definition replica_count :: "'c Raft \<Rightarrow> nat \<Rightarrow> nat" where
  "replica_count rf N =
     1 + length (filter (\<lambda>j. j \<noteq> me rf \<and> matchIndex rf ! j \<ge> int N \<and>
                             le_Term (log rf ! N) = currentTerm rf) [0..<peers rf])"

fun commit_loop :: "'c Raft \<Rightarrow> nat \<Rightarrow> 'c Raft" where
  "commit_loop rf 0 = rf"
| "commit_loop rf (Suc m) =
     (if int (Suc m) > commitIndex rf
      then if replica_count rf (Suc m) > peers rf div 2 then rf\<lparr>commitIndex := int (Suc m)\<rparr>
           else commit_loop rf m
      else rf)"

text \<open>The last entry of a term, the sentinel at index 0 excluded.\<close>

fun last_of_term :: "'c LogEntry list \<Rightarrow> int \<Rightarrow> nat \<Rightarrow> int" where
  "last_of_term l t 0 = - 1"
| "last_of_term l t (Suc i) = (if le_Term (l ! Suc i) = t then int (Suc i) else last_of_term l t i)"

definition backtrack :: "AppendEntriesReply \<Rightarrow> 'c Raft \<Rightarrow> int" where
  "backtrack reply rf =
     (let n = (if ar_XTerm reply \<noteq> - 1
               then let lastMatchedIndex = last_of_term (log rf) (ar_XTerm reply) (length (log rf) - 1)
                    in if lastMatchedIndex \<noteq> - 1 then lastMatchedIndex + 1 else ar_XIndex reply
               else ar_XLen reply)
      in if n < 1 then 1 else n)"

definition handleAppendReply ::
  "nat \<Rightarrow> 'c AppendEntriesArgs \<Rightarrow> AppendEntriesReply \<Rightarrow> 'c Raft \<Rightarrow> 'c Raft"
where
  "handleAppendReply peer args reply rf =
     (if state rf \<noteq> StateLeader \<or> currentTerm rf \<noteq> ae_Term args then rf
      else if ar_Term reply > currentTerm rf
      then persist ((setTermLocked (ar_Term reply) rf)\<lparr>state := StateFollower, votedFor := - 1\<rparr>)
      else if ar_Success reply
      then let newNext = ae_PrevLogIndex args + int (length (ae_Entries args)) + 1;
               newMatch = ae_PrevLogIndex args + int (length (ae_Entries args));
               rf = (if newNext > nextIndex rf ! peer
                     then rf\<lparr>nextIndex := (nextIndex rf)[peer := newNext]\<rparr> else rf);
               rf = (if newMatch > matchIndex rf ! peer
                     then rf\<lparr>matchIndex := (matchIndex rf)[peer := newMatch]\<rparr> else rf)
           in commit_loop rf (length (log rf) - 1)
      else rf\<lparr>nextIndex := (nextIndex rf)[peer := backtrack reply rf]\<rparr>)"

text \<open>A call that got no reply only counts the failure; one round of the apply loop delivers the
  committed entries in order.\<close>

definition applyLoop_round :: "'c Raft \<Rightarrow> ('c Raft \<times> 'c ApplyMsg list) option" where
  "applyLoop_round rf =
     (if commitIndex rf > lastApplied rf then
        if list_all (\<lambda>i. at (log rf) i \<noteq> None) [lastApplied rf + 1..commitIndex rf]
        then Some (rf\<lparr>lastApplied := commitIndex rf\<rparr>,
                   map (\<lambda>i. \<lparr>CommandValid = True, Command = le_Command (log rf ! nat i), CommandIndex = i\<rparr>)
                     [lastApplied rf + 1..commitIndex rf])
        else None
      else Some (rf, []))"

text \<open>The peers to which a round of heartbeats starts a sender, and the periodic tasks.\<close>

definition broadcastHeartbeats :: "'c Raft \<Rightarrow> nat list" where
  "broadcastHeartbeats rf =
     (if state rf \<noteq> StateLeader then [] else filter (\<lambda>i. i \<noteq> me rf) [0..<peers rf])"

definition ticker_round :: "bool \<Rightarrow> 'c Raft \<Rightarrow> ('c Raft \<times> RequestVoteArgs option) option" where
  "ticker_round expired rf =
     (if state rf \<noteq> StateLeader \<and> expired
      then map_option (\<lambda>(rf', args). (rf', Some args)) (startElection rf)
      else Some (rf, None))"

definition DebugForceElection :: "'c Raft \<Rightarrow> ('c Raft \<times> RequestVoteArgs) option" where
  "DebugForceElection rf = startElection rf"

text \<open>Taking a snapshot is not implemented.\<close>

definition Snapshot :: "int \<Rightarrow> bytes \<Rightarrow> 'c Raft \<Rightarrow> 'c Raft" where
  "Snapshot index snap rf = rf"

text \<open>A round of the heartbeat ticker.\<close>

definition heartbeatTicker_round :: "'c Raft \<Rightarrow> nat list" where
  "heartbeatTicker_round rf = (let isLeader = (state rf = StateLeader) in if isLeader then broadcastHeartbeats rf else [])"

section \<open>Persistence\<close>

text \<open>What a restart would read back is what the peer has in memory.\<close>

definition restored :: "'c raftstate option \<Rightarrow> 'c raftstate" where
  "restored data =
     (case data of None \<Rightarrow> (0, - 1, [\<lparr>le_Term = 0, le_Command = None\<rparr>]) | Some s \<Rightarrow> s)"

definition saved :: "'c Raft \<Rightarrow> bool" where
  "saved rf \<longleftrightarrow> restored (persister rf) = (currentTerm rf, votedFor rf, log rf)"

lemma persist_simps [simp]:
  "saved (persist rf)" "currentTerm (persist rf) = currentTerm rf" "votedFor (persist rf) = votedFor rf"
  "log (persist rf) = log rf" "state (persist rf) = state rf" "me (persist rf) = me rf"
  "peers (persist rf) = peers rf" "commitIndex (persist rf) = commitIndex rf"
  "lastApplied (persist rf) = lastApplied rf" "nextIndex (persist rf) = nextIndex rf"
  "matchIndex (persist rf) = matchIndex rf"
  by (simp_all add: persist_def saved_def restored_def)

lemma setTermLocked_simps [simp]:
  "currentTerm (setTermLocked t rf) = t" "votedFor (setTermLocked t rf) = votedFor rf"
  "log (setTermLocked t rf) = log rf" "state (setTermLocked t rf) = state rf"
  "me (setTermLocked t rf) = me rf" "peers (setTermLocked t rf) = peers rf"
  "commitIndex (setTermLocked t rf) = commitIndex rf" "lastApplied (setTermLocked t rf) = lastApplied rf"
  "nextIndex (setTermLocked t rf) = nextIndex rf" "matchIndex (setTermLocked t rf) = matchIndex rf"
  by (simp_all add: setTermLocked_def)

lemma count_failure_simps [simp]:
  "saved (count_failure rf) = saved rf" "currentTerm (count_failure rf) = currentTerm rf"
  "votedFor (count_failure rf) = votedFor rf" "log (count_failure rf) = log rf"
  "state (count_failure rf) = state rf" "me (count_failure rf) = me rf"
  "peers (count_failure rf) = peers rf" "commitIndex (count_failure rf) = commitIndex rf"
  "nextIndex (count_failure rf) = nextIndex rf" "matchIndex (count_failure rf) = matchIndex rf"
  by (simp_all add: count_failure_def saved_def)

lemma Make_simps [simp]:
  assumes "saved rf"
  shows "currentTerm (Make n i (persister rf)) = currentTerm rf"
    and "votedFor (Make n i (persister rf)) = votedFor rf"
    and "log (Make n i (persister rf)) = log rf"
    and "saved (Make n i (persister rf))"
  using assms by (auto simp: Make_def readPersist_def saved_def restored_def split: option.splits)

lemma Make_fields [simp]:
  "me (Make n i data) = i" "peers (Make n i data) = n" "state (Make n i data) = StateFollower"
  "commitIndex (Make n i data) = 0" "lastApplied (Make n i data) = 0"
  "nextIndex (Make n i data) = replicate n 0" "matchIndex (Make n i data) = replicate n 0"
  by (auto simp: Make_def readPersist_def split: option.splits)

section \<open>What the handlers do\<close>

lemma at_last: "xs \<noteq> [] \<Longrightarrow> at xs (int (length xs) - 1) = Some (last xs)"
  by (cases xs) (simp_all add: at_def last_conv_nth)

lemma at_Some: "at xs i = Some x \<longleftrightarrow> 0 \<le> i \<and> nat i < length xs \<and> x = xs ! nat i"
  by (auto simp: at_def)

lemma RequestVote_cases:
  assumes "RequestVote args rf = Some (rf', reply)" and "saved rf"
  shows "saved rf'" "log rf' = log rf" "me rf' = me rf" "peers rf' = peers rf"
    "nextIndex rf' = nextIndex rf" "matchIndex rf' = matchIndex rf" "commitIndex rf' = commitIndex rf"
    "currentTerm rf' = max (currentTerm rf) (rv_Term args)"
    "currentTerm rf < rv_Term args \<Longrightarrow> state rf' = StateFollower"
    "rv_Term args \<le> currentTerm rf \<Longrightarrow> state rf' = state rf"
    "rv_Term args < currentTerm rf \<Longrightarrow> votedFor rf' = votedFor rf"
    "rv_Term args = currentTerm rf \<Longrightarrow> votedFor rf \<noteq> - 1 \<Longrightarrow> votedFor rf' = votedFor rf"
    "rr_VoteGranted reply \<Longrightarrow> votedFor rf' = int (rv_CandidateId args) \<and> currentTerm rf' = rv_Term args"
    "rr_VoteGranted reply \<Longrightarrow> rv_Term args = currentTerm rf \<Longrightarrow>
      votedFor rf = - 1 \<or> votedFor rf = int (rv_CandidateId args)"
    "rr_Term reply = currentTerm rf'"
  using assms
  by (auto simp: RequestVote_def Let_def split: if_splits option.splits)

lemma RequestVote_total: "log rf \<noteq> [] \<Longrightarrow> RequestVote args rf \<noteq> None"
  by (auto simp: RequestVote_def Let_def at_last split: option.splits)

lemma startElection_cases:
  assumes "startElection rf = Some (rf', args)"
  shows "saved rf'" "log rf' = log rf" "me rf' = me rf" "peers rf' = peers rf"
    "nextIndex rf' = nextIndex rf" "matchIndex rf' = matchIndex rf" "commitIndex rf' = commitIndex rf"
    "currentTerm rf' = currentTerm rf + 1" "state rf' = StateCandidate" "votedFor rf' = int (me rf)"
    "rv_Term args = currentTerm rf + 1" "rv_CandidateId args = me rf"
  using assms by (auto simp: startElection_def Let_def split: option.splits)

lemma startElection_args:
  assumes "startElection rf = Some (rf', args)" and "log rf \<noteq> []"
  shows "rv_LastLogTerm args = le_Term (last (log rf))" "rv_LastLogIndex args = int (length (log rf)) - 1"
  using assms by (auto simp: startElection_def Let_def at_last)

lemma startElection_total: "log rf \<noteq> [] \<Longrightarrow> startElection rf \<noteq> None"
  by (simp add: startElection_def Let_def at_last)

lemma handleVoteReply_cases:
  assumes "handleVoteReply args reply c rf = (rf', c')"
  obtains (ignored) "rf' = rf" "c' = c"
  | (down) "currentTerm rf < rr_Term reply" "c' = c"
      "rf' = persist ((setTermLocked (rr_Term reply) rf)\<lparr>state := StateFollower, votedFor := - 1\<rparr>)"
  | (vote) "rf' = rf" "c' = c + 1" "rr_VoteGranted reply" "state rf = StateCandidate"
      "currentTerm rf = rv_Term args" "c' \<le> peers rf div 2"
  | (win) "rf' = rf\<lparr>state := StateLeader, leaderChangeTotal := leaderChangeTotal rf + 1,
        nextIndex := replicate (peers rf) (int (length (log rf)))\<rparr>"
      "c' = c + 1" "rr_VoteGranted reply" "state rf = StateCandidate"
      "currentTerm rf = rv_Term args" "peers rf div 2 < c'"
proof (cases "state rf \<noteq> StateCandidate \<or> currentTerm rf \<noteq> rv_Term args \<or>
    \<not> rr_Term reply > currentTerm rf \<and> \<not> rr_VoteGranted reply")
  case True
  then have "handleVoteReply args reply c rf = (rf, c)" by (auto simp: handleVoteReply_def)
  with assms show ?thesis by (intro ignored) simp_all
next
  case False
  then have cand: "state rf = StateCandidate" "currentTerm rf = rv_Term args" by auto
  show ?thesis
  proof (cases "rr_Term reply > currentTerm rf")
    case True
    with cand assms show ?thesis by (intro down) (simp_all add: handleVoteReply_def)
  next
    case low: False
    with False have granted: "rr_VoteGranted reply" by auto
    show ?thesis
    proof (cases "c + 1 > peers rf div 2")
      case True
      with cand low granted assms show ?thesis by (intro win) (simp_all add: handleVoteReply_def)
    next
      case few: False
      with cand low granted assms show ?thesis by (intro vote) (simp_all add: handleVoteReply_def)
    qed
  qed
qed

lemma Start_cases:
  assumes "Start cmd rf = (rf', idx, t, ok)" and "saved rf"
  shows "saved rf'" "me rf' = me rf" "peers rf' = peers rf" "currentTerm rf' = currentTerm rf"
    "votedFor rf' = votedFor rf" "state rf' = state rf" "nextIndex rf' = nextIndex rf"
    "matchIndex rf' = matchIndex rf" "commitIndex rf' = commitIndex rf"
    "log rf' = log rf \<and> \<not> ok \<or> state rf = StateLeader \<and> ok \<and>
      log rf' = log rf @ [\<lparr>le_Term = currentTerm rf, le_Command = Some cmd\<rparr>] \<and>
      idx = int (length (log rf)) \<and> t = currentTerm rf"
  using assms by (auto simp: Start_def Let_def split: if_splits)

lemma merge_entries_False: "merge_entries l k es = (l', False) \<Longrightarrow> l' = l"
  by (induction l k es rule: merge_entries.induct) (auto split: if_splits)

lemma persist_if_simps [simp]:
  "currentTerm (persist_if b rf) = currentTerm rf" "votedFor (persist_if b rf) = votedFor rf"
  "log (persist_if b rf) = log rf" "state (persist_if b rf) = state rf" "me (persist_if b rf) = me rf"
  "peers (persist_if b rf) = peers rf" "nextIndex (persist_if b rf) = nextIndex rf"
  "matchIndex (persist_if b rf) = matchIndex rf" "commitIndex (persist_if b rf) = commitIndex rf"
  "saved (persist_if b rf) \<longleftrightarrow> b \<or> saved rf"
  by (simp_all add: persist_if_def)

lemma adopt_term_simps [simp]:
  "currentTerm (adopt_term t rf) = max (currentTerm rf) t" "state (adopt_term t rf) = StateFollower"
  "log (adopt_term t rf) = log rf" "me (adopt_term t rf) = me rf" "peers (adopt_term t rf) = peers rf"
  "nextIndex (adopt_term t rf) = nextIndex rf" "matchIndex (adopt_term t rf) = matchIndex rf"
  "commitIndex (adopt_term t rf) = commitIndex rf"
  "votedFor (adopt_term t rf) = (if t > currentTerm rf then - 1 else votedFor rf)"
  by (simp_all add: adopt_term_def)

lemma adopt_term_saved: "saved rf \<Longrightarrow> \<not> t > currentTerm rf \<Longrightarrow> saved (adopt_term t rf)"
  by (simp add: adopt_term_def saved_def)

lemma adopt_term_commit:
  "(adopt_term t rf)\<lparr>log := l, commitIndex := commitIndex rf\<rparr> = (adopt_term t rf)\<lparr>log := l\<rparr>"
  by (cases rf) (simp add: adopt_term_def setTermLocked_def)

lemma x_index_le: "x_index l t i \<le> i"
  by (induction i) auto

lemma AppendEntries_cases:
  assumes "AppendEntries args rf = Some (rf', reply)"
  obtains (stale) "ae_Term args < currentTerm rf" "rf' = count_failure rf"
      "reply = \<lparr>ar_Term = currentTerm rf, ar_Success = False, ar_XTerm = 0, ar_XIndex = 0, ar_XLen = 0\<rparr>"
  | (reject) "currentTerm rf \<le> ae_Term args"
      "rf' = persist_if (ae_Term args > currentTerm rf) (count_failure (adopt_term (ae_Term args) rf))"
      "\<not> ar_Success reply" "ar_Term reply = ae_Term args"
      "int (length (log rf)) \<le> ae_PrevLogIndex args \<and> ar_XIndex reply = - 1 \<and>
         ar_XLen reply = int (length (log rf)) \<or>
       0 \<le> ae_PrevLogIndex args \<and> ar_XIndex reply \<le> ae_PrevLogIndex args \<and> ar_XLen reply = 0"
  | (accept) l changed c where "currentTerm rf \<le> ae_Term args" "0 \<le> ae_PrevLogIndex args"
      "nat (ae_PrevLogIndex args) < length (log rf)"
      "le_Term (log rf ! nat (ae_PrevLogIndex args)) = ae_PrevLogTerm args"
      "merge_entries (log rf) (nat (ae_PrevLogIndex args) + 1) (ae_Entries args) = (l, changed)"
      "rf' = persist_if (ae_Term args > currentTerm rf \<or> changed)
        ((adopt_term (ae_Term args) rf)\<lparr>log := l, commitIndex := c\<rparr>)"
      "c = (if ae_LeaderCommit args > commitIndex rf
            then min (ae_LeaderCommit args) (ae_PrevLogIndex args + int (length (ae_Entries args)))
            else commitIndex rf)"
      "ar_Success reply" "ar_Term reply = ae_Term args"
proof (cases "ae_Term args < currentTerm rf")
  case True
  with assms show ?thesis by (intro stale) (simp_all add: AppendEntries_def)
next
  case False
  then have max: "max (currentTerm rf) (ae_Term args) = ae_Term args" by simp
  show ?thesis
  proof (cases "int (length (log rf)) - 1 < ae_PrevLogIndex args")
    case True
    with False assms max show ?thesis by (intro reject) (auto simp: AppendEntries_def Let_def)
  next
    case short: False
    show ?thesis
    proof (cases "at (log rf) (ae_PrevLogIndex args)")
      case None
      with False short assms show ?thesis by (simp add: AppendEntries_def Let_def)
    next
      case (Some e)
      then have e: "0 \<le> ae_PrevLogIndex args" "nat (ae_PrevLogIndex args) < length (log rf)"
        "e = log rf ! nat (ae_PrevLogIndex args)" by (simp_all add: at_Some)
      show ?thesis
      proof (cases "le_Term e = ae_PrevLogTerm args")
        case True
        obtain l changed where m:
          "merge_entries (log rf) (nat (ae_PrevLogIndex args) + 1) (ae_Entries args) = (l, changed)"
          by (rule prod.exhaust)
        show ?thesis
          by (rule accept [OF _ e(1,2) _ m _ refl]) (use True False short Some m e(3) max assms in
              \<open>auto simp: AppendEntries_def Let_def persist_if_def adopt_term_commit\<close>)
      next
        case conflict: False
        have "int (x_index (log rf) (le_Term e) (nat (ae_PrevLogIndex args))) \<le> ae_PrevLogIndex args"
          using x_index_le [of "log rf" "le_Term e" "nat (ae_PrevLogIndex args)"] e(1) by linarith
        with conflict False short Some e(1) max assms show ?thesis
          by (intro reject) (auto simp: AppendEntries_def Let_def)
      qed
    qed
  qed
qed

lemma AppendEntries_total: "0 \<le> ae_PrevLogIndex args \<Longrightarrow> AppendEntries args rf \<noteq> None"
  by (auto simp: AppendEntries_def Let_def at_def split: prod.splits)

lemma commit_loop_now:
  "0 < N \<Longrightarrow> commitIndex rf < int N \<Longrightarrow> peers rf div 2 < replica_count rf N \<Longrightarrow>
   commit_loop rf N = rf\<lparr>commitIndex := int N\<rparr>"
  by (cases N) simp_all

lemma commit_loop_only:
  "\<exists>c. commit_loop rf N = rf\<lparr>commitIndex := c\<rparr> \<and> (c = commitIndex rf \<or> commitIndex rf < c \<and> c \<le> int N)"
proof (induction N)
  case 0
  show ?case by (intro exI [of _ "commitIndex rf"]) simp
next
  case (Suc m)
  then obtain c where c: "commit_loop rf m = rf\<lparr>commitIndex := c\<rparr>"
    "c = commitIndex rf \<or> commitIndex rf < c \<and> c \<le> int m" by blast
  show ?case
  proof (cases "int (Suc m) > commitIndex rf")
    case True
    then show ?thesis using c by auto
  next
    case False
    then have "commit_loop rf (Suc m) = rf" by simp
    then show ?thesis by (intro exI [of _ "commitIndex rf"]) simp
  qed
qed

lemma commit_loop_fields [simp]:
  "log (commit_loop rf N) = log rf" "state (commit_loop rf N) = state rf" "currentTerm (commit_loop rf N) = currentTerm rf"
  "nextIndex (commit_loop rf N) = nextIndex rf" "matchIndex (commit_loop rf N) = matchIndex rf"
  "me (commit_loop rf N) = me rf" "peers (commit_loop rf N) = peers rf"
  by (induction N) simp_all

lemma commit_loop_mono: "commitIndex rf \<le> commitIndex (commit_loop rf N)"
  by (induction N) simp_all

text \<open>The two cursors of a peer after an acknowledgement up to an index.\<close>

definition raise :: "nat \<Rightarrow> int \<Rightarrow> int list \<Rightarrow> int list" where
  "raise peer v xs = (if v > xs ! peer then xs[peer := v] else xs)"

lemma length_raise [simp]: "length (raise peer v xs) = length xs"
  by (simp add: raise_def)

lemma handleAppendReply_ack:
  assumes "state rf = StateLeader" and "currentTerm rf = ae_Term args"
    and "\<not> ar_Term reply > currentTerm rf" and "ar_Success reply"
  shows "handleAppendReply peer args reply rf =
    commit_loop (rf\<lparr>nextIndex := raise peer (ae_PrevLogIndex args + int (length (ae_Entries args)) + 1) (nextIndex rf),
      matchIndex := raise peer (ae_PrevLogIndex args + int (length (ae_Entries args))) (matchIndex rf)\<rparr>) (length (log rf) - 1)"
  using assms by (cases rf) (auto simp: handleAppendReply_def Let_def raise_def)

lemma handleAppendReply_cases:
  assumes "handleAppendReply peer args reply rf = rf'"
  obtains (ignored) "rf' = rf"
  | (down) "currentTerm rf < ar_Term reply" "state rf = StateLeader"
      "rf' = persist ((setTermLocked (ar_Term reply) rf)\<lparr>state := StateFollower, votedFor := - 1\<rparr>)"
  | (ack) n m c where "state rf = StateLeader" "currentTerm rf = ae_Term args" "ar_Success reply"
      "rf' = rf\<lparr>nextIndex := n, matchIndex := m, commitIndex := c\<rparr>"
      "n = nextIndex rf \<or> n = (nextIndex rf)[peer := ae_PrevLogIndex args + int (length (ae_Entries args)) + 1] \<and>
        nextIndex rf ! peer < ae_PrevLogIndex args + int (length (ae_Entries args)) + 1"
      "length m = length (matchIndex rf)"
      "c = commitIndex rf \<or> commitIndex rf < c \<and> c \<le> int (length (log rf) - 1)"
  | (retry) "state rf = StateLeader" "currentTerm rf = ae_Term args" "\<not> ar_Success reply"
      "ar_Term reply \<le> currentTerm rf"
      "rf' = rf\<lparr>nextIndex := (nextIndex rf)[peer := backtrack reply rf]\<rparr>"
proof (cases "state rf \<noteq> StateLeader \<or> currentTerm rf \<noteq> ae_Term args")
  case True
  with assms show ?thesis by (intro ignored) (auto simp: handleAppendReply_def)
next
  case False
  then have lead: "state rf = StateLeader" "currentTerm rf = ae_Term args" by auto
  show ?thesis
  proof (cases "ar_Term reply > currentTerm rf")
    case True
    with lead assms show ?thesis by (intro down) (simp_all add: handleAppendReply_def)
  next
    case low: False
    show ?thesis
    proof (cases "ar_Success reply")
      case True
      let ?n = "raise peer (ae_PrevLogIndex args + int (length (ae_Entries args)) + 1) (nextIndex rf)"
      let ?m = "raise peer (ae_PrevLogIndex args + int (length (ae_Entries args))) (matchIndex rf)"
      have "rf' = commit_loop (rf\<lparr>nextIndex := ?n, matchIndex := ?m\<rparr>) (length (log rf) - 1)"
        using handleAppendReply_ack [OF lead low True] assms by simp
      moreover obtain c where "commit_loop (rf\<lparr>nextIndex := ?n, matchIndex := ?m\<rparr>) (length (log rf) - 1) =
          rf\<lparr>nextIndex := ?n, matchIndex := ?m, commitIndex := c\<rparr>"
        "c = commitIndex rf \<or> commitIndex rf < c \<and> c \<le> int (length (log rf) - 1)"
        using commit_loop_only [of "rf\<lparr>nextIndex := ?n, matchIndex := ?m\<rparr>" "length (log rf) - 1"] by auto
      ultimately show ?thesis using lead True by (intro ack [where n = ?n and m = ?m and c = c]) (auto simp: raise_def)
    next
      case no: False
      with lead low assms show ?thesis by (intro retry) (simp_all add: handleAppendReply_def)
    qed
  qed
qed

lemma last_of_term_le: "last_of_term l t i \<le> int i"
  by (induction i) auto

lemma backtrack_bounds:
  assumes "log rf \<noteq> []" and "ar_XIndex reply \<le> int (length (log rf))" and "ar_XLen reply \<le> int (length (log rf))"
  shows "1 \<le> backtrack reply rf" and "backtrack reply rf \<le> int (length (log rf))"
proof -
  have "last_of_term (log rf) (ar_XTerm reply) (length (log rf) - 1) + 1 \<le> int (length (log rf))"
    using last_of_term_le [of "log rf" "ar_XTerm reply" "length (log rf) - 1"] assms(1)
    by (cases "log rf") auto
  moreover have "1 \<le> int (length (log rf))" using assms(1) by (cases "log rf") auto
  ultimately show "1 \<le> backtrack reply rf" and "backtrack reply rf \<le> int (length (log rf))"
    using assms(2,3) by (auto simp: backtrack_def Let_def)
qed

lemma appendArgs_Some:
  assumes "appendArgs peer rf = Some args"
  shows "0 \<le> ae_PrevLogIndex args" "nat (ae_PrevLogIndex args) < length (log rf)"
    "ae_Entries args = drop (nat (ae_PrevLogIndex args) + 1) (log rf)"
    "ae_PrevLogTerm args = le_Term (log rf ! nat (ae_PrevLogIndex args))"
    "ae_Term args = currentTerm rf" "ae_LeaderID args = me rf"
  using assms by (auto simp: appendArgs_def at_Some nat_diff_distrib split: option.splits if_splits)

lemma appendArgs_total:
  assumes "peer < length (nextIndex rf)" and "1 \<le> nextIndex rf ! peer"
    and "nextIndex rf ! peer \<le> int (length (log rf))"
  shows "appendArgs peer rf \<noteq> None"
  using assms by (auto simp: appendArgs_def at_def)

lemma applyLoop_round_fields:
  assumes "applyLoop_round rf = Some (rf', msgs)"
  shows "rf' = rf\<lparr>lastApplied := max (lastApplied rf) (commitIndex rf)\<rparr>"
  using assms by (auto simp: applyLoop_round_def split: if_splits)

end
