(* ===== verification/Raft_Cluster.thy ===== *)
theory Raft_Cluster
  imports Raft_Node Transition
begin

text \<open>
  A cluster of \<open>n\<close> Raft peers. Messages are never removed from the network, so a message that is lost
  is one that is never delivered, and late, repeated and reordered deliveries are all included. Every
  rule of the step relation is one lock section of \<^verbatim>\<open>raft.go\<close> on one peer; \<open>crash\<close> restarts a peer from
  its persister. \<open>calls\<close> holds the goroutines of elections that still wait for a reply, and \<open>votecount\<close> the
  counter that the goroutines of one election share. A replication request carries, besides its
  arguments, the log its sender had: no rule reads it, it only serves to state the invariants.

  The invariants give election safety, the persistence of votes across crashes, log matching, and that
  no handler panics.
\<close>

datatype 'c msg =
    VoteReq nat RequestVoteArgs
  | VoteRep nat RequestVoteArgs RequestVoteReply
  | AppendReq nat "'c AppendEntriesArgs" "'c LogEntry list"
  | AppendRep nat "'c AppendEntriesArgs" AppendEntriesReply

record 'c cluster =
  nodes :: "nat \<Rightarrow> 'c Raft"
  net :: "'c msg set"
  calls :: "(nat \<times> int \<times> nat) set"
  votecount :: "nat \<Rightarrow> int \<Rightarrow> nat"

definition cluster_init :: "nat \<Rightarrow> 'c cluster \<Rightarrow> bool" where
  "cluster_init n s \<longleftrightarrow>
     nodes s = (\<lambda>i. Make n i None) \<and> net s = {} \<and> calls s = {} \<and> votecount s = (\<lambda>i t. 0)"

definition set_node :: "nat \<Rightarrow> 'c Raft \<Rightarrow> 'c cluster \<Rightarrow> 'c cluster" where
  "set_node i rf s = s\<lparr>nodes := (nodes s)(i := rf)\<rparr>"

definition send :: "'c msg set \<Rightarrow> 'c cluster \<Rightarrow> 'c cluster" where
  "send ms s = s\<lparr>net := net s \<union> ms\<rparr>"

inductive raft_step :: "nat \<Rightarrow> 'c cluster \<Rightarrow> 'c cluster \<Rightarrow> bool" for n where
  elect: "i < n \<Longrightarrow> startElection (nodes s i) = Some (rf, args) \<Longrightarrow>
    raft_step n s
      ((send {VoteReq j args | j. j < n \<and> j \<noteq> i} (set_node i rf s))
        \<lparr>calls := calls s \<union> {(i, rv_Term args, j) | j. j < n \<and> j \<noteq> i},
         votecount := (votecount s)(i := (votecount s i)(rv_Term args := 1))\<rparr>)"
| vote: "VoteReq j args \<in> net s \<Longrightarrow> RequestVote args (nodes s j) = Some (rf, reply) \<Longrightarrow>
    raft_step n s (send {VoteRep j args reply} (set_node j rf s))"
| count: "VoteRep j args reply \<in> net s \<Longrightarrow> i = rv_CandidateId args \<Longrightarrow>
    (i, rv_Term args, j) \<in> calls s \<Longrightarrow>
    handleVoteReply args reply (votecount s i (rv_Term args)) (nodes s i) = (rf, c) \<Longrightarrow>
    raft_step n s
      ((set_node i rf s)\<lparr>calls := calls s - {(i, rv_Term args, j)},
         votecount := (votecount s)(i := (votecount s i)(rv_Term args := c))\<rparr>)"
| client: "i < n \<Longrightarrow> Start command (nodes s i) = (rf, idx, term, ok) \<Longrightarrow> raft_step n s (set_node i rf s)"
| replicate: "i < n \<Longrightarrow> j \<in> set (broadcastHeartbeats (nodes s i)) \<Longrightarrow>
    appendArgs j (nodes s i) = Some args \<Longrightarrow>
    raft_step n s (send {AppendReq j args (log (nodes s i))} s)"
| append: "AppendReq j args l \<in> net s \<Longrightarrow> AppendEntries args (nodes s j) = Some (rf, reply) \<Longrightarrow>
    raft_step n s (send {AppendRep j args reply} (set_node j rf s))"
| ack: "AppendRep j args reply \<in> net s \<Longrightarrow> i = ae_LeaderID args \<Longrightarrow>
    raft_step n s (set_node i (handleAppendReply j args reply (nodes s i)) s)"
| timeout: "i < n \<Longrightarrow> raft_step n s (set_node i (count_failure (nodes s i)) s)"
| apply_log: "i < n \<Longrightarrow> applyLoop_round (nodes s i) = Some (rf, msgs) \<Longrightarrow> raft_step n s (set_node i rf s)"
| crash: "i < n \<Longrightarrow>
    raft_step n s ((set_node i (Make n i (persister (nodes s i))) s)
      \<lparr>calls := {c \<in> calls s. fst c \<noteq> i}\<rparr>)"

interpretation rc: transition_system "cluster_init n" "raft_step n" for n .

lemma set_node_simps [simp]:
  "nodes (set_node i rf s) = (nodes s)(i := rf)" "net (set_node i rf s) = net s"
  "calls (set_node i rf s) = calls s" "votecount (set_node i rf s) = votecount s"
  by (simp_all add: set_node_def)

lemma send_simps [simp]:
  "nodes (send ms s) = nodes s" "net (send ms s) = net s \<union> ms"
  "calls (send ms s) = calls s" "votecount (send ms s) = votecount s"
  by (simp_all add: send_def)

section \<open>Structure\<close>

definition node_ok :: "nat \<Rightarrow> nat \<Rightarrow> 'c Raft \<Rightarrow> bool" where
  "node_ok n i rf \<longleftrightarrow> me rf = i \<and> peers rf = n \<and> saved rf \<and> log rf \<noteq> [] \<and>
     length (nextIndex rf) = n \<and> length (matchIndex rf) = n \<and> 0 \<le> currentTerm rf"

text \<open>A request of a leader is a cut through the log it had.\<close>

definition cut_of :: "'c AppendEntriesArgs \<Rightarrow> 'c LogEntry list \<Rightarrow> bool" where
  "cut_of args l \<longleftrightarrow>
     0 \<le> ae_PrevLogIndex args \<and> nat (ae_PrevLogIndex args) < length l \<and>
     ae_Entries args = drop (nat (ae_PrevLogIndex args) + 1) l \<and>
     ae_PrevLogTerm args = le_Term (l ! nat (ae_PrevLogIndex args))"

fun msg_ok :: "nat \<Rightarrow> 'c msg set \<Rightarrow> 'c msg \<Rightarrow> bool" where
  "msg_ok n ms (VoteReq j args) \<longleftrightarrow> j < n \<and> rv_CandidateId args < n \<and> j \<noteq> rv_CandidateId args"
| "msg_ok n ms (VoteRep j args reply) \<longleftrightarrow> j < n \<and> rv_CandidateId args < n \<and> j \<noteq> rv_CandidateId args"
| "msg_ok n ms (AppendReq j args l) \<longleftrightarrow>
     j < n \<and> ae_LeaderID args < n \<and> j \<noteq> ae_LeaderID args \<and> cut_of args l"
| "msg_ok n ms (AppendRep j args reply) \<longleftrightarrow> (\<exists>l. AppendReq j args l \<in> ms) \<and>
     (\<not> ar_Success reply \<longrightarrow> ar_Term reply \<le> ae_Term args \<longrightarrow>
        ar_XIndex reply \<le> ae_PrevLogIndex args \<and> ar_XLen reply \<le> ae_PrevLogIndex args)"

definition struct_inv :: "nat \<Rightarrow> 'c cluster \<Rightarrow> bool" where
  "struct_inv n s \<longleftrightarrow>
     (\<forall>i < n. node_ok n i (nodes s i)) \<and> (\<forall>m \<in> net s. msg_ok n (net s) m) \<and>
     (\<forall>(i, t, j) \<in> calls s. i < n \<and> j < n \<and> i \<noteq> j)"

lemma msg_ok_mono: "msg_ok n ms m \<Longrightarrow> ms \<subseteq> ms' \<Longrightarrow> msg_ok n ms' m"
  by (cases m) auto

lemma node_ok_Make: "node_ok n i (Make n i None)"
  by (simp add: node_ok_def saved_def restored_def) (simp add: Make_def readPersist_def)

lemma merge_entries_cases:
  "merge_entries l k es = (l', changed) \<Longrightarrow> k \<le> length l \<Longrightarrow>
   (l' = l \<and> \<not> changed \<and> k + length es \<le> length l \<and> (\<forall>i < length es. le_Term (l ! (k + i)) = le_Term (es ! i)) \<or>
    changed \<and> (\<exists>m \<le> length es. k + m \<le> length l \<and> (\<forall>i < m. le_Term (l ! (k + i)) = le_Term (es ! i)) \<and>
      l' = take (k + m) l @ drop m es))"
proof (induction l k es arbitrary: l' rule: merge_entries.induct)
  case (2 l k e es)
  show ?case
  proof (cases "k \<ge> length l \<or> le_Term (l ! k) \<noteq> le_Term e")
    case True
    with "2.prems" show ?thesis by (auto intro!: exI [of _ 0])
  next
    case False
    then have run: "merge_entries l (Suc k) es = (l', changed)" "Suc k \<le> length l"
      using "2.prems" by auto
    note IH = "2.IH" [OF False run]
    have shift: "(\<forall>i < m. le_Term (l ! (Suc k + i)) = le_Term (es ! i)) \<Longrightarrow>
        \<forall>i < Suc m. le_Term (l ! (k + i)) = le_Term ((e # es) ! i)" for m
      using False by (auto simp: less_Suc_eq_0_disj)
    show ?thesis
    proof (cases changed)
      case True
      then obtain m where "m \<le> length es" "Suc k + m \<le> length l"
        "\<forall>i < m. le_Term (l ! (Suc k + i)) = le_Term (es ! i)" "l' = take (Suc k + m) l @ drop m es"
        using IH by blast
      with True shift [of m] show ?thesis by (auto intro!: exI [of _ "Suc m"])
    next
      case False
      with IH shift [of "length es"] show ?thesis by auto
    qed
  qed
qed simp

text \<open>Every handler keeps a peer in shape.\<close>

lemma node_ok_fields:
  assumes "node_ok n i rf" and "me rf' = me rf" "peers rf' = peers rf" "saved rf'" "log rf' \<noteq> []"
    "length (nextIndex rf') = length (nextIndex rf)" "length (matchIndex rf') = length (matchIndex rf)"
    "currentTerm rf \<le> currentTerm rf'"
  shows "node_ok n i rf'"
  using assms by (simp add: node_ok_def)

lemma node_ok_RequestVote:
  "node_ok n i rf \<Longrightarrow> RequestVote args rf = Some (rf', reply) \<Longrightarrow> node_ok n i rf'"
  using RequestVote_cases [of args rf rf' reply] by (simp add: node_ok_def le_max_iff_disj)

lemma node_ok_startElection:
  "node_ok n i rf \<Longrightarrow> startElection rf = Some (rf', args) \<Longrightarrow> node_ok n i rf'"
  using startElection_cases [of rf rf' args] by (simp add: node_ok_def)

lemma node_ok_handleVoteReply:
  assumes "node_ok n i rf" and "handleVoteReply args reply c rf = (rf', c')"
  shows "node_ok n i rf'"
  using assms(2)
proof (cases rule: handleVoteReply_cases)
  case win
  with assms(1) show ?thesis by (simp add: node_ok_def saved_def)
qed (use assms(1) in \<open>simp_all add: node_ok_def\<close>)

lemma node_ok_Start: "node_ok n i rf \<Longrightarrow> Start cmd rf = (rf', idx, t, ok) \<Longrightarrow> node_ok n i rf'"
  using Start_cases [of cmd rf rf' idx t ok] by (auto simp: node_ok_def)

lemma node_ok_AppendEntries:
  assumes "node_ok n i rf" and "AppendEntries args rf = Some (rf', reply)"
  shows "node_ok n i rf'"
  using assms(2)
proof (cases rule: AppendEntries_cases)
  case stale
  with assms(1) show ?thesis by (simp add: node_ok_def)
next
  case reject
  with assms(1) adopt_term_saved [of rf "ae_Term args"] show ?thesis
    by (cases "ae_Term args > currentTerm rf") (simp_all add: node_ok_def)
next
  case (accept l changed c)
  have k: "nat (ae_PrevLogIndex args) + 1 \<le> length (log rf)" using accept(3) by simp
  note merge = merge_entries_cases [OF accept(5) k]
  have "l \<noteq> []" using merge assms(1) k by (auto simp: node_ok_def)
  moreover have "saved rf'"
  proof (cases "ae_Term args > currentTerm rf \<or> changed")
    case False
    then have "l = log rf" "saved (adopt_term (ae_Term args) rf)"
      using merge adopt_term_saved assms(1) by (auto simp: node_ok_def)
    with False show ?thesis by (simp add: accept(6) persist_if_def saved_def)
  qed (simp add: accept(6) persist_if_def)
  ultimately show ?thesis using assms(1) by (simp add: accept(6) node_ok_def le_max_iff_disj)
qed

lemma node_ok_handleAppendReply:
  assumes "node_ok n i rf"
  shows "node_ok n i (handleAppendReply j args reply rf)"
  using refl
proof (cases rule: handleAppendReply_cases [of j args reply rf])
  case (ack ns ms c)
  with assms show ?thesis by (auto simp: node_ok_def saved_def)
next
  case retry
  with assms show ?thesis by (simp add: node_ok_def saved_def)
qed (use assms in \<open>simp_all add: node_ok_def\<close>)

lemma node_ok_restart: "node_ok n i rf \<Longrightarrow> node_ok n i (Make n i (persister rf))"
  by (simp add: node_ok_def)

lemma node_ok_apply: "node_ok n i rf \<Longrightarrow> applyLoop_round rf = Some (rf', msgs) \<Longrightarrow> node_ok n i rf'"
  by (drule applyLoop_round_fields) (simp add: node_ok_def saved_def)

lemmas node_ok_handlers = node_ok_RequestVote node_ok_startElection node_ok_handleVoteReply node_ok_Start
  node_ok_AppendEntries node_ok_handleAppendReply node_ok_restart node_ok_apply

text \<open>What a rejecting reply says about the follower's log.\<close>

lemma AppendEntries_reply:
  assumes "AppendEntries args rf = Some (rf', reply)" and "0 \<le> ae_PrevLogIndex args"
    and "\<not> ar_Success reply" and "ar_Term reply \<le> ae_Term args"
  shows "ar_XIndex reply \<le> ae_PrevLogIndex args \<and> ar_XLen reply \<le> ae_PrevLogIndex args"
  using assms(1)
proof (cases rule: AppendEntries_cases)
  case stale
  with assms(4) show ?thesis by simp
qed (use assms in auto)

lemma struct_inv_step:
  assumes "struct_inv n s" and "raft_step n s s'"
  shows "struct_inv n s'"
proof -
  have node: "\<And>i. i < n \<Longrightarrow> node_ok n i (nodes s i)" and msg: "\<And>m. m \<in> net s \<Longrightarrow> msg_ok n (net s) m"
    and call: "\<And>i t j. (i, t, j) \<in> calls s \<Longrightarrow> i < n \<and> j < n \<and> i \<noteq> j"
    using assms(1) by (auto simp: struct_inv_def)
  have more: "msg_ok n (net s \<union> ms) m" "msg_ok n (insert x (net s)) m" if "m \<in> net s" for m ms x
    using msg_ok_mono [OF msg [OF that]] by blast+
  have upd: "\<forall>k < n. node_ok n k (((nodes s)(i := rf)) k)" if "node_ok n i rf" for i rf
    using node that by simp
  from assms(2) show ?thesis
  proof cases
    case (elect i rf args)
    have "rv_CandidateId args = i"
      using startElection_cases(12) [OF elect(3)] node [OF elect(2)] by (simp add: node_ok_def)
    with elect node_ok_startElection [OF node [OF elect(2)] elect(3)] call show ?thesis
      by (auto simp: struct_inv_def more upd node)
  next
    case (vote j args rf reply)
    have "j < n" "rv_CandidateId args < n" "j \<noteq> rv_CandidateId args" using msg [OF vote(2)] by auto
    with vote node_ok_RequestVote [OF node vote(3)] call show ?thesis
      by (auto simp: struct_inv_def more upd node)
  next
    case (count j args reply i rf c)
    have "i < n" using call count(4) by blast
    with count node_ok_handleVoteReply [OF node count(5)] call show ?thesis
      by (auto simp: struct_inv_def msg upd node)
  next
    case (client i command rf idx t ok)
    with node_ok_Start [OF node client(3)] call show ?thesis
      by (auto simp: struct_inv_def msg upd node)
  next
    case (replicate i j args)
    have "j < n" "j \<noteq> i" "me (nodes s i) = i"
      using replicate(2,3) node [OF replicate(2)] by (auto simp: broadcastHeartbeats_def node_ok_def split: if_splits)
    moreover have "cut_of args (log (nodes s i))" "ae_LeaderID args = me (nodes s i)"
      using appendArgs_Some [OF replicate(4)] by (simp_all add: cut_of_def)
    ultimately show ?thesis using replicate(1,2) call by (auto simp: struct_inv_def more node)
  next
    case (append j args l rf reply)
    have j: "j < n" "0 \<le> ae_PrevLogIndex args" using msg [OF append(2)] by (auto simp: cut_of_def)
    have "msg_ok n (net s \<union> {AppendRep j args reply}) (AppendRep j args reply)"
      using append(2) AppendEntries_reply [OF append(3) j(2)] by auto
    with append(1) j node_ok_AppendEntries [OF node append(3)] call show ?thesis
      by (auto simp: struct_inv_def more upd node simp del: msg_ok.simps)
  next
    case (ack j args reply i)
    obtain l where "AppendReq j args l \<in> net s" using msg [OF ack(2)] by auto
    then have "i < n" using msg ack(3) by fastforce
    with ack node_ok_handleAppendReply [OF node] show ?thesis
      by (auto simp: struct_inv_def msg upd node dest: call)
  next
    case (timeout i)
    then have "node_ok n i (count_failure (nodes s i))" using node by (simp add: node_ok_def)
    with timeout call show ?thesis by (auto simp: struct_inv_def msg upd node)
  next
    case (apply_log i rf msgs)
    with node_ok_apply [OF node apply_log(3)] call show ?thesis by (auto simp: struct_inv_def msg upd node)
  next
    case (crash i)
    with node_ok_restart [OF node] call show ?thesis by (auto simp: struct_inv_def msg upd node)
  qed
qed

lemma struct_inv_reach: "rc.reach n s \<Longrightarrow> struct_inv n s"
proof (rule rc.invariant)
  fix s :: "'a cluster"
  assume "cluster_init n s"
  then show "struct_inv n s" by (simp add: cluster_init_def struct_inv_def node_ok_Make)
qed (auto intro: struct_inv_step)

section \<open>Votes\<close>

text \<open>A peer has voted for a candidate in a term when a granting reply is on its way, or when it is the
  candidate itself and has started the election.\<close>

definition granted :: "'c cluster \<Rightarrow> nat \<Rightarrow> int \<Rightarrow> nat \<Rightarrow> bool" where
  "granted s j t c \<longleftrightarrow>
     (\<exists>args reply. VoteRep j args reply \<in> net s \<and> rr_VoteGranted reply \<and> rv_Term args = t \<and>
        rv_CandidateId args = c)"

definition voted :: "'c cluster \<Rightarrow> nat \<Rightarrow> int \<Rightarrow> nat \<Rightarrow> bool" where
  "voted s j t c \<longleftrightarrow> granted s j t c \<or> j = c \<and> 0 < votecount s c t"

definition voters :: "nat \<Rightarrow> 'c cluster \<Rightarrow> nat \<Rightarrow> int \<Rightarrow> nat set" where
  "voters n s i t = {j. j < n \<and> voted s j t i \<and> (i, t, j) \<notin> calls s}"

definition won :: "nat \<Rightarrow> 'c cluster \<Rightarrow> nat \<Rightarrow> int \<Rightarrow> bool" where
  "won n s i t \<longleftrightarrow> n div 2 < votecount s i t"

definition vote_inv :: "nat \<Rightarrow> 'c cluster \<Rightarrow> bool" where
  "vote_inv n s \<longleftrightarrow>
     (\<forall>j < n. \<forall>t c. voted s j t c \<longrightarrow> t < currentTerm (nodes s j) \<or>
        t = currentTerm (nodes s j) \<and> votedFor (nodes s j) = int c) \<and>
     (\<forall>j < n. \<forall>t c c'. voted s j t c \<longrightarrow> voted s j t c' \<longrightarrow> c = c') \<and>
     (\<forall>i < n. \<forall>t. votecount s i t \<le> card (voters n s i t)) \<and>
     (\<forall>i < n. state (nodes s i) = StateCandidate \<longrightarrow> \<not> won n s i (currentTerm (nodes s i))) \<and>
     (\<forall>i < n. state (nodes s i) = StateLeader \<longrightarrow> won n s i (currentTerm (nodes s i))) \<and>
     (\<forall>(i, t, j) \<in> calls s. 0 < votecount s i t) \<and>
     (\<forall>i < n. \<forall>t. 0 < votecount s i t \<longrightarrow> 1 \<le> t)"

lemma vote_invD:
  assumes "vote_inv n s"
  shows "j < n \<Longrightarrow> voted s j t c \<Longrightarrow> t < currentTerm (nodes s j) \<or>
      t = currentTerm (nodes s j) \<and> votedFor (nodes s j) = int c"
    and "j < n \<Longrightarrow> voted s j t c \<Longrightarrow> voted s j t c' \<Longrightarrow> c = c'"
    and "i < n \<Longrightarrow> votecount s i t \<le> card (voters n s i t)"
    and "i < n \<Longrightarrow> state (nodes s i) = StateCandidate \<Longrightarrow> \<not> won n s i (currentTerm (nodes s i))"
    and "i < n \<Longrightarrow> state (nodes s i) = StateLeader \<Longrightarrow> won n s i (currentTerm (nodes s i))"
    and "(i, t, j) \<in> calls s \<Longrightarrow> 0 < votecount s i t"
    and "i < n \<Longrightarrow> 0 < votecount s i t \<Longrightarrow> 1 \<le> t"
  using assms unfolding vote_inv_def by blast+

lemma finite_voters [simp]: "finite (voters n s i t)"
  by (simp add: voters_def)

lemma voters_mono:
  assumes "\<And>j. voted s j t i \<Longrightarrow> voted s' j t i" and "\<And>j. (i, t, j) \<in> calls s' \<Longrightarrow> (i, t, j) \<in> calls s"
  shows "card (voters n s i t) \<le> card (voters n s' i t)"
  using assms by (intro card_mono) (auto simp: voters_def)

text \<open>Steps that touch neither votes nor elections.\<close>

lemma vote_inv_frame:
  assumes inv: "vote_inv n s"
    and votes: "\<And>j t c. voted s' j t c = voted s j t c" "votecount s' = votecount s" "calls s' \<subseteq> calls s"
    and nodes: "nodes s' = (nodes s)(i := rf)"
    and mono: "currentTerm (nodes s i) \<le> currentTerm rf"
      "currentTerm rf = currentTerm (nodes s i) \<Longrightarrow> votedFor rf = votedFor (nodes s i)"
      "state rf \<noteq> StateFollower \<Longrightarrow> state rf = state (nodes s i) \<and> currentTerm rf = currentTerm (nodes s i)"
  shows "vote_inv n s'"
proof -
  note D = vote_invD [OF inv]
  have won: "won n s' = won n s" by (simp add: won_def votes(2) fun_eq_iff)
  have terms: "currentTerm (nodes s j) \<le> currentTerm (nodes s' j)"
    "currentTerm (nodes s' j) = currentTerm (nodes s j) \<Longrightarrow> votedFor (nodes s' j) = votedFor (nodes s j)"
    "state (nodes s' j) \<noteq> StateFollower \<Longrightarrow>
      state (nodes s' j) = state (nodes s j) \<and> currentTerm (nodes s' j) = currentTerm (nodes s j)" for j
    using mono by (auto simp: nodes)
  show ?thesis
    unfolding vote_inv_def
  proof (intro conjI allI impI)
    fix j t c assume "j < n" "voted s' j t c"
    with D(1) [of j t c] votes(1) have "t < currentTerm (nodes s j) \<or>
      t = currentTerm (nodes s j) \<and> votedFor (nodes s j) = int c" by simp
    then show "t < currentTerm (nodes s' j) \<or> t = currentTerm (nodes s' j) \<and> votedFor (nodes s' j) = int c"
      using terms(1,2) [of j] by (cases "currentTerm (nodes s' j) = currentTerm (nodes s j)") auto
  next
    fix j t c c' assume "j < n" "voted s' j t c" "voted s' j t c'"
    then show "c = c'" using D(2) votes(1) by simp
  next
    fix i t assume "i < n"
    have "card (voters n s i t) \<le> card (voters n s' i t)"
      using votes(3) by (intro voters_mono) (auto simp: votes(1))
    with D(3) [OF \<open>i < n\<close>, of t] show "votecount s' i t \<le> card (voters n s' i t)" by (simp add: votes(2))
  next
    fix j assume "j < n" "state (nodes s' j) = StateCandidate"
    then show "\<not> won n s' j (currentTerm (nodes s' j))" using D(4) terms(3) [of j] won by auto
  next
    fix j assume "j < n" "state (nodes s' j) = StateLeader"
    then show "won n s' j (currentTerm (nodes s' j))" using D(5) terms(3) [of j] won by auto
  next
    show "\<forall>(i, t, j) \<in> calls s'. 0 < votecount s' i t" using D(6) votes(2,3) by auto
  next
    fix i t assume "i < n" "0 < votecount s' i t"
    then show "1 \<le> t" using D(7) votes(2) by simp
  qed
qed

lemma vote_inv_elect:
  assumes inv: "vote_inv n s" and st: "struct_inv n s" and n: "2 \<le> n" and i: "i < n"
    and el: "startElection (nodes s i) = Some (rf, args)"
    and nodes: "nodes s' = (nodes s)(i := rf)"
    and calls: "calls s' = calls s \<union> {(i, rv_Term args, j) | j. j < n \<and> j \<noteq> i}"
    and count: "votecount s' = (votecount s)(i := (votecount s i)(rv_Term args := 1))"
    and grant: "granted s' = granted s"
  shows "vote_inv n s'"
proof -
  note D = vote_invD [OF inv] and E = startElection_cases [OF el]
  let ?t = "rv_Term args"
  have ok: "node_ok n i (nodes s i)" using st i by (simp add: struct_inv_def)
  have t: "?t = currentTerm (nodes s i) + 1" "0 \<le> currentTerm (nodes s i)" "votedFor rf = int i"
    using E(10,11) ok by (simp_all add: node_ok_def)
  have old: "\<not> voted s i ?t c" for c using D(1) [OF i, of ?t c] t by auto
  have cnt: "votecount s i ?t = 0" using old [of i] by (simp add: voted_def)
  have voted: "voted s' j t c \<longleftrightarrow> voted s j t c \<or> j = i \<and> c = i \<and> t = ?t" for j t c
    using cnt by (auto simp: voted_def grant count)
  show ?thesis
    unfolding vote_inv_def
  proof (intro conjI allI impI)
    fix j t c assume "j < n" "voted s' j t c"
    then show "t < currentTerm (nodes s' j) \<or> t = currentTerm (nodes s' j) \<and> votedFor (nodes s' j) = int c"
      using D(1) [of j t c] t E(8) by (auto simp: voted nodes)
  next
    fix j t c c' assume "j < n" "voted s' j t c" "voted s' j t c'"
    then show "c = c'" using D(2) [of j t c c'] old by (auto simp: voted)
  next
    fix k t assume "k < n"
    show "votecount s' k t \<le> card (voters n s' k t)"
    proof (cases "k = i \<and> t = ?t")
      case True
      have "i \<in> voters n s' i ?t"
        using i st by (auto simp: voters_def voted struct_inv_def calls)
      then have "0 < card (voters n s' i ?t)" by (auto simp: card_gt_0_iff)
      with True show ?thesis by (simp add: count)
    next
      case False
      then have "card (voters n s k t) \<le> card (voters n s' k t)"
        by (intro voters_mono) (auto simp: voted calls)
      with D(3) [OF \<open>k < n\<close>, of t] False show ?thesis by (auto simp: count)
    qed
  next
    fix j assume "j < n" "state (nodes s' j) = StateCandidate"
    then show "\<not> won n s' j (currentTerm (nodes s' j))"
      using D(4) [of j] n E(8) t(1) by (auto simp: won_def nodes count)
  next
    fix j assume "j < n" "state (nodes s' j) = StateLeader"
    then show "won n s' j (currentTerm (nodes s' j))"
      using D(5) [of j] E(9) by (auto simp: won_def nodes count split: if_splits)
  next
    show "\<forall>(k, t, j) \<in> calls s'. 0 < votecount s' k t" using D(6) by (auto simp: calls count)
  next
    fix k t assume "k < n" "0 < votecount s' k t"
    then show "1 \<le> t" using D(7) [of k t] t(1,2) by (auto simp: count split: if_splits)
  qed
qed

lemma vote_inv_vote:
  assumes inv: "vote_inv n s" and st: "struct_inv n s" and j: "j < n"
    and rv: "RequestVote args (nodes s j) = Some (rf, reply)"
    and nodes: "nodes s' = (nodes s)(j := rf)" and calls: "calls s' = calls s"
    and count: "votecount s' = votecount s"
    and grant: "\<And>k t c. granted s' k t c \<longleftrightarrow> granted s k t c \<or>
      k = j \<and> rr_VoteGranted reply \<and> t = rv_Term args \<and> c = rv_CandidateId args"
  shows "vote_inv n s'"
proof -
  note D = vote_invD [OF inv]
  have "saved (nodes s j)" using st j by (simp add: struct_inv_def node_ok_def)
  note R = RequestVote_cases [OF rv this]
  let ?t = "rv_Term args" and ?c = "rv_CandidateId args"
  have voted: "voted s' k t c \<longleftrightarrow> voted s k t c \<or> k = j \<and> rr_VoteGranted reply \<and> t = ?t \<and> c = ?c" for k t c
    by (auto simp: voted_def grant count)
  have keep: "t < currentTerm rf \<or> t = currentTerm rf \<and> votedFor rf = int c" if "voted s j t c" for t c
  proof -
    from D(1) [OF j that] consider "t < currentTerm (nodes s j)"
      | "t = currentTerm (nodes s j)" "votedFor (nodes s j) = int c" by blast
    then show ?thesis
    proof cases
      case 1
      then show ?thesis using R(8) by linarith
    next
      case 2
      then show ?thesis
        using R(8,11,12) by (cases "?t < currentTerm (nodes s j)"; cases "?t = currentTerm (nodes s j)") auto
    qed
  qed
  have same: "c = ?c" if "rr_VoteGranted reply" "voted s j ?t c" for c
    using keep [OF that(2)] R(13) [OF that(1)] by simp
  show ?thesis
    unfolding vote_inv_def
  proof (intro conjI allI impI)
    fix k t c assume "k < n" "voted s' k t c"
    then show "t < currentTerm (nodes s' k) \<or> t = currentTerm (nodes s' k) \<and> votedFor (nodes s' k) = int c"
      using D(1) [of k t c] keep [of t c] R(13) by (cases "k = j") (auto simp: voted nodes)
  next
    fix k t c c' assume "k < n" "voted s' k t c" "voted s' k t c'"
    then show "c = c'" using D(2) [of k t c c'] same by (auto simp: voted)
  next
    fix k t assume "k < n"
    have "card (voters n s k t) \<le> card (voters n s' k t)" by (intro voters_mono) (auto simp: voted calls)
    with D(3) [OF \<open>k < n\<close>, of t] show "votecount s' k t \<le> card (voters n s' k t)" by (simp add: count)
  next
    fix k assume "k < n" "state (nodes s' k) = StateCandidate"
    then show "\<not> won n s' k (currentTerm (nodes s' k))"
      using D(4) [of k] R(8-10) by (cases "?t \<le> currentTerm (nodes s j)")
        (auto simp: won_def nodes count split: if_splits)
  next
    fix k assume "k < n" "state (nodes s' k) = StateLeader"
    then show "won n s' k (currentTerm (nodes s' k))"
      using D(5) [of k] R(8-10) by (cases "?t \<le> currentTerm (nodes s j)")
        (auto simp: won_def nodes count split: if_splits)
  next
    show "\<forall>(k, t, j) \<in> calls s'. 0 < votecount s' k t" using D(6) by (auto simp: calls count)
  next
    fix k t assume "k < n" "0 < votecount s' k t"
    then show "1 \<le> t" using D(7) [of k t] by (simp add: count)
  qed
qed

lemma vote_inv_count:
  assumes inv: "vote_inv n s" and st: "struct_inv n s"
    and rep: "VoteRep j args reply \<in> net s" and i: "i = rv_CandidateId args"
    and token: "(i, rv_Term args, j) \<in> calls s"
    and hv: "handleVoteReply args reply (votecount s i (rv_Term args)) (nodes s i) = (rf, c)"
    and nodes: "nodes s' = (nodes s)(i := rf)" and calls: "calls s' = calls s - {(i, rv_Term args, j)}"
    and count: "votecount s' = (votecount s)(i := (votecount s i)(rv_Term args := c))"
    and grant: "granted s' = granted s"
  shows "vote_inv n s'"
proof -
  note D = vote_invD [OF inv]
  let ?t = "rv_Term args"
  have ij: "i < n" "j < n" using st token by (auto simp: struct_inv_def)
  have peers: "peers (nodes s i) = n" using st ij(1) by (simp add: struct_inv_def node_ok_def)
  have pos: "0 < votecount s i ?t" using D(6) [OF token] .
  from hv have c: "c = votecount s i ?t \<or> c = votecount s i ?t + 1 \<and> rr_VoteGranted reply"
    by (cases rule: handleVoteReply_cases) auto
  then have voted: "voted s' = voted s"
    using pos by (auto simp: voted_def grant count fun_eq_iff)
  have terms: "currentTerm (nodes s i) \<le> currentTerm rf"
    "currentTerm rf = currentTerm (nodes s i) \<Longrightarrow> votedFor rf = votedFor (nodes s i)"
    using hv by (cases rule: handleVoteReply_cases; auto)+
  show ?thesis
    unfolding vote_inv_def
  proof (intro conjI allI impI)
    fix k t b assume "k < n" "voted s' k t b"
    then show "t < currentTerm (nodes s' k) \<or> t = currentTerm (nodes s' k) \<and> votedFor (nodes s' k) = int b"
      using D(1) [of k t b] terms by (cases "currentTerm rf = currentTerm (nodes s i)") (auto simp: voted nodes)
  next
    fix k t b b' assume "k < n" "voted s' k t b" "voted s' k t b'"
    then show "b = b'" using D(2) by (auto simp: voted)
  next
    fix k t assume "k < n"
    show "votecount s' k t \<le> card (voters n s' k t)"
    proof (cases "k = i \<and> t = ?t \<and> c = votecount s i ?t + 1 \<and> rr_VoteGranted reply")
      case True
      then have "voted s j ?t i" using rep i by (auto simp: voted_def granted_def)
      then have "voters n s' i ?t = insert j (voters n s i ?t)"
        using token ij(2) by (auto simp: voters_def voted calls)
      moreover have "j \<notin> voters n s i ?t" using token by (simp add: voters_def)
      ultimately show ?thesis using True D(3) [OF ij(1), of ?t] by (simp add: count)
    next
      case False
      have "card (voters n s k t) \<le> card (voters n s' k t)" by (intro voters_mono) (auto simp: voted calls)
      with D(3) [OF \<open>k < n\<close>, of t] c False show ?thesis by (auto simp: count split: if_splits)
    qed
  next
    fix k assume k: "k < n" "state (nodes s' k) = StateCandidate"
    show "\<not> won n s' k (currentTerm (nodes s' k))"
    proof (cases "k = i")
      case True
      from hv k(2) True D(4) [OF ij(1)] show ?thesis
        by (cases rule: handleVoteReply_cases) (auto simp: nodes won_def count peers)
    next
      case False
      with k D(4) [of k] show ?thesis by (auto simp: nodes won_def count)
    qed
  next
    fix k assume k: "k < n" "state (nodes s' k) = StateLeader"
    show "won n s' k (currentTerm (nodes s' k))"
    proof (cases "k = i")
      case True
      from hv k(2) True D(5) [OF ij(1)] show ?thesis
        by (cases rule: handleVoteReply_cases) (auto simp: nodes won_def count peers)
    next
      case False
      with k D(5) [of k] show ?thesis by (auto simp: nodes won_def count)
    qed
  next
    have "votecount s k t \<le> votecount s' k t" for k t using c by (auto simp: count)
    then show "\<forall>(k, t, b) \<in> calls s'. 0 < votecount s' k t"
      using D(6) by (fastforce simp: calls intro: less_le_trans)
  next
    fix k t assume "k < n" "0 < votecount s' k t"
    then show "1 \<le> t" using D(7) [of k t] D(7) [OF ij(1) pos] by (auto simp: count split: if_splits)
  qed
qed

lemma vote_inv_step:
  assumes inv: "vote_inv n s" and st: "struct_inv n s" and n: "2 \<le> n" and step: "raft_step n s s'"
  shows "vote_inv n s'"
  using step
proof cases
  case (elect i rf args)
  then show ?thesis
    by (intro vote_inv_elect [OF inv st n elect(2,3)]) (auto simp: granted_def fun_eq_iff)
next
  case (vote j args rf reply)
  have "j < n" using st vote(2) by (auto simp: struct_inv_def)
  with vote show ?thesis by (intro vote_inv_vote [OF inv st _ vote(3)]) (auto simp: granted_def)
next
  case (count j args reply i rf c)
  then show ?thesis
    by (intro vote_inv_count [OF inv st count(2-5)]) (auto simp: granted_def fun_eq_iff)
next
  case (client i command rf idx t ok)
  have "saved (nodes s i)" using st client(2) by (simp add: struct_inv_def node_ok_def)
  with client Start_cases [OF client(3)] show ?thesis
    by (intro vote_inv_frame [OF inv, of s' i rf]) (auto simp: voted_def granted_def)
next
  case (replicate i j args)
  then show ?thesis
    by (intro vote_inv_frame [OF inv, of s' i "nodes s i"]) (auto simp: voted_def granted_def)
next
  case (append j args l rf reply)
  from append(3) have "currentTerm (nodes s j) \<le> currentTerm rf \<and>
      (currentTerm rf = currentTerm (nodes s j) \<longrightarrow> votedFor rf = votedFor (nodes s j)) \<and>
      (state rf \<noteq> StateFollower \<longrightarrow> state rf = state (nodes s j) \<and> currentTerm rf = currentTerm (nodes s j))"
    by (cases rule: AppendEntries_cases) auto
  with append(1) show ?thesis
    by (intro vote_inv_frame [OF inv, of s' j rf]) (auto simp: voted_def granted_def)
next
  case (ack j args reply i)
  let ?rf = "handleAppendReply j args reply (nodes s i)"
  have "currentTerm (nodes s i) \<le> currentTerm ?rf \<and>
      (currentTerm ?rf = currentTerm (nodes s i) \<longrightarrow> votedFor ?rf = votedFor (nodes s i)) \<and>
      (state ?rf \<noteq> StateFollower \<longrightarrow> state ?rf = state (nodes s i) \<and> currentTerm ?rf = currentTerm (nodes s i))"
    using refl by (cases rule: handleAppendReply_cases [of j args reply "nodes s i"]) auto
  with ack(1) show ?thesis
    by (intro vote_inv_frame [OF inv, of s' i ?rf]) (auto simp: voted_def granted_def)
next
  case (timeout i)
  then show ?thesis
    by (intro vote_inv_frame [OF inv, of s' i "count_failure (nodes s i)"]) (auto simp: voted_def granted_def)
next
  case (apply_log i rf msgs)
  then show ?thesis
    by (intro vote_inv_frame [OF inv, of s' i rf])
      (auto simp: voted_def granted_def dest: applyLoop_round_fields)
next
  case (crash i)
  have "saved (nodes s i)" using st crash(2) by (simp add: struct_inv_def node_ok_def)
  with crash show ?thesis
    by (intro vote_inv_frame [OF inv, of s' i "Make n i (persister (nodes s i))"])
      (auto simp: voted_def granted_def)
qed

lemma vote_inv_reach: "rc.reach n s \<Longrightarrow> 2 \<le> n \<Longrightarrow> vote_inv n s"
proof (rule rc.invariant)
  fix s :: "'a cluster"
  assume "cluster_init n s"
  then show "vote_inv n s" by (simp add: cluster_init_def vote_inv_def voted_def granted_def)
qed (auto intro: vote_inv_step struct_inv_reach)

text \<open>A ballot: every peer votes at most once per term, so only one candidate can have a majority.\<close>

locale ballots =
  fixes n :: nat
    and ok :: "'s \<Rightarrow> bool"
    and vote_for :: "'s \<Rightarrow> nat \<Rightarrow> int \<Rightarrow> nat \<Rightarrow> bool"
  assumes one_vote: "ok s \<Longrightarrow> j < n \<Longrightarrow> vote_for s j t c \<Longrightarrow> vote_for s j t c' \<Longrightarrow> c = c'"
begin

lemma majorities_meet:
  assumes "A \<subseteq> {..<n}" and "B \<subseteq> {..<n}" and "n div 2 < card A" and "n div 2 < card B"
  shows "A \<inter> B \<noteq> {}"
proof
  assume "A \<inter> B = {}"
  moreover have "finite A" "finite B" using assms(1,2) by (auto intro: finite_subset)
  ultimately have "card A + card B = card (A \<union> B)" by (simp add: card_Un_disjoint)
  also have "\<dots> \<le> n" using card_mono [of "{..<n}" "A \<union> B"] assms(1,2) by simp
  finally show False using assms(3,4) by linarith
qed

lemma unique_winner:
  assumes "ok s" and "A \<subseteq> {j. j < n \<and> vote_for s j t c}" and "B \<subseteq> {j. j < n \<and> vote_for s j t c'}"
    and "n div 2 < card A" and "n div 2 < card B"
  shows "c = c'"
proof -
  have "A \<inter> B \<noteq> {}" using assms by (intro majorities_meet) auto
  then obtain j where "j \<in> A" "j \<in> B" by blast
  then show ?thesis using one_vote [OF assms(1)] assms(2,3) by blast
qed

end

interpretation rb: ballots n "vote_inv n" voted for n
  by unfold_locales (rule vote_invD(2))

lemma won_unique:
  assumes "vote_inv n s" and "i < n" and "k < n" and "won n s i t" and "won n s k t"
  shows "i = k"
  using assms(1)
proof (rule rb.unique_winner)
  show "voters n s i t \<subseteq> {j. j < n \<and> voted s j t i}" "voters n s k t \<subseteq> {j. j < n \<and> voted s j t k}"
    by (auto simp: voters_def)
  show "n div 2 < card (voters n s i t)" "n div 2 < card (voters n s k t)"
    using vote_invD(3) [OF assms(1,2), of t] vote_invD(3) [OF assms(1,3), of t] assms(4,5)
    by (simp_all add: won_def)
qed

end
