(* ===== verification/Raft_Log.thy ===== *)
theory Raft_Log
  imports Raft_Cluster
begin

text \<open>
  The replicated log. The logs of a cluster are those of its peers and those that the senders of
  replication requests had. \<open>log_inv\<close> says that two of them that agree on the term of an entry agree up
  to that entry, that a leader has every entry of its term, and that entries only carry terms whose election
  was won. The key step is \<open>AppendEntries_log\<close>: a follower that accepts a request either
  keeps its log or ends up with exactly the log the sender had.
\<close>

lemma struct_msg: "struct_inv n s \<Longrightarrow> m \<in> net s \<Longrightarrow> msg_ok n (net s) m"
  by (simp add: struct_inv_def)

definition logs :: "nat \<Rightarrow> 'c cluster \<Rightarrow> 'c LogEntry list set" where
  "logs n s = {log (nodes s i) | i. i < n} \<union> {l | j args l. AppendReq j args l \<in> net s}"

definition matching :: "'c LogEntry list \<Rightarrow> 'c LogEntry list \<Rightarrow> bool" where
  "matching l m \<longleftrightarrow>
     (\<forall>k. k < length l \<longrightarrow> k < length m \<longrightarrow> le_Term (l ! k) = le_Term (m ! k) \<longrightarrow>
        take (Suc k) l = take (Suc k) m)"

text \<open>All entries of a term are in one log.\<close>

definition holds_term :: "'c LogEntry list \<Rightarrow> int \<Rightarrow> 'c LogEntry list \<Rightarrow> bool" where
  "holds_term l t m \<longleftrightarrow>
     (\<forall>k < length m. le_Term (m ! k) = t \<longrightarrow> k < length l \<and> le_Term (l ! k) = t)"

definition log_inv :: "nat \<Rightarrow> 'c cluster \<Rightarrow> bool" where
  "log_inv n s \<longleftrightarrow>
     (\<forall>l \<in> logs n s. \<forall>m \<in> logs n s. matching l m) \<and>
     (\<forall>i < n. state (nodes s i) = StateLeader \<longrightarrow>
        (\<forall>m \<in> logs n s. holds_term (log (nodes s i)) (currentTerm (nodes s i)) m)) \<and>
     (\<forall>l \<in> logs n s. \<forall>e \<in> set l. le_Term e = 0 \<or> (\<exists>i < n. won n s i (le_Term e)))"

lemma log_invD:
  assumes "log_inv n s"
  shows "l \<in> logs n s \<Longrightarrow> m \<in> logs n s \<Longrightarrow> matching l m"
    and "i < n \<Longrightarrow> state (nodes s i) = StateLeader \<Longrightarrow> m \<in> logs n s \<Longrightarrow>
      holds_term (log (nodes s i)) (currentTerm (nodes s i)) m"
    and "l \<in> logs n s \<Longrightarrow> e \<in> set l \<Longrightarrow> le_Term e = 0 \<or> (\<exists>i < n. won n s i (le_Term e))"
  using assms unfolding log_inv_def by blast+

lemma matchingD:
  "matching l m \<Longrightarrow> k < length l \<Longrightarrow> k < length m \<Longrightarrow> le_Term (l ! k) = le_Term (m ! k) \<Longrightarrow>
   take (Suc k) l = take (Suc k) m"
  by (simp add: matching_def)

lemma matching_refl: "matching l l"
  by (simp add: matching_def)

lemma matching_sym: "matching l m \<Longrightarrow> matching m l"
  by (simp add: matching_def)

text \<open>Two logs that match at a point, and whose later entries carry the same terms for a while.\<close>

lemma matching_run:
  assumes "matching l m" and "p < length l" and "p < length m" and "le_Term (l ! p) = le_Term (m ! p)"
    and "Suc p + k \<le> length l" and "Suc p + k \<le> length m"
    and "\<forall>i < k. le_Term (l ! (Suc p + i)) = le_Term (m ! (Suc p + i))"
  shows "take (Suc p + k) l = take (Suc p + k) m"
proof (cases k)
  case 0
  then show ?thesis using matchingD [OF assms(1-4)] by simp
next
  case (Suc i)
  then have "le_Term (l ! (Suc p + i)) = le_Term (m ! (Suc p + i))" using assms(7) by simp
  then show ?thesis using matchingD [OF assms(1), of "Suc p + i"] assms(5,6) Suc by simp
qed

lemma AppendEntries_log:
  assumes "AppendEntries args rf = Some (rf', reply)" and "cut_of args l" and "matching (log rf) l"
  shows "log rf' = log rf \<or> log rf' = l"
  using assms(1)
proof (cases rule: AppendEntries_cases)
  case (accept l' changed c)
  let ?p = "nat (ae_PrevLogIndex args)"
  have cut: "?p < length l" "ae_Entries args = drop (Suc ?p) l" "le_Term (log rf ! ?p) = le_Term (l ! ?p)"
    using assms(2) accept(4) by (simp_all add: cut_of_def)
  have merge: "merge_entries (log rf) (Suc ?p) (drop (Suc ?p) l) = (l', changed)"
    using accept(5) cut(2) by simp
  have p: "Suc ?p \<le> length (log rf)" using accept(3) by simp
  from merge_entries_cases [OF merge p] consider "l' = log rf"
    | m where "m \<le> length (drop (Suc ?p) l)" "Suc ?p + m \<le> length (log rf)"
      "\<forall>i < m. le_Term (log rf ! (Suc ?p + i)) = le_Term (drop (Suc ?p) l ! i)"
      "l' = take (Suc ?p + m) (log rf) @ drop m (drop (Suc ?p) l)" by blast
  then show ?thesis
  proof cases
    case (2 m)
    have "take (Suc ?p + m) (log rf) = take (Suc ?p + m) l"
      using 2(1-3) accept(3) cut(1,3) by (intro matching_run [OF assms(3)]) auto
    then have "l' = l" using 2(4) by (simp add: add.commute)
    then show ?thesis by (simp add: accept(6))
  qed (simp add: accept(6))
qed simp_all

section \<open>The invariant\<close>

text \<open>Steps that create no log and no winner.\<close>

lemma log_inv_frame:
  assumes "log_inv n s" and "logs n s' \<subseteq> logs n s"
    and "\<And>i. i < n \<Longrightarrow> state (nodes s' i) = StateLeader \<Longrightarrow> state (nodes s i) = StateLeader \<and>
      currentTerm (nodes s' i) = currentTerm (nodes s i) \<and> log (nodes s' i) = log (nodes s i)"
    and "\<And>i t. won n s i t \<Longrightarrow> won n s' i t"
  shows "log_inv n s'"
  unfolding log_inv_def
proof (intro conjI ballI allI impI)
  fix l m assume "l \<in> logs n s'" "m \<in> logs n s'"
  then show "matching l m" using log_invD(1) [OF assms(1)] assms(2) by blast
next
  fix i m assume "i < n" "state (nodes s' i) = StateLeader" "m \<in> logs n s'"
  then show "holds_term (log (nodes s' i)) (currentTerm (nodes s' i)) m"
    using log_invD(2) [OF assms(1), of i m] assms(2) assms(3) [of i] by auto
next
  fix l e assume "l \<in> logs n s'" "e \<in> set l"
  then show "le_Term e = 0 \<or> (\<exists>i < n. won n s' i (le_Term e))"
    using log_invD(3) [OF assms(1), of l e] assms(2,4) by blast
qed

lemma logs_node: "i < n \<Longrightarrow> log (nodes s i) \<in> logs n s"
  by (auto simp: logs_def)

lemma logs_update:
  assumes "nodes s' = (nodes s)(i := rf)" and "log rf \<in> logs n s"
    and "\<And>j args l. AppendReq j args l \<in> net s' \<Longrightarrow> AppendReq j args l \<in> net s \<or> l \<in> logs n s"
  shows "logs n s' \<subseteq> logs n s"
proof
  fix l assume "l \<in> logs n s'"
  then consider k where "k < n" "l = log (nodes s' k)" | j args where "AppendReq j args l \<in> net s'"
    by (auto simp: logs_def)
  then show "l \<in> logs n s"
  proof cases
    case 1
    then show ?thesis using assms(1,2) logs_node by (cases "k = i") auto
  next
    case 2
    from assms(3) [OF this] show ?thesis by (auto simp: logs_def)
  qed
qed

text \<open>A candidate that wins starts with a term of which no entry exists.\<close>

lemma log_inv_count:
  assumes inv: "log_inv n s" and vi: "vote_inv n s" and vi': "vote_inv n s'" and st: "struct_inv n s"
    and i: "i < n" and hv: "handleVoteReply args reply (votecount s i (rv_Term args)) (nodes s i) = (rf, c)"
    and nodes: "nodes s' = (nodes s)(i := rf)" and net: "net s' = net s"
    and count: "votecount s' = (votecount s)(i := (votecount s i)(rv_Term args := c))"
  shows "log_inv n s'"
proof -
  have "saved (nodes s i)" using st i by (simp add: struct_inv_def node_ok_def)
  have log: "log rf = log (nodes s i)" using hv by (cases rule: handleVoteReply_cases) auto
  have "votecount s i (rv_Term args) \<le> c" using hv by (cases rule: handleVoteReply_cases) auto
  then have won: "won n s k t \<Longrightarrow> won n s' k t" for k t by (auto simp: won_def count)
  have logs: "logs n s' = logs n s"
    using log by (auto simp: logs_def nodes net fun_upd_def)
  show ?thesis
    unfolding log_inv_def logs
  proof (intro conjI ballI allI impI)
    fix l m assume "l \<in> logs n s" "m \<in> logs n s"
    then show "matching l m" by (rule log_invD(1) [OF inv])
  next
    fix k m assume k: "k < n" "state (nodes s' k) = StateLeader" and m: "m \<in> logs n s"
    show "holds_term (log (nodes s' k)) (currentTerm (nodes s' k)) m"
    proof (cases "k = i \<and> state (nodes s i) = StateCandidate")
      case True
      with k nodes have lead: "state rf = StateLeader" by simp
      with hv True have t: "currentTerm rf = currentTerm (nodes s i)"
        by (cases rule: handleVoteReply_cases) auto
      have "won n s' i (currentTerm rf)" using vote_invD(5) [OF vi' i] lead nodes by simp
      moreover have "1 \<le> currentTerm rf"
        using vote_invD(7) [OF vi' i, of "currentTerm rf"] calculation by (simp add: won_def)
      moreover have "\<not> won n s k' (currentTerm rf)" if "k' < n" for k'
        using won_unique [OF vi' that i won [of k' "currentTerm rf"] calculation(1)]
          vote_invD(4) [OF vi i] True t by auto
      ultimately have "le_Term e \<noteq> currentTerm rf" if "e \<in> set m" for e
        using log_invD(3) [OF inv m that] by auto
      then show ?thesis using True nodes by (auto simp: holds_term_def)
    next
      case False
      then have "state (nodes s k) = StateLeader \<and> currentTerm (nodes s' k) = currentTerm (nodes s k)"
        using k(2) hv nodes by (cases "k = i") (auto elim: handleVoteReply_cases)
      then show ?thesis using log_invD(2) [OF inv k(1) _ m] log nodes by auto
    qed
  next
    fix l e assume "l \<in> logs n s" "e \<in> set l"
    then show "le_Term e = 0 \<or> (\<exists>k < n. won n s' k (le_Term e))" using log_invD(3) [OF inv] won by blast
  qed
qed

text \<open>A leader that appends a command is the only one with entries of its term.\<close>

lemma log_inv_client:
  assumes inv: "log_inv n s" and vi: "vote_inv n s" and i: "i < n"
    and lead: "state (nodes s i) = StateLeader" and e: "le_Term e = currentTerm (nodes s i)"
    and rf: "log rf = log (nodes s i) @ [e]" "state rf = state (nodes s i)"
      "currentTerm rf = currentTerm (nodes s i)"
    and nodes: "nodes s' = (nodes s)(i := rf)" and net: "net s' = net s"
    and count: "votecount s' = votecount s"
  shows "log_inv n s'"
proof -
  let ?l = "log (nodes s i)" and ?t = "currentTerm (nodes s i)"
  have won: "won n s' = won n s" by (simp add: won_def count fun_eq_iff)
  have mem: "m \<in> logs n s \<or> m = ?l @ [e]" if "m \<in> logs n s'" for m
    using that rf(1) by (auto simp: logs_def nodes net split: if_splits)
  have new: "matching (?l @ [e]) m" if m: "m \<in> logs n s" for m
    unfolding matching_def
  proof (intro allI impI)
    fix k assume k: "k < length (?l @ [e])" "k < length m" "le_Term ((?l @ [e]) ! k) = le_Term (m ! k)"
    show "take (Suc k) (?l @ [e]) = take (Suc k) m"
    proof (cases "k < length ?l")
      case True
      then show ?thesis
        using matchingD [OF log_invD(1) [OF inv logs_node [OF i] m] True k(2)] k(3)
        by (simp add: nth_append)
    next
      case False
      then have "le_Term (m ! k) = ?t" using k(1,3) e by (simp add: nth_append)
      then have "k < length ?l"
        using log_invD(2) [OF inv i lead m] k(2) by (simp add: holds_term_def)
      with False show ?thesis by simp
    qed
  qed
  show ?thesis
    unfolding log_inv_def
  proof (intro conjI ballI allI impI)
    fix l m assume "l \<in> logs n s'" "m \<in> logs n s'"
    from mem [OF this(1)] mem [OF this(2)] show "matching l m"
      by (elim disjE) (simp_all add: log_invD(1) [OF inv] new matching_sym [OF new] matching_refl)
  next
    fix k m assume k: "k < n" "state (nodes s' k) = StateLeader" and m: "m \<in> logs n s'"
    have lead': "state (nodes s k) = StateLeader" and t: "currentTerm (nodes s' k) = currentTerm (nodes s k)"
      using k(2) rf lead nodes by (auto split: if_splits)
    have old: "holds_term (log (nodes s k)) (currentTerm (nodes s k)) m'" if "m' \<in> logs n s" for m'
      using log_invD(2) [OF inv k(1) lead' that] .
    have "k = i" if "currentTerm (nodes s k) = ?t"
      using won_unique [OF vi k(1) i] vote_invD(5) [OF vi k(1) lead'] vote_invD(5) [OF vi i lead] that by simp
    then have own: "k = i \<or> currentTerm (nodes s k) \<noteq> ?t" by blast
    have grown: "log (nodes s' k) = log (nodes s k) @ (if k = i then [e] else [])"
      using rf(1) nodes by simp
    from mem [OF m] show "holds_term (log (nodes s' k)) (currentTerm (nodes s' k)) m"
    proof
      assume "m \<in> logs n s"
      from old [OF this] show ?thesis
        unfolding holds_term_def t grown by (auto simp: nth_append)
    next
      assume "m = ?l @ [e]"
      with old [OF logs_node [OF i]] own e show ?thesis
        unfolding holds_term_def t grown by (auto simp: nth_append less_Suc_eq)
    qed
  next
    fix l e' assume l: "l \<in> logs n s'" "e' \<in> set l"
    from mem [OF l(1)] l(2) consider m where "m \<in> logs n s" "e' \<in> set m" | "e' = e"
      using logs_node [OF i] by fastforce
    then show "le_Term e' = 0 \<or> (\<exists>k < n. won n s' k (le_Term e'))"
    proof cases
      case 1
      then show ?thesis using log_invD(3) [OF inv] by (auto simp: won)
    next
      case 2
      then show ?thesis using vote_invD(5) [OF vi i lead] i e by (auto simp: won)
    qed
  qed
qed

lemma log_inv_step:
  assumes inv: "log_inv n s" and vi: "vote_inv n s" and vi': "vote_inv n s'" and st: "struct_inv n s"
    and n: "2 \<le> n" and step: "raft_step n s s'"
  shows "log_inv n s'"
proof -
  have saved: "saved (nodes s i)" if "i < n" for i using st that by (simp add: struct_inv_def node_ok_def)
  have keep: "log_inv n s'"
    if "nodes s' = (nodes s)(i := rf)" "log rf = log (nodes s i)" "i < n" "votecount s' = votecount s"
      "state rf = StateLeader \<Longrightarrow> state (nodes s i) = StateLeader \<and> currentTerm rf = currentTerm (nodes s i)"
      "\<And>j args l. AppendReq j args l \<in> net s' \<Longrightarrow> AppendReq j args l \<in> net s \<or> l \<in> logs n s" for i rf
  proof (rule log_inv_frame [OF inv])
    show "logs n s' \<subseteq> logs n s" using that(6) by (intro logs_update [OF that(1)]) (auto simp: that(2) logs_node that(3))
  qed (use that in \<open>auto simp: won_def split: if_splits\<close>)
  from step show ?thesis
  proof cases
    case (elect i rf args)
    note E = startElection_cases [OF elect(3)]
    have "votecount s i (rv_Term args) = 0"
      using vote_invD(1) [OF vi elect(2), of "rv_Term args" i] E(11) by (auto simp: voted_def)
    moreover have "logs n s' \<subseteq> logs n s"
      by (rule logs_update [where i = i and rf = rf]) (use elect(1,2) E(2) in \<open>auto simp: logs_node\<close>)
    ultimately show ?thesis
      using elect(1) E(9)
      by (intro log_inv_frame [OF inv]) (auto simp: won_def split: if_splits)
  next
    case (vote j args rf reply)
    have j: "j < n" using st vote(2) by (auto simp: struct_inv_def)
    note R = RequestVote_cases [OF vote(3) saved [OF j]]
    have "state rf = StateLeader \<Longrightarrow> state (nodes s j) = StateLeader \<and> currentTerm rf = currentTerm (nodes s j)"
      using R(8-10) by (cases "rv_Term args \<le> currentTerm (nodes s j)") auto
    then show ?thesis using vote(1) j R(2) by (intro keep [of j rf]) auto
  next
    case (count j args reply i rf c)
    have "i < n" using st count(4) by (auto simp: struct_inv_def)
    then show ?thesis
      using count(1) by (intro log_inv_count [OF inv vi vi' st _ count(5)]) simp_all
  next
    case (client i command rf idx t ok)
    note S = Start_cases [OF client(3) saved [OF client(2)]]
    from S(10) show ?thesis
    proof
      assume "log rf = log (nodes s i) \<and> \<not> ok"
      then show ?thesis using client(1,2) S(4,6) by (intro keep [of i rf]) auto
    next
      assume "state (nodes s i) = StateLeader \<and> ok \<and>
        log rf = log (nodes s i) @ [\<lparr>le_Term = currentTerm (nodes s i), le_Command = Some command\<rparr>] \<and>
        idx = int (length (log (nodes s i))) \<and> t = currentTerm (nodes s i)"
      then show ?thesis
        using client(1,2) S(4,6)
        by (intro log_inv_client [OF inv vi client(2), of
              "\<lparr>le_Term = currentTerm (nodes s i), le_Command = Some command\<rparr>" rf]) simp_all
    qed
  next
    case (replicate i j args)
    then show ?thesis using logs_node [of i n s] by (intro keep [of i "nodes s i"]) auto
  next
    case (append j args l rf reply)
    have j: "j < n" "cut_of args l" using st append(2) by (auto simp: struct_inv_def)
    have l: "l \<in> logs n s" using append(2) by (auto simp: logs_def)
    have "matching (log (nodes s j)) l" using log_invD(1) [OF inv logs_node [OF j(1)] l] .
    then have "log rf \<in> logs n s" using AppendEntries_log [OF append(3) j(2)] l logs_node [OF j(1), of s] by auto
    then have "logs n s' \<subseteq> logs n s"
      by (intro logs_update [where i = j and rf = rf]) (use append(1) in auto)
    moreover from append(3) have "state rf = StateLeader \<Longrightarrow> state (nodes s j) = StateLeader \<and>
        currentTerm rf = currentTerm (nodes s j) \<and> log rf = log (nodes s j)"
      by (cases rule: AppendEntries_cases) auto
    ultimately show ?thesis
      using append(1) by (intro log_inv_frame [OF inv]) (auto simp: won_def split: if_splits)
  next
    case (ack j args reply i)
    let ?rf = "handleAppendReply j args reply (nodes s i)"
    obtain l where "AppendReq j args l \<in> net s" using struct_msg [OF st ack(2)] by auto
    from struct_msg [OF st this] have i: "i < n" using ack(3) by simp
    have "log ?rf = log (nodes s i) \<and> (state ?rf = StateLeader \<longrightarrow> state (nodes s i) = StateLeader \<and>
        currentTerm ?rf = currentTerm (nodes s i))"
      using refl by (cases rule: handleAppendReply_cases [of j args reply "nodes s i"]) auto
    then show ?thesis using ack(1) i by (intro keep [of i ?rf]) auto
  next
    case (timeout i)
    then show ?thesis by (intro keep [of i "count_failure (nodes s i)"]) auto
  next
    case (apply_log i rf msgs)
    then show ?thesis by (intro keep [of i rf]) (auto dest: applyLoop_round_fields)
  next
    case (crash i)
    then show ?thesis
      using saved [of i] by (intro keep [of i "Make n i (persister (nodes s i))"]) auto
  qed
qed

lemma log_inv_init: "cluster_init n s \<Longrightarrow> log_inv n s"
  by (auto simp: cluster_init_def log_inv_def logs_def matching_def Make_def readPersist_def)

lemma log_inv_reach: "rc.reach n s \<Longrightarrow> 2 \<le> n \<Longrightarrow> log_inv n s"
proof (induction rule: rc.reach.induct)
  case (next_state s s')
  then show ?case
    using log_inv_step [of n s s'] vote_inv_reach [of n] struct_inv_reach [of n s]
      rc.reach.next_state [of n s s'] by blast
qed (rule log_inv_init)

section \<open>Indices of a leader\<close>

text \<open>The cursors of a leader point into its log, and what a leader sent in its term is not longer than
  its log.\<close>

definition cursors_ok :: "'c Raft \<Rightarrow> bool" where
  "cursors_ok rf \<longleftrightarrow> (\<forall>k \<in> set (nextIndex rf). 1 \<le> k \<and> k \<le> int (length (log rf)))"

definition index_inv :: "nat \<Rightarrow> 'c cluster \<Rightarrow> bool" where
  "index_inv n s \<longleftrightarrow>
     (\<forall>i < n. state (nodes s i) = StateLeader \<longrightarrow> cursors_ok (nodes s i)) \<and>
     (\<forall>j args l. AppendReq j args l \<in> net s \<longrightarrow> won n s (ae_LeaderID args) (ae_Term args) \<and>
        (state (nodes s (ae_LeaderID args)) = StateLeader \<longrightarrow>
         currentTerm (nodes s (ae_LeaderID args)) = ae_Term args \<longrightarrow>
         length l \<le> length (log (nodes s (ae_LeaderID args)))))"

lemma index_invD:
  assumes "index_inv n s"
  shows "i < n \<Longrightarrow> state (nodes s i) = StateLeader \<Longrightarrow> cursors_ok (nodes s i)"
    and "AppendReq j args l \<in> net s \<Longrightarrow> won n s (ae_LeaderID args) (ae_Term args)"
    and "AppendReq j args l \<in> net s \<Longrightarrow> state (nodes s (ae_LeaderID args)) = StateLeader \<Longrightarrow>
      currentTerm (nodes s (ae_LeaderID args)) = ae_Term args \<Longrightarrow>
      length l \<le> length (log (nodes s (ae_LeaderID args)))"
  using assms unfolding index_inv_def by blast+

lemma index_inv_update:
  assumes inv: "index_inv n s" and nodes: "nodes s' = (nodes s)(i := rf)"
    and won: "\<And>k t. won n s k t \<Longrightarrow> won n s' k t"
    and lead: "state rf = StateLeader \<Longrightarrow> state (nodes s i) = StateLeader \<and>
      currentTerm rf = currentTerm (nodes s i) \<and> length (log (nodes s i)) \<le> length (log rf)"
    and cursors: "state rf = StateLeader \<Longrightarrow> cursors_ok (nodes s i) \<Longrightarrow> cursors_ok rf"
    and net: "\<And>j args l. AppendReq j args l \<in> net s' \<Longrightarrow> AppendReq j args l \<in> net s"
  shows "index_inv n s'"
  unfolding index_inv_def
proof (intro conjI allI impI)
  fix k assume "k < n" "state (nodes s' k) = StateLeader"
  then show "cursors_ok (nodes s' k)"
    using index_invD(1) [OF inv, of k] lead cursors nodes by (cases "k = i") auto
next
  fix j args l assume "AppendReq j args l \<in> net s'"
  then have m: "AppendReq j args l \<in> net s" by (rule net)
  then show "won n s' (ae_LeaderID args) (ae_Term args)" using index_invD(2) [OF inv] won by blast
  assume "state (nodes s' (ae_LeaderID args)) = StateLeader"
    "currentTerm (nodes s' (ae_LeaderID args)) = ae_Term args"
  then show "length l \<le> length (log (nodes s' (ae_LeaderID args)))"
    using index_invD(3) [OF inv m] lead nodes by (cases "ae_LeaderID args = i") auto
qed

lemma cursors_ok_grow: "cursors_ok rf \<Longrightarrow> nextIndex rf' = nextIndex rf \<Longrightarrow>
  length (log rf) \<le> length (log rf') \<Longrightarrow> cursors_ok rf'"
  by (force simp: cursors_ok_def)

lemma cursors_ok_set:
  "cursors_ok rf \<Longrightarrow> 1 \<le> k \<Longrightarrow> k \<le> int (length (log rf)) \<Longrightarrow> nextIndex rf' = (nextIndex rf)[p := k] \<Longrightarrow>
   log rf' = log rf \<Longrightarrow> cursors_ok rf'"
  by (auto simp: cursors_ok_def dest: set_update_subset_insert [THEN subsetD])

lemma index_inv_ack:
  assumes inv: "index_inv n s" and st: "struct_inv n s" and rep: "AppendRep j args reply \<in> net s"
    and i: "i = ae_LeaderID args" and nodes: "nodes s' = (nodes s)(i := handleAppendReply j args reply (nodes s i))"
    and net: "net s' = net s" and count: "votecount s' = votecount s"
  shows "index_inv n s'"
proof -
  let ?rf = "handleAppendReply j args reply (nodes s i)"
  obtain l where req: "AppendReq j args l \<in> net s" and x: "\<not> ar_Success reply \<Longrightarrow> ar_Term reply \<le> ae_Term args \<Longrightarrow>
      ar_XIndex reply \<le> ae_PrevLogIndex args \<and> ar_XLen reply \<le> ae_PrevLogIndex args"
    using struct_msg [OF st rep] by auto
  have ok: "i < n" "cut_of args l" using struct_msg [OF st req] i by simp_all
  then have ne: "log (nodes s i) \<noteq> []" using st by (simp add: struct_inv_def node_ok_def)
  have len: "int (length l) = ae_PrevLogIndex args + int (length (ae_Entries args)) + 1"
    "ae_PrevLogIndex args < int (length l)" using ok(2) by (auto simp: cut_of_def)
  have pos: "0 \<le> ae_PrevLogIndex args" using ok(2) by (simp add: cut_of_def)
  have up: "length l \<le> length (log (nodes s i))"
    if "state (nodes s i) = StateLeader" "currentTerm (nodes s i) = ae_Term args"
    using index_invD(3) [OF inv req] that i by simp
  show ?thesis
  proof (rule index_inv_update [OF inv nodes])
    show "state ?rf = StateLeader \<Longrightarrow> state (nodes s i) = StateLeader \<and>
      currentTerm ?rf = currentTerm (nodes s i) \<and> length (log (nodes s i)) \<le> length (log ?rf)"
      using refl by (cases rule: handleAppendReply_cases [of j args reply "nodes s i"]) auto
    assume lead: "state ?rf = StateLeader" and cur: "cursors_ok (nodes s i)"
    from refl show "cursors_ok ?rf"
    proof (cases rule: handleAppendReply_cases [of j args reply "nodes s i"])
      case ignored
      with cur show ?thesis by simp
    next
      case down
      with lead show ?thesis by simp
    next
      case (ack ns ms c)
      from ack(5) show ?thesis
      proof
        assume "ns = nextIndex (nodes s i)"
        with cur show ?thesis by (auto simp: ack(4) cursors_ok_def)
      next
        assume "ns = (nextIndex (nodes s i))[j := ae_PrevLogIndex args + int (length (ae_Entries args)) + 1] \<and>
          nextIndex (nodes s i) ! j < ae_PrevLogIndex args + int (length (ae_Entries args)) + 1"
        then have "nextIndex ?rf = (nextIndex (nodes s i))[j := int (length l)]"
          by (simp only: ack(4) len(1)) simp
        then show ?thesis
          using up [OF ack(1,2)] len(2) pos by (intro cursors_ok_set [OF cur]) (simp_all add: ack(4))
      qed
    next
      case retry
      then have "ar_XIndex reply \<le> int (length (log (nodes s i)))" "ar_XLen reply \<le> int (length (log (nodes s i)))"
        using x up [OF retry(1,2)] len(2) by auto
      from backtrack_bounds [OF ne this] retry(5) show ?thesis
        by (intro cursors_ok_set [OF cur, of "backtrack reply (nodes s i)" _ j]) simp_all
    qed
  qed (simp_all add: won_def count net)
qed

lemma index_inv_count:
  assumes inv: "index_inv n s" and vi: "vote_inv n s" and st: "struct_inv n s" and i: "i < n"
    and hv: "handleVoteReply args reply (votecount s i (rv_Term args)) (nodes s i) = (rf, c)"
    and nodes: "nodes s' = (nodes s)(i := rf)" and net: "net s' = net s"
    and count: "votecount s' = (votecount s)(i := (votecount s i)(rv_Term args := c))"
  shows "index_inv n s'"
proof -
  have "votecount s i (rv_Term args) \<le> c" using hv by (cases rule: handleVoteReply_cases) auto
  then have won: "won n s k t \<Longrightarrow> won n s' k t" for k t by (auto simp: won_def count)
  from hv show ?thesis
  proof (cases rule: handleVoteReply_cases)
    case win
    have ne: "log (nodes s i) \<noteq> []" using st i by (simp add: struct_inv_def node_ok_def)
    show ?thesis
      unfolding index_inv_def
    proof (intro conjI allI impI)
      fix k assume k: "k < n" "state (nodes s' k) = StateLeader"
      show "cursors_ok (nodes s' k)"
      proof (cases "k = i")
        case True
        then show ?thesis using ne by (simp add: nodes win(1) cursors_ok_def Suc_leI)
      next
        case False
        then show ?thesis using index_invD(1) [OF inv k(1)] k(2) by (simp add: nodes)
      qed
    next
      fix j b l assume "AppendReq j b l \<in> net s'"
      then have m: "AppendReq j b l \<in> net s" by (simp add: net)
      show "won n s' (ae_LeaderID b) (ae_Term b)" using index_invD(2) [OF inv m] by (rule won)
      assume lead: "state (nodes s' (ae_LeaderID b)) = StateLeader"
        "currentTerm (nodes s' (ae_LeaderID b)) = ae_Term b"
      have "ae_LeaderID b \<noteq> i"
        using index_invD(2) [OF inv m] vote_invD(4) [OF vi i win(4)] lead(2) by (auto simp: nodes win(1))
      then show "length l \<le> length (log (nodes s' (ae_LeaderID b)))"
        using index_invD(3) [OF inv m] lead by (simp add: nodes)
    qed
  qed (rule index_inv_update [OF inv nodes won]; simp add: net)+
qed

lemma index_inv_step:
  assumes inv: "index_inv n s" and vi: "vote_inv n s" and st: "struct_inv n s"
    and step: "raft_step n s s'"
  shows "index_inv n s'"
proof -
  have saved: "saved (nodes s i)" if "i < n" for i using st that by (simp add: struct_inv_def node_ok_def)
  from step show ?thesis
  proof cases
    case (elect i rf args)
    note E = startElection_cases [OF elect(3)]
    have "votecount s i (rv_Term args) = 0"
      using vote_invD(1) [OF vi elect(2), of "rv_Term args" i] E(11) by (auto simp: voted_def)
    then show ?thesis
      using elect(1) E(9) by (intro index_inv_update [OF inv, of s' i rf]) (auto simp: won_def)
  next
    case (vote j args rf reply)
    have j: "j < n" using struct_msg [OF st vote(2)] by simp
    note R = RequestVote_cases [OF vote(3) saved [OF j]]
    have "state rf = StateLeader \<Longrightarrow> state (nodes s j) = StateLeader \<and> currentTerm rf = currentTerm (nodes s j)"
      using R(8-10) by (cases "rv_Term args \<le> currentTerm (nodes s j)") auto
    then show ?thesis
      using vote(1) R(2,5) by (intro index_inv_update [OF inv, of s' j rf]) (auto simp: won_def cursors_ok_def)
  next
    case (count j args reply i rf c)
    have "i < n" using st count(4) by (auto simp: struct_inv_def)
    then show ?thesis using count(1) by (intro index_inv_count [OF inv vi st _ count(5)]) simp_all
  next
    case (client i command rf idx t ok)
    note S = Start_cases [OF client(3) saved [OF client(2)]]
    have grow: "length (log (nodes s i)) \<le> length (log rf)" using S(10) by auto
    show ?thesis
      using client(1) S(4,6) grow cursors_ok_grow [OF _ S(7) grow]
      by (intro index_inv_update [OF inv, of s' i rf]) (auto simp: won_def)
  next
    case (replicate i j args)
    note A = appendArgs_Some [OF replicate(4)]
    have lead: "state (nodes s i) = StateLeader" using replicate(3) by (auto simp: broadcastHeartbeats_def split: if_splits)
    have "ae_LeaderID args = i" using A(6) st replicate(2) by (simp add: struct_inv_def node_ok_def)
    moreover have "won n s i (ae_Term args)" using vote_invD(5) [OF vi replicate(2) lead] A(5) by simp
    moreover have "won n s' = won n s" using replicate(1) by (simp add: won_def fun_eq_iff)
    ultimately show ?thesis
      using inv replicate(1) unfolding index_inv_def by (auto simp del: split_paired_All)
  next
    case (append j args l rf reply)
    from append(3) have "state rf = StateLeader \<Longrightarrow> state (nodes s j) = StateLeader \<and>
        currentTerm rf = currentTerm (nodes s j) \<and> log rf = log (nodes s j) \<and> nextIndex rf = nextIndex (nodes s j)"
      by (cases rule: AppendEntries_cases) auto
    then show ?thesis
      using append(1) by (intro index_inv_update [OF inv, of s' j rf]) (auto simp: won_def cursors_ok_def)
  next
    case (ack j args reply i)
    then show ?thesis by (intro index_inv_ack [OF inv st ack(2,3)]) simp_all
  next
    case (timeout i)
    then show ?thesis
      by (intro index_inv_update [OF inv, of s' i "count_failure (nodes s i)"]) (auto simp: won_def cursors_ok_def)
  next
    case (apply_log i rf msgs)
    have "rf = (nodes s i)\<lparr>lastApplied := max (lastApplied (nodes s i)) (commitIndex (nodes s i))\<rparr>"
      using apply_log(3) by (rule applyLoop_round_fields)
    then show ?thesis
      using apply_log(1) by (intro index_inv_update [OF inv, of s' i rf]) (auto simp: won_def cursors_ok_def)
  next
    case (crash i)
    then show ?thesis
      by (intro index_inv_update [OF inv, of s' i "Make n i (persister (nodes s i))"]) (auto simp: won_def)
  qed
qed

lemma index_inv_reach: "rc.reach n s \<Longrightarrow> 2 \<le> n \<Longrightarrow> index_inv n s"
proof (induction rule: rc.reach.induct)
  case (start s)
  then show ?case by (auto simp: cluster_init_def index_inv_def)
next
  case (next_state s s')
  then show ?case using index_inv_step [of n s s'] vote_inv_reach [of n s] struct_inv_reach [of n s] by blast
qed

section \<open>The shape of logs\<close>

text \<open>A step creates no log, or the log of a leader with one more entry of its term.\<close>

lemma logs_insert:
  assumes "nodes s' = (nodes s)(i := rf)" and "net s' = net s"
  shows "logs n s' \<subseteq> insert (log rf) (logs n s)"
  using assms by (auto simp: logs_def)

lemma logs_step:
  assumes li: "log_inv n s" and st: "struct_inv n s" and step: "raft_step n s s'"
  shows "logs n s' \<subseteq> logs n s \<or> (\<exists>i c. i < n \<and> state (nodes s i) = StateLeader \<and>
    logs n s' \<subseteq> insert (log (nodes s i) @ [\<lparr>le_Term = currentTerm (nodes s i), le_Command = Some c\<rparr>]) (logs n s))"
proof -
  have saved: "saved (nodes s i)" if "i < n" for i using st that by (simp add: struct_inv_def node_ok_def)
  have keep: ?thesis if "nodes s' = (nodes s)(i := rf)" "log rf \<in> logs n s"
    "\<And>j args l. AppendReq j args l \<in> net s' \<Longrightarrow> AppendReq j args l \<in> net s \<or> l \<in> logs n s" for i rf
    using logs_update [OF that] by blast
  from step show ?thesis
  proof cases
    case (elect i rf args)
    then show ?thesis using startElection_cases(2) [OF elect(3)] logs_node [of i n s] by (intro keep [of i rf]) auto
  next
    case (vote j args rf reply)
    have "j < n" using struct_msg [OF st vote(2)] by simp
    then show ?thesis using vote(1) RequestVote_cases(2) [OF vote(3) saved] logs_node [of j n s]
      by (intro keep [of j rf]) auto
  next
    case (count j args reply i rf c)
    have "i < n" using st count(4) by (auto simp: struct_inv_def)
    moreover from count(5) have "log rf = log (nodes s i)" by (cases rule: handleVoteReply_cases) auto
    ultimately show ?thesis using count(1) logs_node [of i n s] by (intro keep [of i rf]) auto
  next
    case (client i command rf idx t ok)
    have "logs n s' \<subseteq> insert (log rf) (logs n s)" using client(1) by (intro logs_insert) simp_all
    then show ?thesis using Start_cases(10) [OF client(3) saved [OF client(2)]] client(2) logs_node [OF client(2), of s]
      by (metis insert_absorb)
  next
    case (replicate i j args)
    then show ?thesis using logs_node [of i n s] by (intro keep [of i "nodes s i"]) auto
  next
    case (append j args l rf reply)
    have j: "j < n" "cut_of args l" using struct_msg [OF st append(2)] by simp_all
    have l: "l \<in> logs n s" using append(2) by (auto simp: logs_def)
    have "log rf \<in> logs n s"
      using AppendEntries_log [OF append(3) j(2) log_invD(1) [OF li logs_node [OF j(1)] l]] l logs_node [OF j(1), of s]
      by auto
    then show ?thesis using append(1) by (intro keep [of j rf]) auto
  next
    case (ack j args reply i)
    obtain l where "AppendReq j args l \<in> net s" using struct_msg [OF st ack(2)] by auto
    then have "i < n" using struct_msg [OF st] ack(3) by fastforce
    moreover have "log (handleAppendReply j args reply (nodes s i)) = log (nodes s i)"
      using refl by (cases rule: handleAppendReply_cases [of j args reply "nodes s i"]) auto
    ultimately show ?thesis using ack(1) logs_node [of i n s]
      by (intro keep [of i "handleAppendReply j args reply (nodes s i)"]) auto
  next
    case (timeout i)
    then show ?thesis using logs_node [of i n s] by (intro keep [of i "count_failure (nodes s i)"]) auto
  next
    case (apply_log i rf msgs)
    then show ?thesis using logs_node [of i n s] applyLoop_round_fields [OF apply_log(3)] by (intro keep [of i rf]) auto
  next
    case (crash i)
    then show ?thesis using logs_node [of i n s] saved [of i]
      by (intro keep [of i "Make n i (persister (nodes s i))"]) auto
  qed
qed

text \<open>A log begins with the sentinel, and every later entry carries a command and a term. Where
  two logs hold entries of one term, the one with the later entry holds the earlier position, too.\<close>

definition log_ok :: "'c LogEntry list \<Rightarrow> bool" where
  "log_ok l \<longleftrightarrow> l \<noteq> [] \<and> hd l = \<lparr>le_Term = 0, le_Command = None\<rparr> \<and>
     (\<forall>e \<in> set (tl l). le_Command e \<noteq> None) \<and> (\<forall>e \<in> set l. 0 \<le> le_Term e)"

definition contiguous :: "'c LogEntry list \<Rightarrow> 'c LogEntry list \<Rightarrow> bool" where
  "contiguous l m \<longleftrightarrow>
     (\<forall>p k. p < length l \<longrightarrow> p < k \<longrightarrow> k < length m \<longrightarrow> le_Term (l ! p) = le_Term (m ! k) \<longrightarrow>
        le_Term (m ! p) = le_Term (m ! k))"

lemma contiguousI:
  "(\<And>p k. p < length l \<Longrightarrow> p < k \<Longrightarrow> k < length m \<Longrightarrow> le_Term (l ! p) = le_Term (m ! k) \<Longrightarrow>
     le_Term (m ! p) = le_Term (m ! k)) \<Longrightarrow> contiguous l m"
  by (simp add: contiguous_def)

lemma contiguousD:
  "contiguous l m \<Longrightarrow> p < length l \<Longrightarrow> p < k \<Longrightarrow> k < length m \<Longrightarrow> le_Term (l ! p) = le_Term (m ! k) \<Longrightarrow>
   le_Term (m ! p) = le_Term (m ! k)"
  by (simp add: contiguous_def)

definition shape_inv :: "nat \<Rightarrow> 'c cluster \<Rightarrow> bool" where
  "shape_inv n s \<longleftrightarrow> (\<forall>l \<in> logs n s. log_ok l \<and> (\<forall>m \<in> logs n s. contiguous l m))"

lemma shape_invD:
  assumes "shape_inv n s" and "l \<in> logs n s"
  shows "log_ok l" and "m \<in> logs n s \<Longrightarrow> contiguous l m"
  using assms by (simp_all add: shape_inv_def)

text \<open>Appending an entry of a term whose entries are all in the log.\<close>

lemma contiguous_append:
  assumes "\<And>m. m \<in> M \<Longrightarrow> holds_term l (le_Term e) m" and "\<And>m m'. m \<in> M \<Longrightarrow> m' \<in> M \<Longrightarrow> contiguous m m'" and "l \<in> M"
    and "m \<in> insert (l @ [e]) M" and "m' \<in> insert (l @ [e]) M"
  shows "contiguous m m'"
proof -
  have 1: "contiguous x (l @ [e])" if "x \<in> M" for x
    using assms(1) [OF that] assms(2) [OF that assms(3)]
    by (auto simp: contiguous_def holds_term_def nth_append split: if_splits)
  have 2: "contiguous (l @ [e]) x" if "x \<in> M" for x
    using assms(1) [OF that] assms(2) [OF assms(3) that]
    by (intro contiguousI) (auto simp: nth_append holds_term_def dest: contiguousD split: if_splits)
  have 3: "contiguous (l @ [e]) (l @ [e])"
    using 1 [OF assms(3)] by (auto simp: contiguous_def nth_append split: if_splits)
  show ?thesis using assms(2,4,5) 1 2 3 by blast
qed

lemma shape_inv_step:
  assumes inv: "shape_inv n s" and li: "log_inv n s" and st: "struct_inv n s" and step: "raft_step n s s'"
  shows "shape_inv n s'"
  using logs_step [OF li st step]
proof
  assume "logs n s' \<subseteq> logs n s"
  then show ?thesis using inv by (auto simp: shape_inv_def)
next
  assume "\<exists>i c. i < n \<and> state (nodes s i) = StateLeader \<and>
    logs n s' \<subseteq> insert (log (nodes s i) @ [\<lparr>le_Term = currentTerm (nodes s i), le_Command = Some c\<rparr>]) (logs n s)"
  then obtain i c where i: "i < n" "state (nodes s i) = StateLeader"
    and sub: "logs n s' \<subseteq> insert (log (nodes s i) @ [\<lparr>le_Term = currentTerm (nodes s i), le_Command = Some c\<rparr>]) (logs n s)"
    (is "_ \<subseteq> insert (_ @ [?e]) _") by blast
  have "0 \<le> currentTerm (nodes s i)" using st i(1) by (simp add: struct_inv_def node_ok_def)
  then have "log_ok (log (nodes s i) @ [?e])"
    using shape_invD(1) [OF inv logs_node [OF i(1)]] by (auto simp: log_ok_def)
  moreover have "contiguous l m" if "l \<in> insert (log (nodes s i) @ [?e]) (logs n s)"
    "m \<in> insert (log (nodes s i) @ [?e]) (logs n s)" for l m
  proof (rule contiguous_append [OF _ _ _ that])
    show "holds_term (log (nodes s i)) (le_Term ?e) x" if "x \<in> logs n s" for x
      using log_invD(2) [OF li i that] by simp
  qed (fact shape_invD(2) [OF inv], fact logs_node [OF i(1)])
  moreover have "log_ok l" if "l \<in> logs n s" for l using shape_invD(1) [OF inv that] .
  ultimately have "log_ok l \<and> contiguous l m" if "l \<in> logs n s'" "m \<in> logs n s'" for l m
    using subsetD [OF sub that(1)] subsetD [OF sub that(2)] by (metis insertE)
  then show ?thesis unfolding shape_inv_def by blast
qed

lemma shape_inv_reach: "rc.reach n s \<Longrightarrow> 2 \<le> n \<Longrightarrow> shape_inv n s"
proof (induction rule: rc.reach.induct)
  case (start s)
  then show ?case
    by (auto simp: cluster_init_def shape_inv_def logs_def log_ok_def contiguous_def Make_def readPersist_def)
next
  case (next_state s s')
  then show ?case using shape_inv_step [of n s s'] log_inv_reach [of n s] struct_inv_reach [of n s] by blast
qed

end
