(* ===== verification/Raft_Effects.thy ===== *)
theory Raft_Effects
  imports Raft_Log "HOL-Library.Sublist"
begin

text \<open>
  What one step of the cluster can do to a peer and to the network: to its log, its role, its commit index
  and its acknowledged indices, and which messages it adds. The invariants of the safety proof are derived from these
  facts without going through the rules of the step relation again.
\<close>

section \<open>Logs and prefixes\<close>

lemma take_prefix: "prefix p l \<Longrightarrow> k \<le> length p \<Longrightarrow> prefix (take k p) l"
  using prefix_order.trans take_is_prefix by blast

lemma prefix_take_iff: "prefix p l \<Longrightarrow> prefix p (take k l) \<longleftrightarrow> length p \<le> k"
  using prefix_length_le [of p "take k l"] by (auto simp: prefix_def)

lemma take_of_prefix: "prefix p l \<Longrightarrow> k \<le> length p \<Longrightarrow> take k l = take k p"
  by (auto simp: prefix_def)

lemma prefix_nth: "prefix p l \<Longrightarrow> k < length p \<Longrightarrow> l ! k = p ! k"
  by (auto simp: prefix_def nth_append)

lemma prefix_length: "prefix p l \<Longrightarrow> length p = length l \<Longrightarrow> p = l"
  by (auto simp: prefix_def)

text \<open>A request that the log of the receiver already contains changes nothing.\<close>

lemma merge_entries_same:
  "k + length es \<le> length l \<Longrightarrow> \<forall>i < length es. l ! (k + i) = es ! i \<Longrightarrow> merge_entries l k es = (l, False)"
proof (induction l k es rule: merge_entries.induct)
  case (2 l k e es)
  have "\<forall>i < length es. l ! (Suc k + i) = es ! i" using "2.prems"(2) by (auto dest: spec [of _ "Suc _"])
  moreover have "l ! k = e" using "2.prems"(2) by auto
  ultimately show ?case using "2.IH" "2.prems"(1) by auto
qed simp

lemma AppendEntries_keeps:
  assumes "AppendEntries args rf = Some (rf', reply)" and "cut_of args l" and "prefix l (log rf)"
  shows "log rf' = log rf"
  using assms(1)
proof (cases rule: AppendEntries_cases)
  case (accept l' changed c)
  let ?p = "nat (ae_PrevLogIndex args)"
  have cut: "?p < length l" "ae_Entries args = drop (Suc ?p) l" using assms(2) by (simp_all add: cut_of_def)
  have "merge_entries (log rf) (Suc ?p) (ae_Entries args) = (log rf, False)"
    using cut assms(3) by (intro merge_entries_same) (auto simp: prefix_nth dest: prefix_length_le)
  then show ?thesis using accept(5) by (simp add: accept(6))
qed simp_all

text \<open>After a successful reply the log of the receiver contains that of the sender.\<close>

lemma AppendEntries_contains:
  assumes "AppendEntries args rf = Some (rf', reply)" and "cut_of args l" and "matching (log rf) l"
    and "ar_Success reply"
  shows "prefix l (log rf')" and "currentTerm rf' = ae_Term args"
proof -
  from assms(1) have "prefix l (log rf') \<and> currentTerm rf' = ae_Term args"
  proof (cases rule: AppendEntries_cases)
    case (accept l' changed c)
    let ?p = "nat (ae_PrevLogIndex args)"
    have cut: "?p < length l" "ae_Entries args = drop (Suc ?p) l" "le_Term (log rf ! ?p) = le_Term (l ! ?p)"
      using assms(2) accept(4) by (simp_all add: cut_of_def)
    have merge: "merge_entries (log rf) (Suc ?p) (drop (Suc ?p) l) = (l', changed)" using accept(5) cut(2) by simp
    have p: "Suc ?p \<le> length (log rf)" using accept(3) by simp
    from merge_entries_cases [OF merge p] have "prefix l l'"
    proof (elim disjE conjE)
      assume same: "l' = log rf" "Suc ?p + length (drop (Suc ?p) l) \<le> length (log rf)"
        "\<forall>i < length (drop (Suc ?p) l). le_Term (log rf ! (Suc ?p + i)) = le_Term (drop (Suc ?p) l ! i)"
      have "take (Suc ?p + length (drop (Suc ?p) l)) (log rf) = take (Suc ?p + length (drop (Suc ?p) l)) l"
        using same accept(3) cut by (intro matching_run [OF assms(3)]) auto
      then have "take (length l) (log rf) = l" using cut(1) by (cases l) simp_all
      then show ?thesis by (metis same(1) take_is_prefix)
    next
      assume ex: "\<exists>m \<le> length (drop (Suc ?p) l). Suc ?p + m \<le> length (log rf) \<and>
          (\<forall>i < m. le_Term (log rf ! (Suc ?p + i)) = le_Term (drop (Suc ?p) l ! i)) \<and>
          l' = take (Suc ?p + m) (log rf) @ drop m (drop (Suc ?p) l)"
      from ex obtain m where m: "m \<le> length (drop (Suc ?p) l)" "Suc ?p + m \<le> length (log rf)"
        "\<forall>i < m. le_Term (log rf ! (Suc ?p + i)) = le_Term (drop (Suc ?p) l ! i)"
        "l' = take (Suc ?p + m) (log rf) @ drop m (drop (Suc ?p) l)" by blast
      have "take (Suc ?p + m) (log rf) = take (Suc ?p + m) l"
        using m(1-3) accept(3) cut(1,3) by (intro matching_run [OF assms(3)]) auto
      then show ?thesis using m(4) by (simp add: add.commute)
    qed
    then show ?thesis using accept(1) by (simp add: accept(6))
  qed (use assms(4) in simp_all)
  then show "prefix l (log rf')" and "currentTerm rf' = ae_Term args" by simp_all
qed

text \<open>The commit rule counts a majority.\<close>

lemma commit_loop_majority:
  "commitIndex (commit_loop rf N) \<noteq> commitIndex rf \<Longrightarrow>
   \<exists>M. 0 < M \<and> M \<le> N \<and> commitIndex (commit_loop rf N) = int M \<and> peers rf div 2 < replica_count rf M"
  by (induction N) (auto split: if_splits)

text \<open>Of two logs the one with the higher last term, or the longer one, as a voter compares them.\<close>

definition newer :: "'c LogEntry list \<Rightarrow> 'c LogEntry list \<Rightarrow> bool" where
  "newer l m \<longleftrightarrow> le_Term (last m) < le_Term (last l) \<or> le_Term (last l) = le_Term (last m) \<and> length m \<le> length l"

section \<open>Effects of a step\<close>

lemma net_step: "raft_step n s s' \<Longrightarrow> net s \<subseteq> net s'"
  by (induction rule: raft_step.induct) auto

lemma saved_node: "struct_inv n s \<Longrightarrow> i < n \<Longrightarrow> saved (nodes s i)"
  by (simp add: struct_inv_def node_ok_def)

lemma ack_leader:
  assumes "struct_inv n s" and "AppendRep j args reply \<in> net s"
  shows "ae_LeaderID args < n" "j \<noteq> ae_LeaderID args" "j < n"
proof -
  obtain l where "AppendReq j args l \<in> net s" using struct_msg [OF assms] by auto
  from struct_msg [OF assms(1) this] show "ae_LeaderID args < n" "j \<noteq> ae_LeaderID args" "j < n" by simp_all
qed

lemma term_step:
  assumes st: "struct_inv n s" and step: "raft_step n s s'" and k: "k < n"
  shows "currentTerm (nodes s k) \<le> currentTerm (nodes s' k)"
  using step
proof cases
  case (elect i rf args)
  then show ?thesis using startElection_cases(8) [OF elect(3)] by simp
next
  case (vote j args rf reply)
  have "j < n" using struct_msg [OF st vote(2)] by simp
  then show ?thesis using vote(1) RequestVote_cases(8) [OF vote(3) saved_node [OF st]] by simp
next
  case (count j args reply i rf c)
  from count(5) have "currentTerm (nodes s i) \<le> currentTerm rf" by (cases rule: handleVoteReply_cases) auto
  then show ?thesis using count(1) by simp
next
  case (client i command rf idx t ok)
  then show ?thesis using Start_cases(4) [OF client(3) saved_node [OF st client(2)]] by simp
next
  case (append j args l rf reply)
  from append(3) have "currentTerm (nodes s j) \<le> currentTerm rf" by (cases rule: AppendEntries_cases) auto
  then show ?thesis using append(1) by simp
next
  case (ack j args reply i)
  have "currentTerm (nodes s i) \<le> currentTerm (handleAppendReply j args reply (nodes s i))"
    using refl by (cases rule: handleAppendReply_cases [of j args reply "nodes s i"]) auto
  then show ?thesis using ack(1) by simp
next
  case (apply_log i rf msgs)
  then show ?thesis using applyLoop_round_fields [OF apply_log(3)] by simp
next
  case (crash i)
  then show ?thesis using saved_node [OF st crash(2)] by simp
qed simp_all

text \<open>The log of a peer stays, or grows by an entry of its own term, or becomes that of a request it does not
  contain.\<close>

lemma log_step:
  assumes st: "struct_inv n s" and li: "log_inv n s" and step: "raft_step n s s'" and k: "k < n"
  obtains (same) "log (nodes s' k) = log (nodes s k)"
  | (grow) e where "state (nodes s k) = StateLeader" "state (nodes s' k) = StateLeader"
      "currentTerm (nodes s' k) = currentTerm (nodes s k)" "log (nodes s' k) = log (nodes s k) @ [e]"
      "le_Term e = currentTerm (nodes s k)" "net s' = net s" "votecount s' = votecount s"
      "\<forall>i. i \<noteq> k \<longrightarrow> nodes s' i = nodes s i"
  | (replace) args where "AppendReq k args (log (nodes s' k)) \<in> net s" "\<not> prefix (log (nodes s' k)) (log (nodes s k))"
      "currentTerm (nodes s' k) = ae_Term args" "state (nodes s' k) = StateFollower" "net s \<subseteq> net s'"
  using step
proof cases
  case (elect i rf args)
  then show ?thesis using startElection_cases(2) [OF elect(3)] by (intro same) simp
next
  case (vote j args rf reply)
  have "j < n" using struct_msg [OF st vote(2)] by simp
  then show ?thesis using vote(1) RequestVote_cases(2) [OF vote(3) saved_node [OF st]] by (intro same) simp
next
  case (count j args reply i rf c)
  from count(5) have "log rf = log (nodes s i)" by (cases rule: handleVoteReply_cases) auto
  then show ?thesis using count(1) by (intro same) simp
next
  case (client i command rf idx t ok)
  note S = Start_cases [OF client(3) saved_node [OF st client(2)]]
  show ?thesis
  proof (cases "k = i \<and> ok")
    case True
    with S(10) have "state (nodes s i) = StateLeader"
      "log rf = log (nodes s i) @ [\<lparr>le_Term = currentTerm (nodes s i), le_Command = Some command\<rparr>]" by auto
    with True S(4,6) client(1) show ?thesis
      by (intro grow [of "\<lparr>le_Term = currentTerm (nodes s i), le_Command = Some command\<rparr>"]) simp_all
  next
    case False
    with S(10) client(1) show ?thesis by (intro same) auto
  qed
next
  case (append j args l rf reply)
  have j: "j < n" "cut_of args l" using struct_msg [OF st append(2)] by simp_all
  have l: "l \<in> logs n s" using append(2) by (auto simp: logs_def)
  note match = log_invD(1) [OF li logs_node [OF j(1)] l]
  show ?thesis
  proof (cases "k = j \<and> log rf \<noteq> log (nodes s j)")
    case True
    then have rf: "log rf = l" using AppendEntries_log [OF append(3) j(2) match] by simp
    have "\<not> prefix l (log (nodes s j))" using AppendEntries_keeps [OF append(3) j(2)] True by blast
    moreover from append(3) have "currentTerm rf = ae_Term args \<and> state rf = StateFollower"
      by (cases rule: AppendEntries_cases) (use True in auto)
    ultimately show ?thesis using append(1,2) rf True by (intro replace [of args]) auto
  next
    case False
    then show ?thesis using append(1) by (intro same) auto
  qed
next
  case (ack j args reply i)
  have "log (handleAppendReply j args reply (nodes s i)) = log (nodes s i)"
    using refl by (cases rule: handleAppendReply_cases [of j args reply "nodes s i"]) auto
  then show ?thesis using ack(1) by (intro same) simp
next
  case (apply_log i rf msgs)
  then show ?thesis using applyLoop_round_fields [OF apply_log(3)] by (intro same) simp
next
  case (crash i)
  then show ?thesis using saved_node [OF st crash(2)] by (intro same) simp
qed (rule same; simp)+

text \<open>A peer that is a candidate was one before with the same log, or has just started an election.\<close>

lemma candidate_step:
  assumes st: "struct_inv n s" and step: "raft_step n s s'" and k: "k < n" and cand: "state (nodes s' k) = StateCandidate"
  obtains (same) "state (nodes s k) = StateCandidate" "currentTerm (nodes s' k) = currentTerm (nodes s k)"
      "log (nodes s' k) = log (nodes s k)" "matchIndex (nodes s' k) = matchIndex (nodes s k)"
  | (start) args where "startElection (nodes s k) = Some (nodes s' k, args)"
  using step
proof cases
  case (elect i rf args)
  then show ?thesis using cand by (cases "k = i") (auto intro: start same)
next
  case (vote j args rf reply)
  have "j < n" using struct_msg [OF st vote(2)] by simp
  note R = RequestVote_cases [OF vote(3) saved_node [OF st this]]
  show ?thesis
  proof (cases "k = j")
    case True
    then have "rv_Term args \<le> currentTerm (nodes s j)" using vote(1) cand R(9) by (cases "rv_Term args \<le> currentTerm (nodes s j)") auto
    then show ?thesis using True vote(1) cand R(2,6,8,10) by (intro same) auto
  next
    case False
    then show ?thesis using vote(1) cand by (intro same) auto
  qed
next
  case (count j args reply i rf c)
  from count(5) have "state rf = StateCandidate \<Longrightarrow> state (nodes s i) = StateCandidate \<and> currentTerm rf = currentTerm (nodes s i) \<and>
      log rf = log (nodes s i) \<and> matchIndex rf = matchIndex (nodes s i)" by (cases rule: handleVoteReply_cases) auto
  then show ?thesis using count(1) cand by (cases "k = i") (auto intro: same)
next
  case (client i command rf idx t ok)
  note S = Start_cases [OF client(3) saved_node [OF st client(2)]]
  show ?thesis using client(1) cand S(4,6,8,10) by (cases "k = i") (auto intro: same)
next
  case (append j args l rf reply)
  from append(3) have "state rf = StateCandidate \<Longrightarrow> currentTerm rf = currentTerm (nodes s j) \<and> state (nodes s j) = StateCandidate \<and>
      log rf = log (nodes s j) \<and> matchIndex rf = matchIndex (nodes s j)"
    by (cases rule: AppendEntries_cases) auto
  then show ?thesis using append(1) cand by (cases "k = j") (auto intro: same)
next
  case (ack j args reply i)
  let ?rf = "handleAppendReply j args reply (nodes s i)"
  have "state ?rf = StateCandidate \<Longrightarrow> ?rf = nodes s i"
    using refl by (cases rule: handleAppendReply_cases [of j args reply "nodes s i"]) auto
  then show ?thesis using ack(1) cand by (cases "k = i") (auto intro: same)
next
  case (apply_log i rf msgs)
  then show ?thesis using applyLoop_round_fields [OF apply_log(3)] cand by (cases "k = i") (auto intro: same)
next
  case (crash i)
  then show ?thesis using cand by (cases "k = i") (auto intro: same)
next
  case (timeout i)
  then show ?thesis using cand by (cases "k = i") (auto intro: same)
qed (use cand in \<open>auto intro: same\<close>)

text \<open>A leader was one before in the same term, with the same acknowledged indices or with those that one reply
  raises, or it has just won its election.\<close>

lemma leader_step:
  assumes st: "struct_inv n s" and step: "raft_step n s s'" and k: "k < n" and lead: "state (nodes s' k) = StateLeader"
  obtains (same) "state (nodes s k) = StateLeader" "currentTerm (nodes s' k) = currentTerm (nodes s k)"
      "matchIndex (nodes s' k) = matchIndex (nodes s k)" 
  | (acked) j args reply where "state (nodes s k) = StateLeader" "currentTerm (nodes s' k) = currentTerm (nodes s k)"
      "AppendRep j args reply \<in> net s" "ar_Success reply" "ae_LeaderID args = k" "ae_Term args = currentTerm (nodes s k)"
      "matchIndex (nodes s' k) = raise j (ae_PrevLogIndex args + int (length (ae_Entries args))) (matchIndex (nodes s k))"
      "log (nodes s' k) = log (nodes s k)" "net s' = net s"
  | (win) "state (nodes s k) = StateCandidate" "currentTerm (nodes s' k) = currentTerm (nodes s k)"
      "log (nodes s' k) = log (nodes s k)" "matchIndex (nodes s' k) = matchIndex (nodes s k)" "net s' = net s"
      "\<forall>i. i \<noteq> k \<longrightarrow> nodes s' i = nodes s i"
  using step
proof cases
  case (elect i rf args)
  then show ?thesis using lead startElection_cases(9) [OF elect(3)] by (cases "k = i") (auto intro: same)
next
  case (vote j args rf reply)
  have "j < n" using struct_msg [OF st vote(2)] by simp
  note R = RequestVote_cases [OF vote(3) saved_node [OF st this]]
  show ?thesis
  proof (cases "k = j")
    case True
    then have "rv_Term args \<le> currentTerm (nodes s j)" using vote(1) lead R(9) by (cases "rv_Term args \<le> currentTerm (nodes s j)") auto
    then show ?thesis using True vote(1) lead R(2,6,8,10) by (intro same) auto
  next
    case False
    then show ?thesis using vote(1) lead by (intro same) auto
  qed
next
  case (count j args reply i rf c)
  show ?thesis
  proof (cases "k = i")
    case True
    from count(5) show ?thesis
      by (cases rule: handleVoteReply_cases) (use True count(1) lead in \<open>auto intro: same win\<close>)
  next
    case False
    then show ?thesis using count(1) lead by (intro same) auto
  qed
next
  case (client i command rf idx t ok)
  note S = Start_cases [OF client(3) saved_node [OF st client(2)]]
  show ?thesis using client(1) lead S(4,6,8,10) by (cases "k = i") (auto intro: same)
next
  case (append j args l rf reply)
  from append(3) have "state rf = StateLeader \<Longrightarrow> currentTerm rf = currentTerm (nodes s j) \<and> state (nodes s j) = StateLeader \<and>
      log rf = log (nodes s j) \<and> matchIndex rf = matchIndex (nodes s j)"
    by (cases rule: AppendEntries_cases) auto
  then show ?thesis using append(1) lead by (cases "k = j") (auto intro: same)
next
  case (ack j args reply i)
  let ?rf = "handleAppendReply j args reply (nodes s i)"
  show ?thesis
  proof (cases "k = i \<and> state (nodes s i) = StateLeader \<and> currentTerm (nodes s i) = ae_Term args \<and>
      \<not> ar_Term reply > currentTerm (nodes s i) \<and> ar_Success reply")
    case True
    then show ?thesis using ack handleAppendReply_ack [of "nodes s i" args reply j]
      by (intro acked [of j args reply]) simp_all
  next
    case False
    have "state ?rf = StateLeader \<Longrightarrow> k = i \<Longrightarrow> state (nodes s i) = StateLeader \<and> currentTerm ?rf = currentTerm (nodes s i) \<and>
        matchIndex ?rf = matchIndex (nodes s i)"
      using False by (auto simp: handleAppendReply_def split: if_splits)
    then show ?thesis using ack(1) lead by (cases "k = i") (auto intro: same)
  qed
next
  case (apply_log i rf msgs)
  then show ?thesis using applyLoop_round_fields [OF apply_log(3)] lead by (cases "k = i") (auto intro: same)
next
  case (crash i)
  then show ?thesis using lead by (cases "k = i") (auto intro: same)
next
  case (timeout i)
  then show ?thesis using lead by (cases "k = i") (auto intro: same)
qed (use lead in \<open>auto intro: same\<close>)

text \<open>The commit index stays, starts again at 0, is the outcome of the commit rule, or follows a request.\<close>

lemma commit_step:
  assumes st: "struct_inv n s" and li: "log_inv n s" and step: "raft_step n s s'" and k: "k < n"
  obtains (same) "commitIndex (nodes s' k) = commitIndex (nodes s k)"
  | (restart) "commitIndex (nodes s' k) = 0"
  | (counted) N where "state (nodes s' k) = StateLeader" "0 < N" "N < length (log (nodes s' k))"
      "commitIndex (nodes s' k) = int N" "n div 2 < replica_count (nodes s' k) N"
  | (told) args l where "AppendReq k args l \<in> net s" "prefix l (log (nodes s' k))" "currentTerm (nodes s' k) = ae_Term args"
      "commitIndex (nodes s k) < ae_LeaderCommit args"
      "commitIndex (nodes s' k) = min (ae_LeaderCommit args) (int (length l) - 1)"
  using step
proof cases
  case (elect i rf args)
  then show ?thesis using startElection_cases(7) [OF elect(3)] by (intro same) simp
next
  case (vote j args rf reply)
  have "j < n" using struct_msg [OF st vote(2)] by simp
  then show ?thesis using vote(1) RequestVote_cases(7) [OF vote(3) saved_node [OF st]] by (intro same) simp
next
  case (count j args reply i rf c)
  from count(5) have "commitIndex rf = commitIndex (nodes s i)" by (cases rule: handleVoteReply_cases) auto
  then show ?thesis using count(1) by (intro same) simp
next
  case (client i command rf idx t ok)
  then show ?thesis using Start_cases(9) [OF client(3) saved_node [OF st client(2)]] by (intro same) simp
next
  case (append j args l rf reply)
  have j: "j < n" "cut_of args l" using struct_msg [OF st append(2)] by simp_all
  have l: "l \<in> logs n s" using append(2) by (auto simp: logs_def)
  note match = log_invD(1) [OF li logs_node [OF j(1)] l]
  show ?thesis
  proof (cases "k = j \<and> commitIndex rf \<noteq> commitIndex (nodes s j)")
    case True
    from append(3) have "ar_Success reply \<and> commitIndex (nodes s j) < ae_LeaderCommit args \<and>
        commitIndex rf = min (ae_LeaderCommit args) (ae_PrevLogIndex args + int (length (ae_Entries args)))"
    proof (cases rule: AppendEntries_cases)
      case (accept l' changed c)
      then show ?thesis using True by (cases "ae_LeaderCommit args > commitIndex (nodes s j)") simp_all
    qed (use True in simp_all)
    moreover have "ae_PrevLogIndex args + int (length (ae_Entries args)) = int (length l) - 1"
      using j(2) by (auto simp: cut_of_def)
    ultimately show ?thesis
      using True append(1,2) AppendEntries_contains [OF append(3) j(2) match] by (intro told [of args l]) simp_all
  next
    case False
    then show ?thesis using append(1) by (intro same) auto
  qed
next
  case (ack j args reply i)
  let ?rf = "handleAppendReply j args reply (nodes s i)"
  have i: "node_ok n i (nodes s i)" using st ack_leader(1) [OF st ack(2)] ack(3) by (simp add: struct_inv_def)
  show ?thesis
  proof (cases "k = i \<and> commitIndex ?rf \<noteq> commitIndex (nodes s i)")
    case True
    then have lead: "state (nodes s i) = StateLeader" "currentTerm (nodes s i) = ae_Term args"
      "\<not> ar_Term reply > currentTerm (nodes s i)" "ar_Success reply"
      by (auto simp: handleAppendReply_def split: if_splits)
    let ?n = "raise j (ae_PrevLogIndex args + int (length (ae_Entries args)) + 1) (nextIndex (nodes s i))"
    let ?m = "raise j (ae_PrevLogIndex args + int (length (ae_Entries args))) (matchIndex (nodes s i))"
    let ?base = "(nodes s i)\<lparr>nextIndex := ?n, matchIndex := ?m\<rparr>"
    have rf: "?rf = commit_loop ?base (length (log (nodes s i)) - 1)" by (rule handleAppendReply_ack [OF lead])
    have "commitIndex (commit_loop ?base (length (log (nodes s i)) - 1)) \<noteq> commitIndex ?base"
      using True rf by simp
    from commit_loop_majority [OF this] obtain M where M: "0 < M" "M \<le> length (log (nodes s i)) - 1"
      "commitIndex ?rf = int M" "n div 2 < replica_count ?base M" using rf i by (auto simp: node_ok_def)
    have "replica_count ?rf M = replica_count ?base M" unfolding rf by (simp add: replica_count_def)
    then show ?thesis using True M ack(1) lead(1) by (intro counted [of M]) (simp_all add: rf)
  next
    case False
    then show ?thesis using ack(1) by (intro same) auto
  qed
next
  case (apply_log i rf msgs)
  then show ?thesis using applyLoop_round_fields [OF apply_log(3)] by (intro same) simp
next
  case (crash i)
  then show ?thesis by (cases "k = i") (auto intro: same restart)
qed (rule same; simp)+

text \<open>The apply loop follows the commit index.\<close>

lemma applied_step:
  assumes st: "struct_inv n s" and step: "raft_step n s s'" and k: "k < n"
  obtains (same) "lastApplied (nodes s' k) = lastApplied (nodes s k)" "commitIndex (nodes s k) \<le> commitIndex (nodes s' k)"
  | (told) args l where "AppendReq k args l \<in> net s" "lastApplied (nodes s' k) = lastApplied (nodes s k)"
      "commitIndex (nodes s k) < ae_LeaderCommit args" "commitIndex (nodes s' k) = min (ae_LeaderCommit args) (int (length l) - 1)"
  | (restart) "lastApplied (nodes s' k) = 0" "commitIndex (nodes s' k) = 0"
  | (round) "lastApplied (nodes s' k) = max (lastApplied (nodes s k)) (commitIndex (nodes s k))"
      "commitIndex (nodes s' k) = commitIndex (nodes s k)"
proof -
  have keep: thesis
    if "nodes s' = (nodes s)(i := rf)" "lastApplied rf = lastApplied (nodes s i)" "commitIndex (nodes s i) \<le> commitIndex rf" for i rf
    using that by (intro same) auto
  from step show thesis
  proof cases
    case (elect i rf args)
    have "lastApplied rf = lastApplied (nodes s i)"
      using elect(3) by (auto simp: startElection_def Let_def split: option.splits)
    then show ?thesis using elect(1) startElection_cases(7) [OF elect(3)] by (intro keep [of i rf]) simp_all
  next
    case (vote j args rf reply)
    have "j < n" using struct_msg [OF st vote(2)] by simp
    moreover have "lastApplied rf = lastApplied (nodes s j)"
      using vote(3) by (auto simp: RequestVote_def Let_def split: if_splits option.splits)
    ultimately show ?thesis using vote(1) RequestVote_cases(7) [OF vote(3) saved_node [OF st]] by (intro keep [of j rf]) simp_all
  next
    case (count j args reply i rf c)
    from count(5) have "lastApplied rf = lastApplied (nodes s i) \<and> commitIndex rf = commitIndex (nodes s i)"
      by (cases rule: handleVoteReply_cases) auto
    then show ?thesis using count(1) by (intro keep [of i rf]) simp_all
  next
    case (client i command rf idx t ok)
    have "lastApplied rf = lastApplied (nodes s i)" using client(3) by (auto simp: Start_def Let_def split: if_splits)
    then show ?thesis using client(1) Start_cases(9) [OF client(3) saved_node [OF st client(2)]] by (intro keep [of i rf]) simp_all
  next
    case (replicate i j args)
    then show ?thesis by (intro keep [of i "nodes s i"]) simp_all
  next
    case (append j args l rf reply)
    have "cut_of args l" using struct_msg [OF st append(2)] by simp
    then have len: "ae_PrevLogIndex args + int (length (ae_Entries args)) = int (length l) - 1" by (auto simp: cut_of_def)
    from append(3) have "lastApplied rf = lastApplied (nodes s j) \<and> (commitIndex rf = commitIndex (nodes s j) \<or>
        commitIndex (nodes s j) < ae_LeaderCommit args \<and> commitIndex rf = min (ae_LeaderCommit args) (int (length l) - 1))"
      by (cases rule: AppendEntries_cases) (auto simp: count_failure_def adopt_term_def persist_if_def len [symmetric])
    then show ?thesis using append(1,2) told [of args l] same by (cases "k = j") auto
  next
    case (ack j args reply i)
    let ?rf = "handleAppendReply j args reply (nodes s i)"
    have "lastApplied ?rf = lastApplied (nodes s i) \<and> commitIndex (nodes s i) \<le> commitIndex ?rf"
      using refl by (cases rule: handleAppendReply_cases [of j args reply "nodes s i"]) auto
    then show ?thesis using ack(1) by (intro keep [of i ?rf]) simp_all
  next
    case (timeout i)
    then show ?thesis by (intro keep [of i "count_failure (nodes s i)"]) (simp_all add: count_failure_def)
  next
    case (apply_log i rf msgs)
    then show ?thesis using applyLoop_round_fields [OF apply_log(3)] same round by (cases "k = i") simp_all
  next
    case (crash i)
    then show ?thesis using same restart by (cases "k = i") simp_all
  qed
qed

text \<open>The messages a step can add.\<close>

lemma VoteReq_step:
  assumes "raft_step n s s'" and "VoteReq j a \<in> net s'"
  shows "VoteReq j a \<in> net s \<or> (\<exists>k < n. startElection (nodes s k) = Some (nodes s' k, a))"
  using assms by cases auto

lemma VoteRep_step:
  assumes "raft_step n s s'" and "VoteRep j a r \<in> net s'"
  shows "VoteRep j a r \<in> net s \<or> VoteReq j a \<in> net s \<and> RequestVote a (nodes s j) = Some (nodes s' j, r)"
  using assms by cases auto

lemma AppendReq_step:
  assumes st: "struct_inv n s" and "raft_step n s s'" and "AppendReq j a l \<in> net s'"
  shows "AppendReq j a l \<in> net s \<or> (ae_LeaderID a < n \<and> state (nodes s (ae_LeaderID a)) = StateLeader \<and>
    ae_Term a = currentTerm (nodes s (ae_LeaderID a)) \<and> ae_LeaderCommit a = commitIndex (nodes s (ae_LeaderID a)) \<and>
    l = log (nodes s (ae_LeaderID a)) \<and> nodes s' = nodes s)"
  using assms(2)
proof cases
  case (replicate i k args)
  have "ae_LeaderCommit args = commitIndex (nodes s i)"
    using replicate(4) by (auto simp: appendArgs_def split: option.splits if_splits)
  then show ?thesis using replicate assms(3) appendArgs_Some [OF replicate(4)] st
    by (auto simp: broadcastHeartbeats_def struct_inv_def node_ok_def split: if_splits)
qed (use assms(3) in auto)

lemma AppendRep_step:
  assumes "raft_step n s s'" and "AppendRep j a r \<in> net s'"
  shows "AppendRep j a r \<in> net s \<or> (\<exists>l. AppendReq j a l \<in> net s \<and> AppendEntries a (nodes s j) = Some (nodes s' j, r))"
  using assms by cases auto

lemma won_step:
  assumes vi: "vote_inv n s" and st: "struct_inv n s" and step: "raft_step n s s'" and "i < n" and "won n s i t"
  shows "won n s' i t"
  using step
proof cases
  case (elect k rf args)
  have "votecount s k (rv_Term args) = 0"
    using vote_invD(1) [OF vi elect(2), of "rv_Term args" k] startElection_cases(11) [OF elect(3)] by (auto simp: voted_def)
  then show ?thesis using elect(1) assms(5) by (auto simp: won_def)
next
  case (count j args reply k rf c)
  from count(5) have "votecount s k (rv_Term args) \<le> c" by (cases rule: handleVoteReply_cases) auto
  then show ?thesis using count(1) assms(5) by (auto simp: won_def)
qed (use assms(5) in \<open>auto simp: won_def\<close>)


section \<open>Executions with a condition on winners\<close>

text \<open>The executions in which the acknowledged indices of every winner of an election satisfy a condition.\<close>

definition win_step :: "(int list \<Rightarrow> bool) \<Rightarrow> nat \<Rightarrow> 'c cluster \<Rightarrow> 'c cluster \<Rightarrow> bool" where
  "win_step Z n s s' \<longleftrightarrow> raft_step n s s' \<and>
     (\<forall>i < n. state (nodes s i) \<noteq> StateLeader \<longrightarrow> state (nodes s' i) = StateLeader \<longrightarrow> Z (matchIndex (nodes s' i)))"

interpretation wc: transition_system "cluster_init n" "win_step Z n" for Z n .

lemma wc_rc: "wc.reach n Z s \<Longrightarrow> rc.reach n s"
proof (induction rule: wc.reach.induct)
  case (start s)
  then show ?case by (rule rc.reach.start)
next
  case (next_state s s')
  show ?case by (rule rc.reach.next_state [OF next_state(3)]) (use next_state(2) in \<open>simp add: win_step_def\<close>)
qed

lemma rc_wc: "rc.reach n s \<Longrightarrow> wc.reach n (\<lambda>m. True) s"
proof (induction rule: rc.reach.induct)
  case (start s)
  then show ?case by (rule wc.reach.start)
next
  case (next_state s s')
  show ?case by (rule wc.reach.next_state [OF next_state(3)]) (use next_state(2) in \<open>simp add: win_step_def\<close>)
qed

definition unacked :: "int list \<Rightarrow> bool" where
  "unacked m \<longleftrightarrow> (\<forall>x \<in> set m. x = 0)"

end
