(* ===== verification/Raft_Trace.thy ===== *)
theory Raft_Trace
  imports Raft_Effects
begin

text \<open>
  Executions of a cluster as lists of events that can be evaluated: a candidate that asks some peers in turn and counts
  their answers, a client command, a replication request that is delivered and acknowledged while the leader
  takes the listed commands, a round of an apply loop, a crash. Every state such a list computes is a reachable state of the cluster, so that
  concrete executions of the handlers give facts about the step relation; if every peer that campaigns has acknowledged indices that satisfy
  a condition, the execution is one in which every winner satisfies it.
\<close>

datatype 'c event =
    Campaign nat "nat list"
  | Client nat 'c
  | Replicate nat nat "'c list"
  | Deliver nat
  | Crash nat

fun collect :: "RequestVoteArgs \<Rightarrow> nat \<Rightarrow> nat list \<Rightarrow> nat \<Rightarrow> 'c Raft list \<Rightarrow> 'c Raft list option" where
  "collect args i [] c ns = Some ns"
| "collect args i (v # vs) c ns =
     (case RequestVote args (ns ! v) of
        None \<Rightarrow> None
      | Some (rf, reply) \<Rightarrow>
          (case handleVoteReply args reply c (ns ! i) of
             (rf', c') \<Rightarrow> collect args i vs c' (ns[v := rf, i := rf'])))"

definition start_all :: "'c list \<Rightarrow> 'c Raft \<Rightarrow> 'c Raft" where
  "start_all cs rf = fold (\<lambda>c rf. fst (Start c rf)) cs rf"

fun run_event :: "nat \<Rightarrow> 'c event \<Rightarrow> 'c Raft list \<Rightarrow> 'c Raft list option" where
  "run_event n (Campaign i vs) ns =
     (if i < n \<and> distinct vs \<and> list_all (\<lambda>v. v < n \<and> v \<noteq> i) vs
      then case startElection (ns ! i) of
             None \<Rightarrow> None
           | Some (rf, args) \<Rightarrow> collect args i vs 1 (ns[i := rf])
      else None)"
| "run_event n (Client i c) ns = (if i < n then Some (ns[i := fst (Start c (ns ! i))]) else None)"
| "run_event n (Replicate i j cs) ns =
     (if i < n \<and> j \<in> set (broadcastHeartbeats (ns ! i))
      then case appendArgs j (ns ! i) of
             None \<Rightarrow> None
           | Some args \<Rightarrow>
               (case AppendEntries args (ns ! j) of
                  None \<Rightarrow> None
                | Some (rf, reply) \<Rightarrow> Some (ns[j := rf, i := handleAppendReply j args reply (start_all cs (ns ! i))]))
      else None)"
| "run_event n (Deliver i) ns =
     (if i < n then case applyLoop_round (ns ! i) of None \<Rightarrow> None | Some (rf, msgs) \<Rightarrow> Some (ns[i := rf]) else None)"
| "run_event n (Crash i) ns = (if i < n then Some (ns[i := Make n i (persister (ns ! i))]) else None)"

fun run :: "nat \<Rightarrow> 'c event list \<Rightarrow> 'c Raft list \<Rightarrow> 'c Raft list option" where
  "run n [] ns = Some ns"
| "run n (e # es) ns = (case run_event n e ns of None \<Rightarrow> None | Some ns' \<Rightarrow> run n es ns')"

definition peers_of :: "nat \<Rightarrow> 'c Raft list \<Rightarrow> 'c cluster \<Rightarrow> bool" where
  "peers_of n ns s \<longleftrightarrow> length ns = n \<and> (\<forall>i < n. nodes s i = ns ! i)"

lemma peers_of_update:
  "peers_of n ns s \<Longrightarrow> nodes s' = (nodes s)(i := rf) \<Longrightarrow> peers_of n (ns[i := rf]) s'"
  by (auto simp: peers_of_def nth_list_update)

text \<open>A state in which every candidate satisfies the condition on winners.\<close>

definition able :: "(int list \<Rightarrow> bool) \<Rightarrow> nat \<Rightarrow> 'c cluster \<Rightarrow> bool" where
  "able Z n s \<longleftrightarrow> wc.reach n Z s \<and> (\<forall>i < n. state (nodes s i) = StateCandidate \<longrightarrow> Z (matchIndex (nodes s i)))"

lemma able_rc: "able Z n s \<Longrightarrow> rc.reach n s"
  using wc_rc unfolding able_def by blast

lemma able_step:
  assumes "able Z n s" and "raft_step n s s'" and "nodes s' = (nodes s)(i := rf)"
    and "state rf = StateCandidate \<Longrightarrow> state (nodes s i) = StateCandidate \<and> matchIndex rf = matchIndex (nodes s i) \<or> Z (matchIndex rf)"
  shows "able Z n s'"
proof -
  have "Z (matchIndex (nodes s' k))" if k: "k < n" "state (nodes s k) \<noteq> StateLeader" "state (nodes s' k) = StateLeader" for k
    by (cases rule: leader_step [OF struct_inv_reach [OF able_rc [OF assms(1)]] assms(2) k(1,3)])
      (use k(1,2) assms(1) in \<open>simp_all add: able_def\<close>)
  then have "win_step Z n s s'" using assms(2) by (simp add: win_step_def)
  then have "wc.reach n Z s'" using assms(1) by (auto simp: able_def intro: wc.reach.next_state)
  then show ?thesis using assms(1,3,4) by (auto simp: able_def)
qed

fun campaigns :: "(int list \<Rightarrow> bool) \<Rightarrow> 'c event \<Rightarrow> 'c Raft list \<Rightarrow> bool" where
  "campaigns Z (Campaign i vs) ns \<longleftrightarrow> Z (matchIndex (ns ! i))"
| "campaigns Z _ ns \<longleftrightarrow> True"

lemma collect_reach:
  assumes "able Z n s" and "peers_of n ns s" and "i < n" and "rv_CandidateId args = i"
    and "votecount s i (rv_Term args) = c" and "distinct vs"
    and "\<forall>v \<in> set vs. v < n \<and> v \<noteq> i \<and> VoteReq v args \<in> net s \<and> (i, rv_Term args, v) \<in> calls s"
    and "collect args i vs c ns = Some ns'"
  shows "\<exists>s'. able Z n s' \<and> peers_of n ns' s'"
  using assms
proof (induction vs arbitrary: s ns c)
  case (Cons v vs)
  have v: "v < n" "v \<noteq> i" "VoteReq v args \<in> net s" "(i, rv_Term args, v) \<in> calls s" using Cons.prems(7) by simp_all
  have at: "nodes s v = ns ! v" "nodes s i = ns ! i" using Cons.prems(2,3) v(1) by (simp_all add: peers_of_def)
  from Cons.prems(8) obtain rf reply rf' c' where run: "RequestVote args (ns ! v) = Some (rf, reply)"
    "handleVoteReply args reply c (ns ! i) = (rf', c')" "collect args i vs c' (ns[v := rf, i := rf']) = Some ns'"
    by (auto split: option.splits prod.splits)
  let ?s1 = "send {VoteRep v args reply} (set_node v rf s)"
  let ?s2 = "(set_node i rf' ?s1)\<lparr>calls := calls ?s1 - {(i, rv_Term args, v)},
    votecount := (votecount ?s1)(i := (votecount ?s1 i)(rv_Term args := c'))\<rparr>"
  have saved: "saved (nodes s v)" using saved_node [OF struct_inv_reach [OF able_rc [OF Cons.prems(1)]] v(1)] .
  have rv: "RequestVote args (nodes s v) = Some (rf, reply)" using run(1) at(1) by simp
  note R = RequestVote_cases [OF rv saved]
  have "state rf = StateCandidate \<Longrightarrow> state (nodes s v) = StateCandidate"
    using R(9,10) by (cases "currentTerm (nodes s v) < rv_Term args") simp_all
  with R(6) have r1: "able Z n ?s1"
    by (intro able_step [OF Cons.prems(1) raft_step.vote [OF v(3) rv], of v rf]) simp_all
  have "raft_step n ?s1 ?s2"
    by (rule raft_step.count [where reply = reply]) (use v run(2) at(2) Cons.prems(4,5) in simp_all)
  moreover from run(2) have "state rf' = StateCandidate \<Longrightarrow> state (ns ! i) = StateCandidate \<and> matchIndex rf' = matchIndex (ns ! i)"
    by (cases rule: handleVoteReply_cases) simp_all
  ultimately have r2: "able Z n ?s2" using v(2) at(2) by (intro able_step [OF r1, of ?s2 i rf']) simp_all
  have "peers_of n (ns[v := rf, i := rf']) ?s2"
    by (rule peers_of_update [OF peers_of_update [OF Cons.prems(2)], of ?s1 v rf]) simp_all
  from Cons.IH [OF r2 this Cons.prems(3,4) _ _ _ run(3)] Cons.prems(6,7) show ?case by auto
qed auto

lemma set_node_same [simp]: "set_node i (nodes s i) s = s"
  by (simp add: set_node_def)

lemma start_all_reach:
  "able Z n s \<Longrightarrow> i < n \<Longrightarrow> able Z n (set_node i (start_all cs (nodes s i)) s)"
proof (induction cs arbitrary: s)
  case Nil
  then show ?case by (simp add: start_all_def)
next
  case (Cons c cs)
  obtain rf idx t ok where start: "Start c (nodes s i) = (rf, idx, t, ok)" by (metis prod.exhaust)
  note S = Start_cases [OF start saved_node [OF struct_inv_reach [OF able_rc [OF Cons.prems(1)]] Cons.prems(2)]]
  have "able Z n (set_node i rf s)"
    by (rule able_step [OF Cons.prems(1) raft_step.client [OF Cons.prems(2) start], of i rf]) (use S(6,8) in simp_all)
  from Cons.IH [OF this Cons.prems(2)] show ?case by (simp add: start_all_def set_node_def start)
qed

lemma run_event_able:
  assumes "able Z n s" and "peers_of n ns s" and "run_event n e ns = Some ns'" and "campaigns Z e ns"
  shows "\<exists>s'. able Z n s' \<and> peers_of n ns' s'"
proof -
  note st = struct_inv_reach [OF able_rc [OF assms(1)]]
  show ?thesis
  proof (cases e)
    case (Campaign i vs)
    then obtain rf args where run: "i < n" "distinct vs" "\<forall>v \<in> set vs. v < n \<and> v \<noteq> i"
      "startElection (nodes s i) = Some (rf, args)" "collect args i vs 1 (ns[i := rf]) = Some ns'"
      using assms(2,3) by (auto simp: peers_of_def list_all_iff split: if_splits option.splits)
    have "node_ok n i (nodes s i)" using st run(1) by (simp add: struct_inv_def)
    then have "rv_CandidateId args = i" using startElection_cases(12) [OF run(4)] by (simp add: node_ok_def)
    moreover have "Z (matchIndex rf)"
      using startElection_cases(6) [OF run(4)] assms(2,4) Campaign run(1) by (simp add: peers_of_def)
    then have step: "able Z n ((send {VoteReq j args | j. j < n \<and> j \<noteq> i} (set_node i rf s))
        \<lparr>calls := calls s \<union> {(i, rv_Term args, j) | j. j < n \<and> j \<noteq> i},
         votecount := (votecount s)(i := (votecount s i)(rv_Term args := 1))\<rparr>)"
      by (intro able_step [OF assms(1) raft_step.elect [OF run(1,4)], of i rf]) simp_all
    ultimately show ?thesis
      using collect_reach [OF step peers_of_update [OF assms(2)], of i rf i args 1 vs ns'] run by auto
  next
    case (Client i c)
    with assms(2,3) have "i < n" "ns' = ns[i := start_all [c] (nodes s i)]"
      by (auto simp: peers_of_def start_all_def split: if_splits)
    then show ?thesis using start_all_reach [OF assms(1), of i "[c]"]
        peers_of_update [OF assms(2), of "set_node i (start_all [c] (nodes s i)) s" i] by auto
  next
    case (Replicate i j cs)
    then obtain args rf reply where run: "i < n" "j \<in> set (broadcastHeartbeats (nodes s i))"
      "appendArgs j (nodes s i) = Some args" "AppendEntries args (ns ! j) = Some (rf, reply)"
      "ns' = ns[j := rf, i := handleAppendReply j args reply (start_all cs (nodes s i))]"
      using assms(2,3) by (auto simp: peers_of_def split: if_splits option.splits)
    have ok: "node_ok n i (nodes s i)" using st run(1) by (simp add: struct_inv_def)
    have j: "j < n" "j \<noteq> i" "ae_LeaderID args = i"
      using run(2) ok appendArgs_Some(6) [OF run(3)] by (auto simp: broadcastHeartbeats_def node_ok_def split: if_splits)
    let ?s0 = "send {AppendReq j args (log (nodes s i))} s"
    let ?s1 = "set_node i (start_all cs (nodes s i)) ?s0"
    let ?s2 = "send {AppendRep j args reply} (set_node j rf ?s1)"
    let ?s3 = "set_node i (handleAppendReply j args reply (nodes ?s2 i)) ?s2"
    have "able Z n ?s0" by (rule able_step [OF assms(1) raft_step.replicate [OF run(1-3)], of i "nodes s i"]) simp_all
    from start_all_reach [OF this run(1), of cs] have r1: "able Z n ?s1" by simp
    have append: "AppendEntries args (nodes ?s1 j) = Some (rf, reply)" using run(4) j(1,2) assms(2) by (simp add: peers_of_def)
    have "raft_step n ?s1 ?s2" by (rule raft_step.append [OF _ append, of "log (nodes s i)"]) simp
    from able_step [OF r1 this, of j rf] append have r2: "able Z n ?s2" by (auto elim!: AppendEntries_cases)
    have "raft_step n ?s2 ?s3" by (rule raft_step.ack) (simp_all add: j(3))
    from able_step [OF r2 this, of i "handleAppendReply j args reply (nodes ?s2 i)"] have "able Z n ?s3"
      using handleAppendReply_cases [OF refl, of j args reply "nodes ?s2 i"] by fastforce
    moreover have "peers_of n ns' ?s3" using assms(2) j by (auto simp: run(5) peers_of_def nth_list_update)
    ultimately show ?thesis by blast
  next
    case (Deliver i)
    then obtain rf msgs where run: "i < n" "applyLoop_round (nodes s i) = Some (rf, msgs)" "ns' = ns[i := rf]"
      using assms(2,3) by (auto simp: peers_of_def split: if_splits option.splits)
    have "able Z n (set_node i rf s)"
      by (rule able_step [OF assms(1) raft_step.apply_log [OF run(1,2)], of i rf])
        (use applyLoop_round_fields [OF run(2)] in simp_all)
    then show ?thesis using peers_of_update [OF assms(2), of "set_node i rf s" i rf] run(3) by auto
  next
    case (Crash i)
    then have run: "i < n" "ns' = ns[i := Make n i (persister (nodes s i))]"
      using assms(2,3) by (auto simp: peers_of_def split: if_splits)
    let ?s = "(set_node i (Make n i (persister (nodes s i))) s)\<lparr>calls := {c \<in> calls s. fst c \<noteq> i}\<rparr>"
    have "able Z n ?s"
      by (rule able_step [OF assms(1) raft_step.crash [OF run(1)], of i "Make n i (persister (nodes s i))"]) simp_all
    moreover have "peers_of n ns' ?s" unfolding run(2) by (rule peers_of_update [OF assms(2)]) simp
    ultimately show ?thesis by blast
  qed
qed

text \<open>A list of events whose campaigns all satisfy the condition.\<close>

fun all_campaigns :: "(int list \<Rightarrow> bool) \<Rightarrow> nat \<Rightarrow> 'c event list \<Rightarrow> 'c Raft list \<Rightarrow> bool" where
  "all_campaigns Z n [] ns \<longleftrightarrow> True"
| "all_campaigns Z n (e # es) ns \<longleftrightarrow>
     campaigns Z e ns \<and> (case run_event n e ns of None \<Rightarrow> True | Some ns' \<Rightarrow> all_campaigns Z n es ns')"

lemma run_able:
  "able Z n s \<Longrightarrow> peers_of n ns s \<Longrightarrow> run n es ns = Some ns' \<Longrightarrow> all_campaigns Z n es ns \<Longrightarrow>
   \<exists>s'. able Z n s' \<and> peers_of n ns' s'"
proof (induction es arbitrary: s ns)
  case (Cons e es)
  from Cons.prems(3) obtain ns1 where one: "run_event n e ns = Some ns1" "run n es ns1 = Some ns'"
    by (auto split: option.splits)
  from run_event_able [OF Cons.prems(1,2) one(1)] Cons.prems(4) obtain s1 where "able Z n s1" "peers_of n ns1 s1" by auto
  from Cons.IH [OF this one(2)] Cons.prems(4) one(1) show ?case by simp
qed auto

lemma run_event_reach:
  assumes "rc.reach n s" and "peers_of n ns s" and "run_event n e ns = Some ns'"
  shows "\<exists>s'. rc.reach n s' \<and> peers_of n ns' s'"
proof -
  have "campaigns (\<lambda>m. True) e ns" by (cases e) simp_all
  moreover have "able (\<lambda>m. True) n s" using rc_wc [OF assms(1)] by (simp add: able_def)
  ultimately obtain s' where "able (\<lambda>m. True) n s'" "peers_of n ns' s'" using run_event_able [OF _ assms(2,3)] by blast
  then show ?thesis using able_rc by blast
qed

lemma run_reach:
  "rc.reach n s \<Longrightarrow> peers_of n ns s \<Longrightarrow> run n es ns = Some ns' \<Longrightarrow> \<exists>s'. rc.reach n s' \<and> peers_of n ns' s'"
proof (induction es arbitrary: s ns)
  case (Cons e es)
  from Cons.prems(3) obtain ns1 where one: "run_event n e ns = Some ns1" "run n es ns1 = Some ns'"
    by (auto split: option.splits)
  with run_event_reach [OF Cons.prems(1,2)] Cons.IH show ?case by blast
qed auto

text \<open>The peers of a state as a list.\<close>

definition peer_list :: "nat \<Rightarrow> 'c cluster \<Rightarrow> 'c Raft list" where
  "peer_list n s = map (nodes s) [0..<n]"

lemma peers_of_list: "peers_of n (peer_list n s) s"
  by (simp add: peers_of_def peer_list_def)

lemma peers_of_eq: "peers_of n ns s \<Longrightarrow> ns = peer_list n s"
  by (rule nth_equalityI) (simp_all add: peers_of_def peer_list_def)

text \<open>Schedules without crashes.\<close>

fun crash_free :: "'c event \<Rightarrow> bool" where
  "crash_free (Crash i) \<longleftrightarrow> False"
| "crash_free _ \<longleftrightarrow> True"

lemma run_append: "run n (es @ fs) ns = (case run n es ns of None \<Rightarrow> None | Some ns' \<Rightarrow> run n fs ns')"
  by (induction es arbitrary: ns) (simp_all split: option.splits)

text \<open>Running a list of events on a cluster that has just started.\<close>

definition boot :: "nat \<Rightarrow> 'c Raft list" where
  "boot n = map (\<lambda>i. Make n i None) [0..<n]"

lemma boot_able:
  assumes "run n es (boot n) = Some ns" and "all_campaigns Z n es (boot n)"
  shows "\<exists>s. wc.reach n Z s \<and> (\<forall>i < n. nodes s i = ns ! i)"
proof -
  let ?s = "\<lparr>nodes = (\<lambda>i. Make n i None), net = {}, calls = {}, votecount = (\<lambda>i t. 0)\<rparr>"
  have "able Z n ?s" unfolding able_def by (intro conjI wc.reach.start) (simp_all add: cluster_init_def)
  moreover have "peers_of n (boot n) ?s" by (simp add: peers_of_def boot_def)
  ultimately obtain s where s: "able Z n s" "peers_of n ns s" using run_able [OF _ _ assms] by blast
  then show ?thesis by (intro exI [of _ s]) (simp add: able_def peers_of_def)
qed

lemma boot_reach:
  assumes "run n es (boot n) = Some ns"
  shows "\<exists>s. rc.reach n s \<and> (\<forall>i < n. nodes s i = ns ! i)"
proof -
  let ?s = "\<lparr>nodes = (\<lambda>i. Make n i None), net = {}, calls = {}, votecount = (\<lambda>i t. 0)\<rparr>"
  have "rc.reach n ?s" by (rule rc.reach.start) (simp add: cluster_init_def)
  moreover have "peers_of n (boot n) ?s" by (simp add: peers_of_def boot_def)
  ultimately show ?thesis using run_reach [OF _ _ assms] unfolding peers_of_def by blast
qed

end
