(* ===== verification/Raft_Sync.thy ===== *)
theory Raft_Sync
  imports Raft_Log Raft_Trace
begin

text \<open>
  The loop of a leader's sender goroutine, which repeats a replication request with an earlier cursor
  until the follower accepts it (\<^verbatim>\<open>broadcastHeartbeats\<close>, the inner \<^verbatim>\<open>for\<close>). The loop has no bound in
  the source, so it runs on fuel, and the lemmas show how much is enough: every rejection moves the cursor of the peer strictly
  down, because the follower's hint never points beyond the index that was refused.
\<close>

text \<open>The loop with a follower that answers every request; \<open>None\<close> is a panic or the end of the fuel.\<close>

fun sender_loop :: "nat \<Rightarrow> nat \<Rightarrow> 'c Raft \<Rightarrow> 'c Raft \<Rightarrow> ('c Raft \<times> 'c Raft) option" where
  "sender_loop 0 peer rf rfp = None"
| "sender_loop (Suc fuel) peer rf rfp =
     (if state rf \<noteq> StateLeader then Some (rf, rfp)
      else case appendArgs peer rf of
             None \<Rightarrow> None
           | Some args \<Rightarrow>
               (case AppendEntries args rfp of
                  None \<Rightarrow> None
                | Some (rfp', reply) \<Rightarrow>
                    let rf' = handleAppendReply peer args reply rf
                    in if ar_Term reply > currentTerm rf \<or> ar_Success reply then Some (rf', rfp')
                       else sender_loop fuel peer rf' rfp'))"

section \<open>The hint of a rejection\<close>

lemma last_of_term_hit:
  "last_of_term l t k \<noteq> - 1 \<Longrightarrow>
   \<exists>m \<le> k. 0 < m \<and> last_of_term l t k = int m \<and> le_Term (l ! m) = t"
  by (induction k) (auto split: if_splits intro: le_SucI)

lemma AppendEntries_reject:
  assumes "AppendEntries args rf = Some (rf', reply)" and "\<not> ar_Success reply"
    and "currentTerm rf \<le> ae_Term args" and "0 \<le> ae_PrevLogIndex args"
  shows "ar_XTerm reply = - 1 \<and> ar_XLen reply = int (length (log rf)) \<and> int (length (log rf)) \<le> ae_PrevLogIndex args \<or>
    nat (ae_PrevLogIndex args) < length (log rf) \<and> ar_XTerm reply = le_Term (log rf ! nat (ae_PrevLogIndex args)) \<and>
    ar_XTerm reply \<noteq> ae_PrevLogTerm args \<and> ar_XIndex reply \<le> ae_PrevLogIndex args"
proof -
  have x: "int (x_index (log rf) t (nat (ae_PrevLogIndex args))) \<le> ae_PrevLogIndex args" for t
    using x_index_le [of "log rf" t "nat (ae_PrevLogIndex args)"] assms(4) by linarith
  show ?thesis
    using assms x by (auto simp: AppendEntries_def Let_def at_def split: if_splits prod.splits)
qed

lemma backtrack_decreases:
  assumes rej: "AppendEntries args rfp = Some (rfp', reply)" "\<not> ar_Success reply" "currentTerm rfp \<le> ae_Term args"
    and cut: "cut_of args (log rf)" and ok: "log_ok (log rf)" "log_ok (log rfp)"
    and con: "contiguous (log rfp) (log rf)"
  shows "backtrack reply rf \<le> ae_PrevLogIndex args"
proof -
  let ?p = "nat (ae_PrevLogIndex args)"
  have p: "0 \<le> ae_PrevLogIndex args" "?p < length (log rf)" "ae_PrevLogTerm args = le_Term (log rf ! ?p)"
    using cut by (simp_all add: cut_of_def)
  have heads: "log rfp \<noteq> []" "le_Term (log rf ! 0) = 0" "le_Term (log rfp ! 0) = 0"
    using ok by (auto simp: log_ok_def hd_conv_nth)
  from AppendEntries_reject [OF rej p(1)] show ?thesis
  proof
    assume "ar_XTerm reply = - 1 \<and> ar_XLen reply = int (length (log rfp)) \<and> int (length (log rfp)) \<le> ae_PrevLogIndex args"
    moreover have "1 \<le> int (length (log rfp))" using heads(1) by (cases "log rfp") auto
    ultimately show ?thesis by (auto simp: backtrack_def Let_def)
  next
    let ?t = "le_Term (log rfp ! ?p)"
    let ?m = "last_of_term (log rf) ?t (length (log rf) - 1)"
    assume *: "?p < length (log rfp) \<and> ar_XTerm reply = ?t \<and> ar_XTerm reply \<noteq> ae_PrevLogTerm args \<and>
      ar_XIndex reply \<le> ae_PrevLogIndex args"
    then have conflict: "?t \<noteq> le_Term (log rf ! ?p)" using p(3) by simp
    then have pos: "1 \<le> ae_PrevLogIndex args" using heads(2,3) p(1) by (cases "?p = 0") auto
    have "?m + 1 \<le> ae_PrevLogIndex args" if hit: "?m \<noteq> - 1"
    proof -
      from last_of_term_hit [OF hit] obtain m where m: "m \<le> length (log rf) - 1" "0 < m" "?m = int m" "le_Term (log rf ! m) = ?t"
        by blast
      have "m < length (log rf)" using m(1,2) by linarith
      then have "\<not> ?p < m" using contiguousD [OF con, of ?p m] * m(4) conflict by auto
      moreover have "m \<noteq> ?p" using conflict m(4) by auto
      ultimately show ?thesis using m(3) p(1) by linarith
    qed
    moreover have "0 \<le> ?t" using ok(2) * by (simp add: log_ok_def)
    ultimately show ?thesis using * pos by (auto simp: backtrack_def Let_def)
  qed
qed

section \<open>The log after an accepted request\<close>

lemma merge_entries_terms:
  assumes "merge_entries l k es = (l', changed)" and "k \<le> length l"
  shows "k + length es \<le> length l'" and "i < k \<Longrightarrow> l' ! i = l ! i"
    and "i < length es \<Longrightarrow> le_Term (l' ! (k + i)) = le_Term (es ! i)"
proof -
  have "k + length es \<le> length l' \<and> (i < k \<longrightarrow> l' ! i = l ! i) \<and> (i < length es \<longrightarrow> le_Term (l' ! (k + i)) = le_Term (es ! i))"
    for i using merge_entries_cases [OF assms] by (auto simp: nth_append)
  then show "k + length es \<le> length l'" and "i < k \<Longrightarrow> l' ! i = l ! i"
    and "i < length es \<Longrightarrow> le_Term (l' ! (k + i)) = le_Term (es ! i)" by blast+
qed

lemma AppendEntries_accept:
  assumes "AppendEntries args rf = Some (rf', reply)" and "ar_Success reply" and "cut_of args l"
  shows "length l \<le> length (log rf')" and "le_Term (log rf' ! (length l - 1)) = le_Term (l ! (length l - 1))"
proof -
  let ?p = "nat (ae_PrevLogIndex args)"
  have cut: "?p < length l" "ae_Entries args = drop (?p + 1) l" "ae_PrevLogTerm args = le_Term (l ! ?p)"
    using assms(3) by (simp_all add: cut_of_def)
  from assms(1) have "length l \<le> length (log rf') \<and> le_Term (log rf' ! (length l - 1)) = le_Term (l ! (length l - 1))"
  proof (cases rule: AppendEntries_cases)
    case (accept l' changed c)
    have "?p + 1 \<le> length (log rf)" using accept(3) by simp
    note merge = merge_entries_terms [OF accept(5) this]
    have len: "length l \<le> length l'" using merge(1) cut(1,2) by simp
    have "le_Term (l' ! (length l - 1)) = le_Term (l ! (length l - 1))"
    proof (cases "?p = length l - 1")
      case True
      then show ?thesis using merge(2) [of ?p] accept(4) cut(3) by simp
    next
      case False
      then have "length l - 1 = ?p + 1 + (length l - 2 - ?p)" "length l - 2 - ?p < length (ae_Entries args)"
        using cut(1,2) by simp_all
      then show ?thesis using merge(3) [of "length l - 2 - ?p"] cut(2) by simp
    qed
    with len show ?thesis by (simp add: accept(6))
  qed (use assms(2) in simp_all)
  then show "length l \<le> length (log rf')" and "le_Term (log rf' ! (length l - 1)) = le_Term (l ! (length l - 1))"
    by simp_all
qed

lemma AppendEntries_commit:
  assumes "AppendEntries args rf = Some (rf', reply)" and "ar_Success reply" and "cut_of args l"
  shows "min (ae_LeaderCommit args) (int (length l) - 1) \<le> commitIndex rf'"
  using assms(1)
proof (cases rule: AppendEntries_cases)
  case (accept l' changed c)
  have "ae_PrevLogIndex args + int (length (ae_Entries args)) = int (length l) - 1"
    using assms(3) by (simp add: cut_of_def nat_less_iff of_nat_diff)
  then show ?thesis by (auto simp: accept(6,7) min_def)
qed (use assms(2) in simp_all)


section \<open>Convergence\<close>

text \<open>One round as steps of the cluster.\<close>

lemma round_reach:
  assumes "rc.reach n s" and "i < n" and "j \<in> set (broadcastHeartbeats (nodes s i))"
    and "appendArgs j (nodes s i) = Some args" and "AppendEntries args (nodes s j) = Some (rfp, reply)"
  shows "\<exists>s'. rc.reach n s' \<and> run n [Replicate i j []] (peer_list n s) = Some (peer_list n s') \<and>
    nodes s' i = handleAppendReply j args reply (nodes s i) \<and> nodes s' j = rfp \<and>
    (\<forall>k < n. k \<noteq> i \<longrightarrow> k \<noteq> j \<longrightarrow> nodes s' k = nodes s k)"
proof -
  let ?ns = "peer_list n s"
  have j: "j < n" "j \<noteq> i"
    using assms(2,3) struct_inv_reach [OF assms(1)]
    by (auto simp: broadcastHeartbeats_def struct_inv_def node_ok_def split: if_splits)
  have run: "run_event n (Replicate i j []) ?ns =
      Some (?ns[j := rfp, i := handleAppendReply j args reply (nodes s i)])"
    using assms(2-5) j by (simp add: start_all_def peer_list_def)
  then obtain s' where s': "rc.reach n s'" "peers_of n (?ns[j := rfp, i := handleAppendReply j args reply (nodes s i)]) s'"
    using run_event_reach [OF assms(1) peers_of_list] by blast
  then have "nodes s' k = ?ns[j := rfp, i := handleAppendReply j args reply (nodes s i)] ! k" if "k < n" for k
    using that by (simp add: peers_of_def)
  then show ?thesis using s' run peers_of_eq [OF s'(2)] assms(2) j
    by (intro exI [of _ s']) (simp add: peer_list_def nth_list_update del: run_event.simps)
qed

text \<open>What a sender achieves for its follower: a reachable state in which the leader counts the follower's log as its own.\<close>

definition synced :: "nat \<Rightarrow> nat \<Rightarrow> nat \<Rightarrow> 'c cluster \<Rightarrow> 'c cluster \<Rightarrow> bool" where
  "synced n i j s s' \<longleftrightarrow>
     rc.reach n s' \<and> (\<exists>es. list_all crash_free es \<and> run n es (peer_list n s) = Some (peer_list n s')) \<and>
     (\<forall>k < n. k \<noteq> i \<longrightarrow> k \<noteq> j \<longrightarrow> nodes s' k = nodes s k) \<and>
     (\<exists>nx. nodes s' i = commit_loop ((nodes s i)\<lparr>nextIndex := nx,
        matchIndex := raise j (int (length (log (nodes s i))) - 1) (matchIndex (nodes s i))\<rparr>) (length (log (nodes s i)) - 1)) \<and>
     currentTerm (nodes s' j) = currentTerm (nodes s i) \<and>
     take (length (log (nodes s i))) (log (nodes s' j)) = log (nodes s i) \<and>
     min (commitIndex (nodes s i)) (int (length (log (nodes s i))) - 1) \<le> commitIndex (nodes s' j)"

lemma synced_step:
  assumes "run n [e] (peer_list n s) = Some (peer_list n s1)" and "crash_free e" and "synced n i j s1 s'"
    and "nodes s1 i = (nodes s i)\<lparr>nextIndex := nx\<rparr>" and "\<forall>k < n. k \<noteq> i \<longrightarrow> k \<noteq> j \<longrightarrow> nodes s1 k = nodes s k"
  shows "synced n i j s s'"
proof -
  obtain es where "list_all crash_free es" "run n es (peer_list n s1) = Some (peer_list n s')"
    using assms(3) by (auto simp: synced_def)
  then have "list_all crash_free (e # es)" "run n (e # es) (peer_list n s) = Some (peer_list n s')"
    using assms(1,2) by (auto split: option.splits)
  then have "\<exists>es. list_all crash_free es \<and> run n es (peer_list n s) = Some (peer_list n s')" by blast
  then show ?thesis using assms(3-5) by (simp add: synced_def)
qed

lemma sender_loop_converges:
  assumes "2 \<le> n" and "i < n"
  shows "rc.reach n s \<Longrightarrow> j \<in> set (broadcastHeartbeats (nodes s i)) \<Longrightarrow>
    currentTerm (nodes s j) \<le> currentTerm (nodes s i) \<Longrightarrow> nextIndex (nodes s i) ! j \<le> int fuel \<Longrightarrow>
    \<exists>s'. sender_loop fuel j (nodes s i) (nodes s j) = Some (nodes s' i, nodes s' j) \<and> synced n i j s s'"
proof (induction fuel arbitrary: s)
  case 0
  have lead: "state (nodes s i) = StateLeader" and j: "j < n"
    using "0.prems"(1,2) assms(2) struct_inv_reach [OF "0.prems"(1)]
    by (auto simp: broadcastHeartbeats_def struct_inv_def node_ok_def split: if_splits)
  have "length (nextIndex (nodes s i)) = n"
    using struct_inv_reach [OF "0.prems"(1)] assms(2) by (simp add: struct_inv_def node_ok_def)
  then have "1 \<le> nextIndex (nodes s i) ! j"
    using index_invD(1) [OF index_inv_reach [OF "0.prems"(1) assms(1)] assms(2) lead] j by (simp add: cursors_ok_def)
  with "0.prems"(4) show ?case by simp
next
  case (Suc fuel)
  note reach = Suc.prems(1)
  have node: "node_ok n k (nodes s k)" if "k < n" for k
    using struct_inv_reach [OF reach] that by (simp add: struct_inv_def)
  have lead: "state (nodes s i) = StateLeader" and j: "j < n" "j \<noteq> i"
    using Suc.prems(2) node [OF assms(2)] by (auto simp: broadcastHeartbeats_def node_ok_def split: if_splits)
  have len: "length (nextIndex (nodes s i)) = n" "length (matchIndex (nodes s i)) = n" "me (nodes s i) = i" "peers (nodes s i) = n"
    using node [OF assms(2)] by (simp_all add: node_ok_def)
  have cur: "1 \<le> nextIndex (nodes s i) ! j" "nextIndex (nodes s i) ! j \<le> int (length (log (nodes s i)))"
    using index_invD(1) [OF index_inv_reach [OF reach assms(1)] assms(2) lead] j len(1) by (simp_all add: cursors_ok_def)
  then obtain args where args: "appendArgs j (nodes s i) = Some args" using appendArgs_total [of j "nodes s i"] len(1) j by auto
  note A = appendArgs_Some [OF args]
  have cut: "cut_of args (log (nodes s i))" using A by (simp add: cut_of_def)
  have prev: "ae_PrevLogIndex args = nextIndex (nodes s i) ! j - 1" "ae_LeaderCommit args = commitIndex (nodes s i)"
    using args by (auto simp: appendArgs_def at_Some split: option.splits if_splits)
  obtain rfp reply where app: "AppendEntries args (nodes s j) = Some (rfp, reply)"
    using AppendEntries_total [OF A(1), of "nodes s j"] by auto
  let ?rf = "handleAppendReply j args reply (nodes s i)"
  obtain s' where s': "rc.reach n s'" "run n [Replicate i j []] (peer_list n s) = Some (peer_list n s')" "nodes s' i = ?rf"
    "nodes s' j = rfp" "\<forall>k < n. k \<noteq> i \<longrightarrow> k \<noteq> j \<longrightarrow> nodes s' k = nodes s k"
    using round_reach [OF reach assms(2) Suc.prems(2) args app] by blast
  have terms: "ar_Term reply = currentTerm (nodes s i)" "currentTerm rfp = currentTerm (nodes s i)"
    using app by (cases rule: AppendEntries_cases; use Suc.prems(3) A(5) in auto)+
  show ?case
  proof (cases "ar_Success reply")
    case True
    note acc = AppendEntries_accept [OF app True cut]
    have last: "ae_PrevLogIndex args + int (length (ae_Entries args)) = int (length (log (nodes s i))) - 1"
      using A(1-3) by (simp add: nat_less_iff of_nat_diff)
    have rf: "\<exists>nx. ?rf = commit_loop ((nodes s i)\<lparr>nextIndex := nx,
        matchIndex := raise j (int (length (log (nodes s i))) - 1) (matchIndex (nodes s i))\<rparr>) (length (log (nodes s i)) - 1)"
      using handleAppendReply_ack [of "nodes s i" args reply j] lead A(5) terms(1) True by (auto simp: last)
    then have "log ?rf = log (nodes s i)" by auto
    then have "matching (log rfp) (log (nodes s i))"
      using log_invD(1) [OF log_inv_reach [OF s'(1) assms(1)] logs_node [OF j(1)] logs_node [OF assms(2)]] s'(3,4) by simp
    moreover have "length (log (nodes s i)) - 1 < length (log rfp)" "log (nodes s i) \<noteq> []"
      using node [OF assms(2)] acc(1) by (cases "log (nodes s i)"; simp add: node_ok_def)+
    ultimately have pre: "take (length (log (nodes s i))) (log rfp) = log (nodes s i)"
      using matchingD [of "log rfp" "log (nodes s i)" "length (log (nodes s i)) - 1"] acc by (auto simp: Suc_diff_Suc)
    have "\<exists>es. list_all crash_free es \<and> run n es (peer_list n s) = Some (peer_list n s')"
      using s'(2) by (intro exI [of _ "[Replicate i j []]"]) simp
    then have "synced n i j s s'" unfolding synced_def
      using s' rf terms(2) pre AppendEntries_commit [OF app True cut] prev(2) by (auto simp del: run.simps)
    moreover have "sender_loop (Suc fuel) j (nodes s i) (nodes s j) = Some (nodes s' i, nodes s' j)"
      using args app lead True s'(3,4) by (simp add: Let_def)
    ultimately show ?thesis by blast
  next
    case False
    then have rf: "?rf = (nodes s i)\<lparr>nextIndex := (nextIndex (nodes s i))[j := backtrack reply (nodes s i)]\<rparr>"
      using lead A(5) terms(1) by (simp add: handleAppendReply_def)
    note shape = shape_inv_reach [OF reach assms(1)]
    have "backtrack reply (nodes s i) \<le> ae_PrevLogIndex args"
      using app False _ cut shape_invD(1) [OF shape logs_node [OF assms(2)]] shape_invD(1) [OF shape logs_node [OF j(1)]]
        shape_invD(2) [OF shape logs_node [OF j(1)] logs_node [OF assms(2)]]
      by (rule backtrack_decreases) (use Suc.prems(3) A(5) in simp)
    then have fuel: "nextIndex ?rf ! j \<le> int fuel" using Suc.prems(4) prev rf j(1) len(1) by simp
    have "j \<in> set (broadcastHeartbeats (nodes s' i))"
      using lead j len(3,4) s'(3) rf by (simp add: broadcastHeartbeats_def)
    with fuel obtain s'' where s'': "sender_loop fuel j (nodes s' i) (nodes s' j) = Some (nodes s'' i, nodes s'' j)" "synced n i j s' s''"
      using Suc.IH [OF s'(1)] s'(3,4) terms rf by auto
    have "sender_loop (Suc fuel) j (nodes s i) (nodes s j) = Some (nodes s'' i, nodes s'' j)"
      using s''(1) s'(3,4) terms args app lead False by (simp add: Let_def)
    moreover have "synced n i j s s''"
      using synced_step [OF s'(2) _ s''(2) _ s'(5)] s'(3) rf by simp
    ultimately show ?thesis by blast
  qed
qed

lemma synced_leader:
  assumes "synced n i j s s'" and "j < length (matchIndex (nodes s i))"
  shows "log (nodes s' i) = log (nodes s i)" "state (nodes s' i) = state (nodes s i)"
    "currentTerm (nodes s' i) = currentTerm (nodes s i)" "commitIndex (nodes s i) \<le> commitIndex (nodes s' i)"
    "int (length (log (nodes s i))) - 1 \<le> matchIndex (nodes s' i) ! j"
    "k \<noteq> j \<Longrightarrow> matchIndex (nodes s' i) ! k = matchIndex (nodes s i) ! k"
proof -
  obtain nx where "nodes s' i = commit_loop ((nodes s i)\<lparr>nextIndex := nx,
      matchIndex := raise j (int (length (log (nodes s i))) - 1) (matchIndex (nodes s i))\<rparr>) (length (log (nodes s i)) - 1)"
    using assms(1) by (auto simp: synced_def)
  then show "log (nodes s' i) = log (nodes s i)" "state (nodes s' i) = state (nodes s i)"
    "currentTerm (nodes s' i) = currentTerm (nodes s i)" "commitIndex (nodes s i) \<le> commitIndex (nodes s' i)"
    "int (length (log (nodes s i))) - 1 \<le> matchIndex (nodes s' i) ! j"
    "k \<noteq> j \<Longrightarrow> matchIndex (nodes s' i) ! k = matchIndex (nodes s i) ! k"
    using assms(2) commit_loop_mono [of "(nodes s i)\<lparr>nextIndex := nx,
      matchIndex := raise j (int (length (log (nodes s i))) - 1) (matchIndex (nodes s i))\<rparr>"] by (auto simp: raise_def)
qed

end
