(* ===== verification/Raft_Progress.thy ===== *)
theory Raft_Progress
  imports Raft_Sync
begin

text \<open>
  Progress: from every reachable state of a cluster there is a schedule without crashes, of the handlers as they are,
  after which a new command is in the logs of all peers and committed by all of them. A peer with the most
  up-to-date log campaigns until its term is the highest, wins the votes of the others, takes the command, and three rounds of its senders
  first bring the logs together, then advance its commit index and then those of the followers. So no history of crashes, lost or repeated messages
  drives the cluster into a state in which it cannot make progress.
\<close>

definition leads_to :: "nat \<Rightarrow> 'c cluster \<Rightarrow> 'c cluster \<Rightarrow> bool" where
  "leads_to n s s' \<longleftrightarrow> rc.reach n s' \<and> (\<exists>es. list_all crash_free es \<and> run n es (peer_list n s) = Some (peer_list n s'))"

lemma leads_to_refl: "rc.reach n s \<Longrightarrow> leads_to n s s"
  unfolding leads_to_def by (intro conjI exI [of _ "[]"]) simp_all

lemma leads_to_trans: "leads_to n s s1 \<Longrightarrow> leads_to n s1 s2 \<Longrightarrow> leads_to n s s2"
  unfolding leads_to_def by (metis run_append option.case(2) list_all_append)

lemma leads_to_run:
  assumes "rc.reach n s" and "run n es (peer_list n s) = Some ns" and "list_all crash_free es"
  shows "\<exists>s'. leads_to n s s' \<and> (\<forall>k < n. nodes s' k = ns ! k)"
proof -
  obtain s' where s': "rc.reach n s'" "peers_of n ns s'" using run_reach [OF assms(1) peers_of_list assms(2)] by blast
  then show ?thesis using assms(2,3) peers_of_eq [OF s'(2)]
    by (intro exI [of _ s']) (auto simp: leads_to_def peers_of_def)
qed

lemma synced_leads_to: "synced n i j s s' \<Longrightarrow> leads_to n s s'"
  by (simp add: synced_def leads_to_def)

section \<open>The candidate\<close>

lemma newest_log_exists: "0 < (n :: nat) \<Longrightarrow> \<exists>i < n. \<forall>j < n. newer (f i) (f j)"
proof (induction n)
  case (Suc n)
  show ?case
  proof (cases "n = 0")
    case True
    then show ?thesis by (simp add: newer_def)
  next
    case False
    with Suc.IH obtain i where i: "i < n" "\<forall>j < n. newer (f i) (f j)" by blast
    show ?thesis
    proof (cases "newer (f i) (f n)")
      case True
      with i show ?thesis by (intro exI [of _ i]) (auto simp: less_Suc_eq)
    next
      case False
      with i have "\<forall>j < Suc n. newer (f n) (f j)" by (fastforce simp: newer_def less_Suc_eq)
      then show ?thesis by blast
    qed
  qed
qed simp

text \<open>A request in a higher term from a candidate whose log is newer is granted.\<close>

lemma RequestVote_grants:
  assumes "currentTerm rf < rv_Term args" and "log rf \<noteq> []" and "log rfc \<noteq> []" and "newer (log rfc) (log rf)"
    and "rv_LastLogTerm args = le_Term (last (log rfc))" and "rv_LastLogIndex args = int (length (log rfc)) - 1"
  shows "\<exists>rf'. RequestVote args rf = Some (rf', \<lparr>rr_Term = rv_Term args, rr_VoteGranted = True\<rparr>) \<and>
    log rf' = log rf \<and> currentTerm rf' = rv_Term args"
  using assms by (auto simp: RequestVote_def Let_def at_last newer_def of_nat_diff)

text \<open>The answers of peers that all grant the vote.\<close>

lemma collect_wins:
  assumes "i < length ns" and "distinct vs" and "\<forall>v \<in> set vs. v < length ns \<and> v \<noteq> i \<and> currentTerm (ns ! v) < rv_Term args \<and>
      log (ns ! v) \<noteq> [] \<and> newer (log (ns ! i)) (log (ns ! v))"
    and "currentTerm (ns ! i) = rv_Term args" and "log (ns ! i) \<noteq> []"
    and "rv_LastLogTerm args = le_Term (last (log (ns ! i)))" and "rv_LastLogIndex args = int (length (log (ns ! i))) - 1"
    and "state (ns ! i) = StateLeader \<or>
      state (ns ! i) = StateCandidate \<and> c \<le> peers (ns ! i) div 2 \<and> peers (ns ! i) div 2 < c + length vs"
  shows "\<exists>ns'. collect args i vs c ns = Some ns' \<and> length ns' = length ns \<and> state (ns' ! i) = StateLeader \<and>
    (\<forall>k < length ns. log (ns' ! k) = log (ns ! k) \<and>
      currentTerm (ns' ! k) = (if k \<in> set vs then rv_Term args else currentTerm (ns ! k)))"
  using assms
proof (induction vs arbitrary: ns c)
  case (Cons v vs)
  have v: "v < length ns" "v \<noteq> i" "currentTerm (ns ! v) < rv_Term args" "log (ns ! v) \<noteq> []" "newer (log (ns ! i)) (log (ns ! v))"
    using Cons.prems(3) by simp_all
  obtain rf where rf: "RequestVote args (ns ! v) = Some (rf, \<lparr>rr_Term = rv_Term args, rr_VoteGranted = True\<rparr>)"
    "log rf = log (ns ! v)" "currentTerm rf = rv_Term args"
    using RequestVote_grants [OF v(3,4) Cons.prems(5) v(5) Cons.prems(6,7)] by blast
  let ?reply = "\<lparr>rr_Term = rv_Term args, rr_VoteGranted = True\<rparr>"
  obtain rf' c' where vote: "handleVoteReply args ?reply c (ns ! i) = (rf', c')" by (rule prod.exhaust)
  have rf': "log rf' = log (ns ! i)" "currentTerm rf' = rv_Term args" "state rf' = StateLeader \<or>
      state rf' = StateCandidate \<and> c' \<le> peers rf' div 2 \<and> peers rf' div 2 < c' + length vs"
    using vote Cons.prems(4,8) by (auto simp: handleVoteReply_def Let_def split: if_splits)
  let ?ns = "ns[v := rf, i := rf']"
  have at: "?ns ! i = rf'" using Cons.prems(1) by simp
  have others: "?ns ! k = ns ! k" if "k \<in> set vs" for k
  proof -
    have "k \<noteq> v" "k \<noteq> i" using that Cons.prems(2,3) by auto
    then show ?thesis by simp
  qed
  have "\<exists>ns'. collect args i vs c' ?ns = Some ns' \<and> length ns' = length ?ns \<and> state (ns' ! i) = StateLeader \<and>
    (\<forall>k < length ?ns. log (ns' ! k) = log (?ns ! k) \<and>
      currentTerm (ns' ! k) = (if k \<in> set vs then rv_Term args else currentTerm (?ns ! k)))"
    by (rule Cons.IH) (use Cons.prems rf' others in \<open>auto simp: at\<close>)
  then obtain ns' where ns': "collect args i vs c' ?ns = Some ns'" "length ns' = length ns" "state (ns' ! i) = StateLeader"
    "\<forall>k < length ns. log (ns' ! k) = log (?ns ! k) \<and> currentTerm (ns' ! k) = (if k \<in> set vs then rv_Term args else currentTerm (?ns ! k))"
    by auto
  have "log (?ns ! k) = log (ns ! k)" if "k < length ns" for k
    using that rf(2) rf'(1) v(1) Cons.prems(1) by (auto simp: nth_list_update)
  moreover have "(if k \<in> set vs then rv_Term args else currentTerm (?ns ! k)) =
      (if k \<in> set (v # vs) then rv_Term args else currentTerm (ns ! k))" if "k < length ns" for k
    using that rf(3) rf'(2) v(1) Cons.prems(1,4) by (auto simp: nth_list_update)
  ultimately show ?case using ns' rf(1) vote by (intro exI [of _ ns']) simp
qed auto

text \<open>A peer that campaigns alone only raises its term.\<close>

lemma raise_term:
  "i < n \<Longrightarrow> i < length ns \<Longrightarrow> log (ns ! i) \<noteq> [] \<Longrightarrow>
   \<exists>rf. run n (replicate k (Campaign i [])) ns = Some (ns[i := rf]) \<and> log rf = log (ns ! i) \<and>
     currentTerm rf = currentTerm (ns ! i) + int k"
proof (induction k arbitrary: ns)
  case 0
  show ?case by (intro exI [of _ "ns ! i"]) simp
next
  case (Suc k)
  obtain rf1 args where e: "startElection (ns ! i) = Some (rf1, args)" using startElection_total [OF Suc.prems(3)] by auto
  note f = startElection_cases [OF e]
  have "\<exists>rf. run n (replicate k (Campaign i [])) (ns[i := rf1]) = Some ((ns[i := rf1])[i := rf]) \<and>
     log rf = log (ns[i := rf1] ! i) \<and> currentTerm rf = currentTerm (ns[i := rf1] ! i) + int k"
    by (rule Suc.IH) (use Suc.prems f(2) in simp_all)
  then show ?case using Suc.prems e f(2,8) by auto
qed

text \<open>So the peer with the newest log can become leader of a term above all others.\<close>

lemma newest_wins:
  assumes "rc.reach n s" and "2 \<le> n" and "i < n" and "\<forall>j < n. newer (log (nodes s i)) (log (nodes s j))"
  shows "\<exists>s'. leads_to n s s' \<and> state (nodes s' i) = StateLeader \<and>
    (\<forall>j < n. log (nodes s' j) = log (nodes s j) \<and> currentTerm (nodes s' j) \<le> currentTerm (nodes s' i))"
proof -
  have node: "node_ok n k (nodes s k)" if "k < n" for k using struct_inv_reach [OF assms(1)] that by (simp add: struct_inv_def)
  have logs: "log (nodes s k) \<noteq> []" if "k < n" for k using node [OF that] by (simp add: node_ok_def)
  obtain T where T: "\<forall>j < n. currentTerm (nodes s j) \<le> T"
    using assms(3) by (metis Max_ge finite_imageI finite_lessThan imageI lessThan_iff)
  let ?k = "nat (T - currentTerm (nodes s i))"
  let ?ns = "peer_list n s"
  have i: "?ns ! i = nodes s i" "i < length ?ns" using assms(3) by (simp_all add: peer_list_def)
  obtain rf where rf: "run n (replicate ?k (Campaign i [])) ?ns = Some (?ns[i := rf])" "log rf = log (nodes s i)"
    "currentTerm rf = currentTerm (nodes s i) + int ?k"
    using raise_term [OF assms(3) i(2), of ?k] i logs [OF assms(3)] by auto
  obtain s1 where s1: "leads_to n s s1" "\<forall>k < n. nodes s1 k = ?ns[i := rf] ! k" using leads_to_run [OF assms(1) rf(1)] by (auto simp: list_all_iff)
  have s1_i: "nodes s1 i = rf" and s1_j: "\<And>k. k < n \<Longrightarrow> k \<noteq> i \<Longrightarrow> nodes s1 k = nodes s k"
    using s1(2) assms(3) by (auto simp: peer_list_def nth_list_update)
  have reach1: "rc.reach n s1" using s1(1) by (simp add: leads_to_def)
  then have rf_ok: "peers rf = n" "me rf = i" using struct_inv_reach [OF reach1] assms(3) s1_i
    by (auto simp: struct_inv_def node_ok_def)
  obtain rf1 args where e: "startElection rf = Some (rf1, args)" using startElection_total [of rf] rf(2) logs [OF assms(3)] by auto
  note f = startElection_cases [OF e] and g = startElection_args [OF e]
  let ?ns1 = "(peer_list n s1)[i := rf1]" and ?vs = "filter (\<lambda>k. k \<noteq> i) [0..<n]"
  have len: "length ?ns1 = n" by (simp add: peer_list_def)
  have at: "?ns1 ! i = rf1" "\<And>k. k < n \<Longrightarrow> k \<noteq> i \<Longrightarrow> ?ns1 ! k = nodes s k"
    using assms(3) s1_j by (simp_all add: peer_list_def)
  have count: "length ?vs = n - 1"
  proof -
    have "set ?vs = {..<n} - {i}" by auto
    then have "length ?vs = card ({..<n} - {i})" using distinct_card [of ?vs] by simp
    then show ?thesis using assms(3) by simp
  qed
  have "\<exists>ns'. collect args i ?vs 1 ?ns1 = Some ns' \<and> length ns' = length ?ns1 \<and> state (ns' ! i) = StateLeader \<and>
    (\<forall>k < length ?ns1. log (ns' ! k) = log (?ns1 ! k) \<and>
      currentTerm (ns' ! k) = (if k \<in> set ?vs then rv_Term args else currentTerm (?ns1 ! k)))"
  proof (rule collect_wins)
    have "currentTerm (nodes s k) < rv_Term args" if "k < n" for k
    proof -
      have "currentTerm (nodes s k) \<le> T" "currentTerm (nodes s i) \<le> T" using T that assms(3) by blast+
      then show ?thesis using rf(3) f(11) by linarith
    qed
    then show "\<forall>v \<in> set ?vs. v < length ?ns1 \<and> v \<noteq> i \<and> currentTerm (?ns1 ! v) < rv_Term args \<and>
      log (?ns1 ! v) \<noteq> [] \<and> newer (log (?ns1 ! i)) (log (?ns1 ! v))"
      using assms(4) at f(2) rf(2) logs len by simp
    show "state (?ns1 ! i) = StateLeader \<or> state (?ns1 ! i) = StateCandidate \<and>
      1 \<le> peers (?ns1 ! i) div 2 \<and> peers (?ns1 ! i) div 2 < 1 + length ?vs"
      using assms(2) at(1) f(4,9) rf_ok(1) count by simp
  qed (use assms(3) at f g rf(2) logs [OF assms(3)] len in simp_all)
  then obtain ns' where ns': "collect args i ?vs 1 ?ns1 = Some ns'" "length ns' = n" "state (ns' ! i) = StateLeader"
    "\<forall>k < n. log (ns' ! k) = log (?ns1 ! k) \<and> currentTerm (ns' ! k) = (if k \<in> set ?vs then rv_Term args else currentTerm (?ns1 ! k))"
    using len by auto
  have "run n [Campaign i ?vs] (peer_list n s1) = Some ns'"
    using assms(3) ns'(1) e s1_i by (simp add: peer_list_def list_all_iff)
  then obtain s2 where s2: "leads_to n s1 s2" "\<forall>k < n. nodes s2 k = ns' ! k" using leads_to_run [OF reach1] by fastforce
  have term_i: "currentTerm (nodes s2 i) = rv_Term args" using s2(2) assms(3) ns'(4) at(1) f(8,11) by simp
  have "log (nodes s2 j) = log (nodes s j) \<and> currentTerm (nodes s2 j) \<le> currentTerm (nodes s2 i)" if "j < n" for j
    using that s2(2) ns'(4) at f(2,8,11) rf(2) term_i by (cases "j = i") auto
  then show ?thesis using leads_to_trans [OF s1(1) s2(1)] s2(2) assms(3) ns'(3) by (intro exI [of _ s2]) auto
qed

section \<open>The leader\<close>

text \<open>An entry of the leader's own term that all peers hold is committed.\<close>

lemma commit_all:
  assumes "0 < N" and "me rf < peers rf" and "le_Term (log rf ! N) = currentTerm rf"
    and "\<forall>j < peers rf. j \<noteq> me rf \<longrightarrow> int N \<le> matchIndex rf ! j"
  shows "int N \<le> commitIndex (commit_loop rf N)"
proof (cases "commitIndex rf < int N")
  case True
  have "filter (\<lambda>j. j \<noteq> me rf \<and> matchIndex rf ! j \<ge> int N \<and> le_Term (log rf ! N) = currentTerm rf) [0..<peers rf] =
      filter (\<lambda>j. j \<noteq> me rf) [0..<peers rf]"
    using assms(3,4) by (intro filter_cong) auto
  moreover have "length (filter (\<lambda>j. j \<noteq> me rf) [0..<peers rf]) = card ({..<peers rf} - {me rf})"
    by (subst distinct_card [symmetric]) (auto intro: arg_cong [where f = card])
  ultimately have "replica_count rf N = peers rf" using assms(2) by (simp add: replica_count_def)
  then have "commit_loop rf N = rf\<lparr>commitIndex := int N\<rparr>"
    using assms(1,2) True by (intro commit_loop_now) simp_all
  then show ?thesis by simp
next
  case False
  then show ?thesis using commit_loop_mono [of rf N] by linarith
qed

text \<open>A leader in the highest term whose last entry is of its term, and the followers whose logs it counts.\<close>

definition leading :: "nat \<Rightarrow> nat \<Rightarrow> 'c LogEntry list \<Rightarrow> 'c cluster \<Rightarrow> bool" where
  "leading n i l s \<longleftrightarrow>
     rc.reach n s \<and> i < n \<and> state (nodes s i) = StateLeader \<and> log (nodes s i) = l \<and> 2 \<le> length l \<and>
     le_Term (last l) = currentTerm (nodes s i) \<and> (\<forall>k < n. currentTerm (nodes s k) \<le> currentTerm (nodes s i))"

definition caught_up :: "nat \<Rightarrow> 'c LogEntry list \<Rightarrow> 'c cluster \<Rightarrow> nat \<Rightarrow> bool" where
  "caught_up i l s k \<longleftrightarrow>
     k = i \<or> take (length l) (log (nodes s k)) = l \<and> int (length l) - 1 \<le> matchIndex (nodes s i) ! k"

lemma sync_one:
  assumes "leading n i l s" and "2 \<le> n" and "j < n" and "j \<noteq> i"
  shows "\<exists>s'. leads_to n s s' \<and> leading n i l s' \<and> (\<forall>k < n. k \<noteq> i \<longrightarrow> k \<noteq> j \<longrightarrow> nodes s' k = nodes s k) \<and>
    caught_up i l s' j \<and> (\<forall>k < n. caught_up i l s k \<longrightarrow> caught_up i l s' k) \<and>
    commitIndex (nodes s i) \<le> commitIndex (nodes s' i) \<and>
    min (commitIndex (nodes s i)) (int (length l) - 1) \<le> commitIndex (nodes s' j) \<and>
    ((\<forall>k < n. caught_up i l s k) \<longrightarrow> int (length l) - 1 \<le> commitIndex (nodes s' i))"
proof -
  have l: "rc.reach n s" "i < n" "state (nodes s i) = StateLeader" "log (nodes s i) = l" "2 \<le> length l"
    "le_Term (last l) = currentTerm (nodes s i)" "\<And>k. k < n \<Longrightarrow> currentTerm (nodes s k) \<le> currentTerm (nodes s i)"
    using assms(1) by (simp_all add: leading_def)
  have ok: "me (nodes s i) = i" "peers (nodes s i) = n" "length (matchIndex (nodes s i)) = n"
    using struct_inv_reach [OF l(1)] l(2) by (simp_all add: struct_inv_def node_ok_def)
  have peer: "j \<in> set (broadcastHeartbeats (nodes s i))" using l(3) ok assms(3,4) by (simp add: broadcastHeartbeats_def)
  have "nextIndex (nodes s i) ! j \<le> int (nat (nextIndex (nodes s i) ! j))" by simp
  from sender_loop_converges [OF assms(2) l(2,1) peer l(7) [OF assms(3)] this] obtain s' where s': "synced n i j s s'" by blast
  note L = synced_leader [OF s', unfolded ok(3), OF assms(3)]
  have S: "\<forall>k < n. k \<noteq> i \<longrightarrow> k \<noteq> j \<longrightarrow> nodes s' k = nodes s k" "currentTerm (nodes s' j) = currentTerm (nodes s i)"
    "take (length l) (log (nodes s' j)) = l" "min (commitIndex (nodes s i)) (int (length l) - 1) \<le> commitIndex (nodes s' j)"
    using s' l(4) by (simp_all add: synced_def)
  have lead': "leading n i l s'"
  proof -
    have "currentTerm (nodes s' k) \<le> currentTerm (nodes s' i)" if "k < n" for k
      using that S(1,2) L(3) l(7) [OF that] by (cases "k = i \<or> k = j") auto
    moreover have "rc.reach n s'" using s' by (simp add: synced_def)
    ultimately show ?thesis using l L(1-3) by (simp add: leading_def)
  qed
  have up: "caught_up i l s' j" using S(3) L(5) l(4) by (simp add: caught_up_def)
  have keep: "caught_up i l s' k" if "k < n" "caught_up i l s k" for k
  proof (cases "k = j")
    case False
    then show ?thesis using that S(1) L(6) [OF False] by (auto simp: caught_up_def)
  qed (simp add: up)
  have "int (length l) - 1 \<le> commitIndex (nodes s' i)" if all: "\<forall>k < n. caught_up i l s k"
  proof -
    obtain nx where nx: "nodes s' i = commit_loop ((nodes s i)\<lparr>nextIndex := nx,
        matchIndex := raise j (int (length l) - 1) (matchIndex (nodes s i))\<rparr>) (length l - 1)" (is "_ = commit_loop ?rf _")
      using s' l(4) by (auto simp: synced_def)
    have "int (length l - 1) \<le> commitIndex (commit_loop ?rf (length l - 1))"
    proof (rule commit_all)
      have "l \<noteq> []" using l(5) by auto
      then show "le_Term (log ?rf ! (length l - 1)) = currentTerm ?rf"
        using l(4,6) by (simp add: last_conv_nth)
      show "\<forall>k < peers ?rf. k \<noteq> me ?rf \<longrightarrow> int (length l - 1) \<le> matchIndex ?rf ! k"
      proof (intro allI impI)
        fix k
        assume k: "k < peers ?rf" "k \<noteq> me ?rf"
        have "k < n" "k \<noteq> i" using k ok by simp_all
        then have "caught_up i l s' k" using keep all by blast
        then have "int (length l) - 1 \<le> matchIndex (nodes s' i) ! k" using \<open>k \<noteq> i\<close> by (simp add: caught_up_def)
        then show "int (length l - 1) \<le> matchIndex ?rf ! k" using l(5) by (simp add: nx of_nat_diff)
      qed
    qed (use l(2,5) ok in simp_all)
    then show ?thesis using l(5) nx by (simp add: of_nat_diff)
  qed
  then show ?thesis using synced_leads_to [OF s'] lead' S(1,4) up keep L(4) by blast
qed

lemma sync_all:
  assumes "2 \<le> n"
  shows "leading n i l s \<Longrightarrow> distinct js \<Longrightarrow> \<forall>j \<in> set js. j < n \<and> j \<noteq> i \<Longrightarrow>
    \<exists>s'. leads_to n s s' \<and> leading n i l s' \<and> (\<forall>k < n. k \<noteq> i \<longrightarrow> k \<notin> set js \<longrightarrow> nodes s' k = nodes s k) \<and>
      (\<forall>k < n. caught_up i l s k \<or> k \<in> set js \<longrightarrow> caught_up i l s' k) \<and>
      commitIndex (nodes s i) \<le> commitIndex (nodes s' i) \<and>
      (\<forall>j \<in> set js. min (commitIndex (nodes s i)) (int (length l) - 1) \<le> commitIndex (nodes s' j)) \<and>
      ((\<forall>k < n. caught_up i l s k) \<longrightarrow> js \<noteq> [] \<longrightarrow> int (length l) - 1 \<le> commitIndex (nodes s' i))"
proof (induction js arbitrary: s)
  case Nil
  then have "leads_to n s s" by (intro leads_to_refl) (simp add: leading_def)
  with Nil show ?case by (intro exI [of _ s]) simp
next
  case (Cons j js)
  have j: "j < n" "j \<noteq> i" "j \<notin> set js" using Cons.prems by simp_all
  obtain s1 where s1: "leads_to n s s1" "leading n i l s1" "\<forall>k < n. k \<noteq> i \<longrightarrow> k \<noteq> j \<longrightarrow> nodes s1 k = nodes s k"
    "caught_up i l s1 j" "\<forall>k < n. caught_up i l s k \<longrightarrow> caught_up i l s1 k" "commitIndex (nodes s i) \<le> commitIndex (nodes s1 i)"
    "min (commitIndex (nodes s i)) (int (length l) - 1) \<le> commitIndex (nodes s1 j)"
    "(\<forall>k < n. caught_up i l s k) \<longrightarrow> int (length l) - 1 \<le> commitIndex (nodes s1 i)"
    using sync_one [OF Cons.prems(1) assms j(1,2)] by blast
  obtain s2 where s2: "leads_to n s1 s2" "leading n i l s2" "\<forall>k < n. k \<noteq> i \<longrightarrow> k \<notin> set js \<longrightarrow> nodes s2 k = nodes s1 k"
    "\<forall>k < n. caught_up i l s1 k \<or> k \<in> set js \<longrightarrow> caught_up i l s2 k" "commitIndex (nodes s1 i) \<le> commitIndex (nodes s2 i)"
    "\<forall>j \<in> set js. min (commitIndex (nodes s1 i)) (int (length l) - 1) \<le> commitIndex (nodes s2 j)"
    using Cons.IH [OF s1(2)] Cons.prems(2,3) by auto
  have "min (commitIndex (nodes s i)) (int (length l) - 1) \<le> commitIndex (nodes s2 k)" if "k \<in> set (j # js)" for k
  proof (cases "k = j")
    case True
    then show ?thesis using s1(7) s2(3) j by simp
  next
    case False
    then have "min (commitIndex (nodes s1 i)) (int (length l) - 1) \<le> commitIndex (nodes s2 k)" using that s2(6) by auto
    then show ?thesis using s1(6) by linarith
  qed
  moreover have "\<forall>k < n. caught_up i l s k \<or> k \<in> set (j # js) \<longrightarrow> caught_up i l s2 k" using s1(4,5) s2(4) by auto
  moreover have "\<forall>k < n. k \<noteq> i \<longrightarrow> k \<notin> set (j # js) \<longrightarrow> nodes s2 k = nodes s k" using s1(3) s2(3) by auto
  ultimately show ?case using leads_to_trans [OF s1(1) s2(1)] s1(6,8) s2(2,5)
    by (intro exI [of _ s2] conjI impI) (simp_all, linarith?)
qed

section \<open>A command can always be committed\<close>

lemma leader_commits:
  assumes "leading n i l s" and "2 \<le> n"
  shows "\<exists>s'. leads_to n s s' \<and> leading n i l s' \<and>
    (\<forall>k < n. take (length l) (log (nodes s' k)) = l \<and> int (length l) - 1 \<le> commitIndex (nodes s' k))"
proof -
  let ?js = "filter (\<lambda>k. k \<noteq> i) [0..<n]"
  have js: "distinct ?js" "\<forall>j \<in> set ?js. j < n \<and> j \<noteq> i" by simp_all
  have "?js \<noteq> []"
  proof -
    have "(if i = 0 then 1 else 0) \<in> set ?js" using assms(2) by simp
    then show ?thesis by (metis empty_iff empty_set)
  qed
  then have ne: "?js \<noteq> []" .
  obtain s1 where s1: "leads_to n s s1" "leading n i l s1" "\<forall>k < n. caught_up i l s k \<or> k \<in> set ?js \<longrightarrow> caught_up i l s1 k"
    using sync_all [OF assms(2,1) js] by blast
  have all1: "\<forall>k < n. caught_up i l s1 k" using s1(3) by (auto simp: caught_up_def)
  obtain s2 where s2: "leads_to n s1 s2" "leading n i l s2" "\<forall>k < n. caught_up i l s1 k \<or> k \<in> set ?js \<longrightarrow> caught_up i l s2 k"
    "(\<forall>k < n. caught_up i l s1 k) \<longrightarrow> ?js \<noteq> [] \<longrightarrow> int (length l) - 1 \<le> commitIndex (nodes s2 i)"
    using sync_all [OF assms(2) s1(2) js] by blast
  have c2: "int (length l) - 1 \<le> commitIndex (nodes s2 i)" using s2(4) all1 ne by blast
  obtain s3 where s3: "leads_to n s2 s3" "leading n i l s3" "\<forall>k < n. caught_up i l s2 k \<or> k \<in> set ?js \<longrightarrow> caught_up i l s3 k"
    "commitIndex (nodes s2 i) \<le> commitIndex (nodes s3 i)"
    "\<forall>j \<in> set ?js. min (commitIndex (nodes s2 i)) (int (length l) - 1) \<le> commitIndex (nodes s3 j)"
    using sync_all [OF assms(2) s2(2) js] by blast
  have "take (length l) (log (nodes s3 k)) = l \<and> int (length l) - 1 \<le> commitIndex (nodes s3 k)" if k: "k < n" for k
  proof (cases "k = i")
    case True
    then show ?thesis using s3(2,4) c2 by (simp add: leading_def)
  next
    case False
    then have "k \<in> set ?js" using k by simp
    then have "min (commitIndex (nodes s2 i)) (int (length l) - 1) \<le> commitIndex (nodes s3 k)" using s3(5) by blast
    moreover have "caught_up i l s3 k" using s3(3) k \<open>k \<in> set ?js\<close> by blast
    ultimately show ?thesis using c2 False by (simp add: caught_up_def)
  qed
  then show ?thesis using leads_to_trans [OF leads_to_trans [OF s1(1) s2(1)] s3(1)] s3(2) by blast
qed

lemma command_commits:
  assumes "rc.reach n s" and "2 \<le> n"
  shows "\<exists>i < n. \<exists>t s'. leads_to n s s' \<and> state (nodes s' i) = StateLeader \<and> currentTerm (nodes s' i) = t \<and>
    (\<forall>k < n. newer (log (nodes s i)) (log (nodes s k)) \<and> currentTerm (nodes s' k) \<le> t \<and>
      take (Suc (length (log (nodes s i)))) (log (nodes s' k)) = log (nodes s i) @ [\<lparr>le_Term = t, le_Command = Some c\<rparr>] \<and>
      int (length (log (nodes s i))) \<le> commitIndex (nodes s' k))"
proof -
  have "0 < n" using assms(2) by simp
  from newest_log_exists [OF this, of "\<lambda>i. log (nodes s i)"] obtain i where
    i: "i < n" "\<forall>j < n. newer (log (nodes s i)) (log (nodes s j))" by blast
  obtain s1 where s1: "leads_to n s s1" "state (nodes s1 i) = StateLeader"
    "\<forall>j < n. log (nodes s1 j) = log (nodes s j) \<and> currentTerm (nodes s1 j) \<le> currentTerm (nodes s1 i)"
    using newest_wins [OF assms i] by blast
  have reach1: "rc.reach n s1" using s1(1) by (simp add: leads_to_def)
  let ?t = "currentTerm (nodes s1 i)" and ?l = "log (nodes s i)"
  let ?e = "\<lparr>le_Term = ?t, le_Command = Some c\<rparr>"
  have "run n [Client i c] (peer_list n s1) = Some ((peer_list n s1)[i := fst (Start c (nodes s1 i))])"
    using i(1) by (simp add: peer_list_def)
  moreover have "list_all crash_free [Client i c]" by simp
  ultimately obtain s2 where s2: "leads_to n s1 s2"
    "\<forall>k < n. nodes s2 k = (peer_list n s1)[i := fst (Start c (nodes s1 i))] ! k"
    using leads_to_run [OF reach1] by blast
  have s2_k: "nodes s2 k = (if k = i then fst (Start c (nodes s1 i)) else nodes s1 k)" if "k < n" for k
    using s2(2) that by (auto simp: peer_list_def nth_list_update)
  have "log (nodes s i) \<noteq> []" using struct_inv_reach [OF assms(1)] i(1) by (simp add: struct_inv_def node_ok_def)
  then have len: "2 \<le> length (?l @ [?e])" by (cases ?l) simp_all
  have lead: "leading n i (?l @ [?e]) s2"
    using s2(1) s1(2,3) i(1) len by (auto simp: leading_def leads_to_def s2_k Start_def Let_def)
  obtain s3 where s3: "leads_to n s2 s3" "leading n i (?l @ [?e]) s3"
    "\<forall>k < n. take (length (?l @ [?e])) (log (nodes s3 k)) = ?l @ [?e] \<and> int (length (?l @ [?e])) - 1 \<le> commitIndex (nodes s3 k)"
    using leader_commits [OF lead assms(2)] by blast
  have "leads_to n s s3" by (rule leads_to_trans [OF leads_to_trans [OF s1(1) s2(1)] s3(1)])
  moreover have "currentTerm (nodes s3 i) = ?t" "state (nodes s3 i) = StateLeader" "\<forall>k < n. currentTerm (nodes s3 k) \<le> ?t"
    using s3(2) by (auto simp: leading_def)
  ultimately show ?thesis using i s3(3) by (intro exI [of _ i] conjI exI [of _ ?t] exI [of _ s3]) simp_all
qed

end
