(* ===== verification/Raft_History.thy ===== *)
theory Raft_History
  imports Raft_Effects
begin

text \<open>
  The history of a cluster holds, for every term that was won, the leader, the length of its log at its election, its log now, and
  the peers that voted for it. Every log is built from the logs of the history: an entry of a term, with all entries before it, is in
  the log of the leader of that term. A step either leaves the history, or adds the term of a new winner, or appends to the log of a leader.
\<close>

section \<open>The history\<close>

record 'c reign =
  r_leader :: nat
  r_from :: nat
  r_log :: "'c LogEntry list"
  r_voters :: "nat set"

type_synonym 'c history = "int \<Rightarrow> 'c reign option"

definition rooted :: "'c history \<Rightarrow> 'c LogEntry list \<Rightarrow> bool" where
  "rooted H x \<longleftrightarrow> x \<noteq> [] \<and> le_Term (x ! 0) = 0 \<and>
     (\<forall>k. 0 < k \<longrightarrow> k < length x \<longrightarrow>
        (\<exists>r. H (le_Term (x ! k)) = Some r \<and> r_from r \<le> k \<and> prefix (take (Suc k) x) (r_log r)))"

definition reign_ok :: "nat \<Rightarrow> 'c cluster \<Rightarrow> 'c history \<Rightarrow> int \<Rightarrow> 'c reign \<Rightarrow> bool" where
  "reign_ok n s H t r \<longleftrightarrow>
     1 \<le> t \<and> r_leader r < n \<and> won n s (r_leader r) t \<and> 0 < r_from r \<and> r_from r \<le> length (r_log r) \<and> rooted H (r_log r) \<and>
     (\<forall>k < length (r_log r). le_Term (r_log r ! k) \<le> t) \<and> (\<forall>k < r_from r. le_Term (r_log r ! k) < t) \<and>
     r_voters r \<subseteq> {..<n} \<and> n div 2 < card (r_voters r) \<and> (\<forall>j \<in> r_voters r. t \<le> currentTerm (nodes s j))"

definition hist_inv :: "nat \<Rightarrow> 'c cluster \<Rightarrow> 'c history \<Rightarrow> bool" where
  "hist_inv n s H \<longleftrightarrow>
     (\<forall>t r. H t = Some r \<longrightarrow> reign_ok n s H t r) \<and>
     (\<forall>i < n. rooted H (log (nodes s i)) \<and> (\<forall>k < length (log (nodes s i)). le_Term (log (nodes s i) ! k) \<le> currentTerm (nodes s i))) \<and>
     (\<forall>i < n. state (nodes s i) = StateLeader \<longrightarrow>
        (\<exists>r. H (currentTerm (nodes s i)) = Some r \<and> r_leader r = i \<and> r_log r = log (nodes s i))) \<and>
     (\<forall>j a l. AppendReq j a l \<in> net s \<longrightarrow> (\<exists>r. H (ae_Term a) = Some r \<and> r_from r \<le> length l \<and> prefix l (r_log r)))"

lemma hist_invD:
  assumes "hist_inv n s H"
  shows "H t = Some r \<Longrightarrow> reign_ok n s H t r"
    and "i < n \<Longrightarrow> rooted H (log (nodes s i))"
    and "i < n \<Longrightarrow> k < length (log (nodes s i)) \<Longrightarrow> le_Term (log (nodes s i) ! k) \<le> currentTerm (nodes s i)"
    and "i < n \<Longrightarrow> state (nodes s i) = StateLeader \<Longrightarrow>
      \<exists>r. H (currentTerm (nodes s i)) = Some r \<and> r_leader r = i \<and> r_log r = log (nodes s i)"
    and "AppendReq j a l \<in> net s \<Longrightarrow> \<exists>r. H (ae_Term a) = Some r \<and> r_from r \<le> length l \<and> prefix l (r_log r)"
  using assms unfolding hist_inv_def by blast+

text \<open>A later history knows the earlier terms, with logs that have only grown.\<close>

definition extends :: "'c history \<Rightarrow> 'c history \<Rightarrow> bool" where
  "extends H H' \<longleftrightarrow>
     (\<forall>t r. H t = Some r \<longrightarrow> (\<exists>r'. H' t = Some r' \<and> r_leader r' = r_leader r \<and> r_from r' = r_from r \<and>
        r_voters r' = r_voters r \<and> prefix (r_log r) (r_log r')))"

lemma extendsD:
  "extends H H' \<Longrightarrow> H t = Some r \<Longrightarrow> \<exists>r'. H' t = Some r' \<and> r_leader r' = r_leader r \<and> r_from r' = r_from r \<and>
     r_voters r' = r_voters r \<and> prefix (r_log r) (r_log r')"
  by (simp add: extends_def)

lemma extends_refl: "extends H H"
  by (simp add: extends_def)

lemma rootedD:
  assumes "rooted H x"
  shows "x \<noteq> []" "le_Term (x ! 0) = 0"
    "0 < k \<Longrightarrow> k < length x \<Longrightarrow> \<exists>r. H (le_Term (x ! k)) = Some r \<and> r_from r \<le> k \<and> prefix (take (Suc k) x) (r_log r)"
  using assms by (simp_all add: rooted_def)

lemma rooted_extends: "rooted H x \<Longrightarrow> extends H H' \<Longrightarrow> rooted H' x"
  unfolding rooted_def
proof (elim conjE, intro conjI allI impI)
  fix k
  assume ext: "extends H H'" and k: "0 < k" "k < length x" and "\<forall>k. 0 < k \<longrightarrow> k < length x \<longrightarrow>
    (\<exists>r. H (le_Term (x ! k)) = Some r \<and> r_from r \<le> k \<and> prefix (take (Suc k) x) (r_log r))"
  then obtain r where r: "H (le_Term (x ! k)) = Some r" "r_from r \<le> k" "prefix (take (Suc k) x) (r_log r)" by blast
  from extendsD [OF ext r(1)] obtain r' where "H' (le_Term (x ! k)) = Some r'" "r_from r' = r_from r" "prefix (r_log r) (r_log r')"
    by blast
  with r(2,3) show "\<exists>r. H' (le_Term (x ! k)) = Some r \<and> r_from r \<le> k \<and> prefix (take (Suc k) x) (r_log r)"
    using prefix_order.trans by auto
qed

lemma rooted_prefix:
  assumes "rooted H y" and "prefix x y" and "x \<noteq> []"
  shows "rooted H x"
  unfolding rooted_def
proof (intro conjI allI impI)
  show "x \<noteq> []" by (rule assms(3))
  then show "le_Term (x ! 0) = 0" using rootedD(2) [OF assms(1)] prefix_nth [OF assms(2), of 0] by simp
  fix k assume k: "0 < k" "k < length x"
  then have "k < length y" "take (Suc k) y = take (Suc k) x" "y ! k = x ! k"
    using prefix_length_le [OF assms(2)] take_of_prefix [OF assms(2), of "Suc k"] prefix_nth [OF assms(2)] by simp_all
  with rootedD(3) [OF assms(1) k(1)]
  show "\<exists>r. H (le_Term (x ! k)) = Some r \<and> r_from r \<le> k \<and> prefix (take (Suc k) x) (r_log r)" by simp
qed

lemma rooted_append:
  assumes "rooted H x" and "H (le_Term e) = Some r" and "r_from r \<le> length x" and "prefix (x @ [e]) (r_log r)"
  shows "rooted H (x @ [e])"
  using assms by (auto simp: rooted_def nth_append less_Suc_eq)

text \<open>Terms do not decrease along a log.\<close>

lemma rooted_sorted:
  assumes hi: "hist_inv n s H" and x: "rooted H x" and k: "k \<le> m" "m < length x"
  shows "le_Term (x ! k) \<le> le_Term (x ! m)"
proof (cases "m = 0")
  case False
  then obtain r where r: "H (le_Term (x ! m)) = Some r" "prefix (take (Suc m) x) (r_log r)"
    using rootedD(3) [OF x _ k(2)] by auto
  have ok: "reign_ok n s H (le_Term (x ! m)) r" using hi r(1) by (rule hist_invD)
  have "k < length (r_log r)" using prefix_length_le [OF r(2)] k by simp
  then have "le_Term (r_log r ! k) \<le> le_Term (x ! m)" using ok by (simp add: reign_ok_def)
  then show ?thesis using prefix_nth [OF r(2), of k] k by simp
qed (use k in simp)

section \<open>The history after a step\<close>

lemma reign_ok_mono:
  assumes "reign_ok n s H t r" and "extends H H'" and "\<And>i. i < n \<Longrightarrow> won n s i t \<Longrightarrow> won n s' i t"
    and "\<And>i. i < n \<Longrightarrow> currentTerm (nodes s i) \<le> currentTerm (nodes s' i)"
  shows "reign_ok n s' H' t r"
proof -
  have "t \<le> currentTerm (nodes s' j)" if "j \<in> r_voters r" for j
    using assms(1) assms(4) [of j] that by (force simp: reign_ok_def)
  then show ?thesis using assms rooted_extends [of H "r_log r" H'] by (simp add: reign_ok_def)
qed

text \<open>What is new in the history: a candidate that has just won.\<close>

definition new_reign :: "nat \<Rightarrow> 'c cluster \<Rightarrow> 'c cluster \<Rightarrow> int \<Rightarrow> 'c reign \<Rightarrow> bool" where
  "new_reign n s s' t r \<longleftrightarrow>
     r_leader r < n \<and> state (nodes s (r_leader r)) = StateCandidate \<and> currentTerm (nodes s (r_leader r)) = t \<and>
     r_log r = log (nodes s (r_leader r)) \<and> r_from r = length (r_log r) \<and> r_voters r = voters n s' (r_leader r) t \<and> net s' = net s"

lemma hist_step_win:
  assumes hi: "hist_inv n s H" and st: "struct_inv n s" and vi: "vote_inv n s" and vi': "vote_inv n s'"
    and step: "raft_step n s s'" and i: "i < n"
    and win: "state (nodes s' i) = StateLeader" "state (nodes s i) = StateCandidate"
      "currentTerm (nodes s' i) = currentTerm (nodes s i)" "log (nodes s' i) = log (nodes s i)" "net s' = net s"
      "\<forall>k. k \<noteq> i \<longrightarrow> nodes s' k = nodes s k"
  shows "\<exists>H'. hist_inv n s' H' \<and> extends H H' \<and> (\<forall>t r. H t = None \<longrightarrow> H' t = Some r \<longrightarrow> new_reign n s s' t r)"
proof -
  note D = hist_invD [OF hi]
  let ?t = "currentTerm (nodes s i)" and ?l = "log (nodes s i)"
  define r where "r = \<lparr>r_leader = i, r_from = length ?l, r_log = ?l, r_voters = voters n s' i ?t\<rparr>"
  let ?H = "H(?t \<mapsto> r)"
  have won: "won n s' i ?t" using vote_invD(5) [OF vi' i win(1)] win(3) by simp
  have wons: "won n s' k t" if "k < n" "won n s k t" for k t using won_step [OF vi st step that] .
  have none: "H ?t = None"
  proof (rule ccontr)
    assume "H ?t \<noteq> None"
    then obtain q where q: "H ?t = Some q" by blast
    then have "r_leader q < n" "won n s (r_leader q) ?t" using D(1) by (simp_all add: reign_ok_def)
    moreover have "r_leader q = i" using won_unique [OF vi' _ i wons won] calculation by blast
    ultimately show False using vote_invD(4) [OF vi i win(2)] by simp
  qed
  then have ext: "extends H ?H" by (auto simp: extends_def)
  have terms: "currentTerm (nodes s k) \<le> currentTerm (nodes s' k)" if "k < n" for k
    using term_step [OF st step that] .
  have root: "rooted ?H (log (nodes s k))" if "k < n" for k using rooted_extends [OF D(2) [OF that] ext] .
  have logs: "log (nodes s' k) = log (nodes s k)" for k using win(4,6) by (cases "k = i") simp_all
  have pos: "0 < length ?l" using rootedD(1) [OF D(2) [OF i]] by simp
  have one: "1 \<le> ?t" using vote_invD(7) [OF vi' i, of ?t] won by (simp add: won_def)
  have below: "le_Term (?l ! k) < ?t" if k: "k < length ?l" for k
  proof (cases "k = 0")
    case True
    then show ?thesis using rootedD(2) [OF D(2) [OF i]] one by simp
  next
    case False
    then obtain q where "H (le_Term (?l ! k)) = Some q" using rootedD(3) [OF D(2) [OF i] _ k] by auto
    then have "le_Term (?l ! k) \<noteq> ?t" using none by auto
    then show ?thesis using D(3) [OF i k] by simp
  qed
  have reign: "reign_ok n s' ?H ?t r"
  proof -
    have "voters n s' i ?t \<subseteq> {..<n}" by (auto simp: voters_def)
    moreover have "n div 2 < card (voters n s' i ?t)" using vote_invD(3) [OF vi' i, of ?t] won by (simp add: won_def)
    moreover have "?t \<le> currentTerm (nodes s' j)" if "j \<in> voters n s' i ?t" for j
      using vote_invD(1) [OF vi', of j ?t i] that by (auto simp: voters_def)
    moreover have "le_Term (?l ! k) \<le> ?t" if "k < length ?l" for k using below [OF that] by simp
    ultimately show ?thesis using i won one pos below root [OF i] unfolding reign_ok_def r_def by simp
  qed
  have "hist_inv n s' ?H"
    unfolding hist_inv_def
  proof (intro conjI allI impI)
    fix t q assume "?H t = Some q"
    then show "reign_ok n s' ?H t q"
      using reign reign_ok_mono [OF D(1) ext wons terms, of t q] by (auto split: if_splits)
  next
    fix k assume "k < n"
    then show "rooted ?H (log (nodes s' k))" using root logs by simp
  next
    fix k m assume "k < n" "m < length (log (nodes s' k))"
    then show "le_Term (log (nodes s' k) ! m) \<le> currentTerm (nodes s' k)"
      using D(3) [of k m] terms [of k] logs by simp
  next
    fix k assume k: "k < n" "state (nodes s' k) = StateLeader"
    show "\<exists>q. ?H (currentTerm (nodes s' k)) = Some q \<and> r_leader q = k \<and> r_log q = log (nodes s' k)"
    proof (cases "k = i")
      case True
      then show ?thesis using win(3,4) by (simp add: r_def)
    next
      case False
      then have "nodes s' k = nodes s k" using win(6) by simp
      then show ?thesis using D(4) [OF k(1)] k(2) none by auto
    qed
  next
    fix j a l assume "AppendReq j a l \<in> net s'"
    then show "\<exists>q. ?H (ae_Term a) = Some q \<and> r_from q \<le> length l \<and> prefix l (r_log q)"
      using D(5) [of j a l] win(5) none by auto
  qed
  moreover have "new_reign n s s' ?t r" using i win(2,5) by (simp add: new_reign_def r_def)
  ultimately show ?thesis using ext by (intro exI [of _ ?H]) (auto split: if_splits)
qed

lemma hist_step_grow:
  assumes hi: "hist_inv n s H" and st: "struct_inv n s" and vi: "vote_inv n s" and step: "raft_step n s s'" and i: "i < n"
    and grow: "state (nodes s i) = StateLeader" "state (nodes s' i) = StateLeader"
      "currentTerm (nodes s' i) = currentTerm (nodes s i)" "log (nodes s' i) = log (nodes s i) @ [e]"
      "le_Term e = currentTerm (nodes s i)" "net s' = net s" "\<forall>k. k \<noteq> i \<longrightarrow> nodes s' k = nodes s k"
  shows "\<exists>H'. hist_inv n s' H' \<and> extends H H' \<and> (\<forall>t r. H t = None \<longrightarrow> H' t \<noteq> Some r)"
proof -
  note D = hist_invD [OF hi]
  let ?t = "currentTerm (nodes s i)" and ?l = "log (nodes s i)"
  obtain r where r: "H ?t = Some r" "r_leader r = i" "r_log r = ?l" using D(4) [OF i grow(1)] by blast
  let ?r = "r\<lparr>r_log := ?l @ [e]\<rparr>"
  let ?H = "H(?t \<mapsto> ?r)"
  have ext: "extends H ?H" using r by (auto simp: extends_def)
  have wons: "won n s' k t" if "k < n" "won n s k t" for k t using won_step [OF vi st step that] .
  have terms: "currentTerm (nodes s k) \<le> currentTerm (nodes s' k)" if "k < n" for k
    using term_step [OF st step that] .
  have ok: "reign_ok n s H ?t r" using D(1) [OF r(1)] .
  have ok': "reign_ok n s' ?H ?t r" using ok by (rule reign_ok_mono) (fact ext wons terms)+
  have root: "rooted ?H (log (nodes s k))" if "k < n" for k using rooted_extends [OF D(2) [OF that] ext] .
  have from_len: "r_from r \<le> length ?l" using ok r(3) by (simp add: reign_ok_def)
  then have new: "rooted ?H (?l @ [e])" 
    by (intro rooted_append [OF root [OF i], of e ?r]) (simp_all add: grow(5))
  then have reign: "reign_ok n s' ?H ?t ?r"
    using ok' from_len grow(5) by (auto simp: reign_ok_def r(3) nth_append less_Suc_eq)
  have "hist_inv n s' ?H"
    unfolding hist_inv_def
  proof (intro conjI allI impI)
    fix t q assume "?H t = Some q"
    then show "reign_ok n s' ?H t q"
      using reign reign_ok_mono [OF D(1) ext wons terms, of t q] by (auto split: if_splits)
  next
    fix k assume "k < n"
    then show "rooted ?H (log (nodes s' k))" using root new grow(4,7) by (cases "k = i") auto
  next
    fix k m assume "k < n" "m < length (log (nodes s' k))"
    then show "le_Term (log (nodes s' k) ! m) \<le> currentTerm (nodes s' k)"
      using D(3) [of k m] grow(3-5,7) by (cases "k = i") (auto simp: nth_append less_Suc_eq)
  next
    fix k assume k: "k < n" "state (nodes s' k) = StateLeader"
    show "\<exists>q. ?H (currentTerm (nodes s' k)) = Some q \<and> r_leader q = k \<and> r_log q = log (nodes s' k)"
    proof (cases "k = i")
      case True
      then show ?thesis using grow(3,4) r(2) by simp
    next
      case False
      then have same: "nodes s' k = nodes s k" using grow(7) by simp
      have "currentTerm (nodes s k) \<noteq> ?t"
        using False won_unique [OF vi k(1) i] vote_invD(5) [OF vi k(1)] vote_invD(5) [OF vi i grow(1)] k(2) same by auto
      then show ?thesis using D(4) [OF k(1)] k(2) same by simp
    qed
  next
    fix j a l assume "AppendReq j a l \<in> net s'"
    then obtain q where "H (ae_Term a) = Some q" "r_from q \<le> length l" "prefix l (r_log q)"
      using D(5) grow(6) by metis
    then show "\<exists>q. ?H (ae_Term a) = Some q \<and> r_from q \<le> length l \<and> prefix l (r_log q)"
      using r by (cases "ae_Term a = ?t") auto
  qed
  then show ?thesis using ext r(1) by (intro exI [of _ ?H]) auto
qed

lemma hist_step_quiet:
  assumes hi: "hist_inv n s H" and st: "struct_inv n s" and li: "log_inv n s" and vi: "vote_inv n s" and step: "raft_step n s s'"
    and logs: "\<And>i. i < n \<Longrightarrow> log (nodes s' i) = log (nodes s i) \<or>
      state (nodes s' i) \<noteq> StateLeader \<and> (\<exists>a. AppendReq i a (log (nodes s' i)) \<in> net s \<and> currentTerm (nodes s' i) = ae_Term a)"
    and lead: "\<And>i. i < n \<Longrightarrow> state (nodes s' i) = StateLeader \<Longrightarrow> state (nodes s i) = StateLeader \<and>
      currentTerm (nodes s' i) = currentTerm (nodes s i)"
  shows "hist_inv n s' H"
proof -
  note D = hist_invD [OF hi]
  have terms: "currentTerm (nodes s k) \<le> currentTerm (nodes s' k)" if "k < n" for k
    using term_step [OF st step that] .
  have req: "reign_ok n s H (ae_Term a) r \<and> l \<noteq> []"
    if "AppendReq j a l \<in> net s" "H (ae_Term a) = Some r" for j a l r
    using D(1) [OF that(2)] struct_msg [OF st that(1)] by (auto simp: cut_of_def)
  show ?thesis
    unfolding hist_inv_def
  proof (intro conjI allI impI)
    fix t q assume "H t = Some q"
    from D(1) [OF this] show "reign_ok n s' H t q"
      by (rule reign_ok_mono) (fact extends_refl won_step [OF vi st step] terms)+
  next
    fix i assume i: "i < n"
    from logs [OF i] show "rooted H (log (nodes s' i))"
    proof
      assume "log (nodes s' i) = log (nodes s i)"
      then show ?thesis using D(2) [OF i] by simp
    next
      assume "state (nodes s' i) \<noteq> StateLeader \<and> (\<exists>a. AppendReq i a (log (nodes s' i)) \<in> net s \<and> currentTerm (nodes s' i) = ae_Term a)"
      then obtain a r where "AppendReq i a (log (nodes s' i)) \<in> net s" "H (ae_Term a) = Some r" "prefix (log (nodes s' i)) (r_log r)"
        using D(5) by blast
      with req show ?thesis using rooted_prefix by (metis reign_ok_def)
    qed
  next
    fix i k assume i: "i < n" and k: "k < length (log (nodes s' i))"
    from logs [OF i] show "le_Term (log (nodes s' i) ! k) \<le> currentTerm (nodes s' i)"
    proof
      assume "log (nodes s' i) = log (nodes s i)"
      then show ?thesis using D(3) [OF i, of k] terms [OF i] k by simp
    next
      assume "state (nodes s' i) \<noteq> StateLeader \<and> (\<exists>a. AppendReq i a (log (nodes s' i)) \<in> net s \<and> currentTerm (nodes s' i) = ae_Term a)"
      then obtain a r where a: "AppendReq i a (log (nodes s' i)) \<in> net s" "H (ae_Term a) = Some r"
        "prefix (log (nodes s' i)) (r_log r)" "currentTerm (nodes s' i) = ae_Term a"
        using D(5) by blast
      have "k < length (r_log r)" using k prefix_length_le [OF a(3)] by simp
      then show ?thesis using req [OF a(1,2)] prefix_nth [OF a(3) k] a(4) by (auto simp: reign_ok_def)
    qed
  next
    fix i assume i: "i < n" "state (nodes s' i) = StateLeader"
    then show "\<exists>r. H (currentTerm (nodes s' i)) = Some r \<and> r_leader r = i \<and> r_log r = log (nodes s' i)"
      using logs [OF i(1)] lead [OF i] D(4) [OF i(1)] by auto
  next
    fix j a l assume "AppendReq j a l \<in> net s'"
    from AppendReq_step [OF st step this] show "\<exists>r. H (ae_Term a) = Some r \<and> r_from r \<le> length l \<and> prefix l (r_log r)"
    proof
      assume "AppendReq j a l \<in> net s"
      then show ?thesis by (rule D(5))
    next
      assume new: "ae_LeaderID a < n \<and> state (nodes s (ae_LeaderID a)) = StateLeader \<and>
        ae_Term a = currentTerm (nodes s (ae_LeaderID a)) \<and> ae_LeaderCommit a = commitIndex (nodes s (ae_LeaderID a)) \<and>
        l = log (nodes s (ae_LeaderID a)) \<and> nodes s' = nodes s"
      then obtain r where "H (ae_Term a) = Some r" "r_log r = l" using D(4) by metis
      then show ?thesis using D(1) by (fastforce simp: reign_ok_def)
    qed
  qed
qed

lemma hist_step:
  assumes hi: "hist_inv n s H" and st: "struct_inv n s" and li: "log_inv n s" and vi: "vote_inv n s" and vi': "vote_inv n s'"
    and step: "raft_step n s s'"
  shows "\<exists>H'. hist_inv n s' H' \<and> extends H H' \<and> (\<forall>t r. H t = None \<longrightarrow> H' t = Some r \<longrightarrow> new_reign n s s' t r)"
proof -
  consider (win) i where "i < n" "state (nodes s' i) = StateLeader" "state (nodes s i) \<noteq> StateLeader"
    | (grow) i where "i < n" "state (nodes s' i) = StateLeader" "log (nodes s' i) \<noteq> log (nodes s i)"
    | (quiet) "\<forall>i < n. state (nodes s' i) = StateLeader \<longrightarrow> state (nodes s i) = StateLeader \<and> log (nodes s' i) = log (nodes s i)"
    by blast
  then show ?thesis
  proof cases
    case win
    show ?thesis
    proof (cases rule: leader_step [OF st step win(1,2)])
      case new: 3
      show ?thesis by (rule hist_step_win [OF hi st vi vi' step win(1,2) new(1-3,5,6)])
    qed (simp_all only: win(3))
  next
    case grow
    show ?thesis
    proof (cases rule: log_step [OF st li step grow(1)])
      case new: (2 e)
      from hist_step_grow [OF hi st vi step grow(1) new(1-6,8)] show ?thesis by blast
    qed (use grow(2,3) in simp_all)
  next
    case quiet
    have "hist_inv n s' H"
    proof (rule hist_step_quiet [OF hi st li vi step])
      fix i assume i: "i < n"
      show "log (nodes s' i) = log (nodes s i) \<or> state (nodes s' i) \<noteq> StateLeader \<and>
          (\<exists>a. AppendReq i a (log (nodes s' i)) \<in> net s \<and> currentTerm (nodes s' i) = ae_Term a)"
      proof (cases rule: log_step [OF st li step i])
        case (2 e)
        then show ?thesis using quiet [rule_format, OF i] by simp
      next
        case (3 a)
        then show ?thesis by (intro disjI2 conjI exI [of _ a]) simp_all
      qed simp
      assume lead: "state (nodes s' i) = StateLeader"
      show "state (nodes s i) = StateLeader \<and> currentTerm (nodes s' i) = currentTerm (nodes s i)"
        by (cases rule: leader_step [OF st step i lead]) (use quiet [rule_format, OF i lead] in simp_all)
    qed
    then show ?thesis by (intro exI [of _ H] conjI extends_refl) simp_all
  qed
qed

end
