(* ===== verification/Raft_Safety.thy ===== *)
theory Raft_Safety
  imports Raft_History
begin

text \<open>
  State-machine safety. An acknowledgement of a log survives in the log of the peer, unless a leader of a later term disagrees with it; a voter of
  a later leader has compared that log with the log of the candidate. So what a majority has acknowledged in a term is
  in the log of every later leader, and two peers never commit different entries at one index.

  All this holds in executions in which a peer that wins an election has acknowledged indices 0, as at the first
  leadership after a start. Winning does not reset them (\<open>committed_entries_diverge\<close> in \<open>Raft_Properties\<close> is what follows from that), so
  the condition is a hypothesis on the executions.
\<close>

section \<open>Acknowledgements\<close>

text \<open>A peer has acknowledged a log in a term when it accepted a request with that log, or sent one as the leader of the term.\<close>

definition acked :: "'c cluster \<Rightarrow> nat \<Rightarrow> int \<Rightarrow> 'c LogEntry list \<Rightarrow> bool" where
  "acked s m t l \<longleftrightarrow>
     (\<exists>a r. AppendReq m a l \<in> net s \<and> ae_Term a = t \<and> AppendRep m a r \<in> net s \<and> ar_Success r) \<or>
     (\<exists>j a. AppendReq j a l \<in> net s \<and> ae_Term a = t \<and> ae_LeaderID a = m)"

text \<open>A leader of a term in between has another log.\<close>

definition conflict :: "'c cluster \<Rightarrow> 'c LogEntry list \<Rightarrow> int \<Rightarrow> int \<Rightarrow> bool" where
  "conflict s p t t' \<longleftrightarrow> (\<exists>j a l. AppendReq j a l \<in> net s \<and> t < ae_Term a \<and> ae_Term a < t' \<and> \<not> prefix p l)"

lemma conflict_mono: "conflict s p t t' \<Longrightarrow> net s \<subseteq> net s' \<Longrightarrow> t' \<le> t'' \<Longrightarrow> conflict s' p t t''"
  unfolding conflict_def by (meson less_le_trans subsetD)

lemma acked_mono: "acked s m t l \<Longrightarrow> net s \<subseteq> net s' \<Longrightarrow> acked s' m t l"
  unfolding acked_def by (elim disjE exE conjE) blast+

lemma acked_request: "acked s m t l \<Longrightarrow> \<exists>j a. AppendReq j a l \<in> net s \<and> ae_Term a = t"
  by (auto simp: acked_def)

text \<open>The arguments of a request determine the log of its sender.\<close>

lemma request_log:
  assumes "hist_inv n s H" and "struct_inv n s" and "AppendReq m a l \<in> net s" and "AppendReq m a l' \<in> net s"
  shows "l = l'"
proof -
  have len: "int (length x) = ae_PrevLogIndex a + int (length (ae_Entries a)) + 1" if "AppendReq m a x \<in> net s" for x
    using struct_msg [OF assms(2) that] by (auto simp: cut_of_def)
  obtain r where "H (ae_Term a) = Some r" "prefix l (r_log r)" "prefix l' (r_log r)"
    using hist_invD(5) [OF assms(1,3)] hist_invD(5) [OF assms(1,4)] by auto
  moreover have "length l = length l'" using len [OF assms(3)] len [OF assms(4)] by linarith
  ultimately show ?thesis by (metis prefix_length prefix_same_cases)
qed

lemma acked_step:
  assumes st: "struct_inv n s" and st': "struct_inv n s'" and li: "log_inv n s" and hi': "hist_inv n s' H'"
    and step: "raft_step n s s'" and ack: "acked s' m t l"
  shows "acked s m t l \<or> m < n \<and> t = currentTerm (nodes s' m) \<and> prefix l (log (nodes s' m))"
proof -
  note sub = net_step [OF step]
  from ack consider a r where "AppendReq m a l \<in> net s'" "ae_Term a = t" "AppendRep m a r \<in> net s'" "ar_Success r"
    | j a where "AppendReq j a l \<in> net s'" "ae_Term a = t" "ae_LeaderID a = m" unfolding acked_def by blast
  then show ?thesis
  proof cases
    case (1 a r)
    from AppendRep_step [OF step 1(3)] show ?thesis
    proof
      assume old: "AppendRep m a r \<in> net s"
      then obtain l0 where l0: "AppendReq m a l0 \<in> net s" using struct_msg [OF st] by fastforce
      then have "l0 = l" using request_log [OF hi' st' _ 1(1)] sub by blast
      with l0 old 1(2,4) show ?thesis unfolding acked_def by blast
    next
      assume "\<exists>l. AppendReq m a l \<in> net s \<and> AppendEntries a (nodes s m) = Some (nodes s' m, r)"
      then obtain l0 where l0: "AppendReq m a l0 \<in> net s" and run: "AppendEntries a (nodes s m) = Some (nodes s' m, r)" by blast
      have "l0 = l" using request_log [OF hi' st' _ 1(1)] sub l0 by blast
      moreover have m: "m < n" "cut_of a l0" using struct_msg [OF st l0] by simp_all
      moreover have "matching (log (nodes s m)) l0"
        using log_invD(1) [OF li logs_node [OF m(1)], of l0] l0 by (auto simp: logs_def)
      ultimately show ?thesis using AppendEntries_contains [OF run _ _ 1(4)] 1(2) by auto
    qed
  next
    case (2 j a)
    from AppendReq_step [OF st step 2(1)] show ?thesis
    proof
      assume "AppendReq j a l \<in> net s"
      with 2(2,3) show ?thesis unfolding acked_def by blast
    qed (use 2(2,3) in auto)
  qed
qed

definition ack_inv :: "nat \<Rightarrow> 'c cluster \<Rightarrow> bool" where
  "ack_inv n s \<longleftrightarrow>
     (\<forall>m t l. acked s m t l \<longrightarrow> m < n \<and> t \<le> currentTerm (nodes s m) \<and>
        (\<forall>p. prefix p l \<longrightarrow> prefix p (log (nodes s m)) \<or> conflict s p t (currentTerm (nodes s m) + 1)))"

lemma ack_invD:
  assumes "ack_inv n s" and "acked s m t l"
  shows "m < n" "t \<le> currentTerm (nodes s m)"
    "prefix p l \<Longrightarrow> prefix p (log (nodes s m)) \<or> conflict s p t (currentTerm (nodes s m) + 1)"
  using assms unfolding ack_inv_def by blast+

text \<open>Two logs of one term are comparable.\<close>

lemma same_reign:
  assumes "hist_inv n s H" and "AppendReq j a l \<in> net s" and "AppendReq j' a' l' \<in> net s" and "ae_Term a = ae_Term a'"
    and "prefix p l"
  shows "prefix p l' \<or> prefix l' p"
proof -
  obtain r where "H (ae_Term a) = Some r" "prefix l (r_log r)" "prefix l' (r_log r)"
    using hist_invD(5) [OF assms(1,2)] hist_invD(5) [OF assms(1,3)] assms(4) by auto
  then show ?thesis using assms(5) prefix_order.trans prefix_same_cases by blast
qed

lemma ack_inv_step:
  assumes ai: "ack_inv n s" and st: "struct_inv n s" and st': "struct_inv n s'" and li: "log_inv n s" and hi: "hist_inv n s H"
    and hi': "hist_inv n s' H'" and step: "raft_step n s s'"
  shows "ack_inv n s'"
  unfolding ack_inv_def
proof (intro allI impI)
  fix m t l assume "acked s' m t l"
  from acked_step [OF st st' li hi' step this]
  show "m < n \<and> t \<le> currentTerm (nodes s' m) \<and>
    (\<forall>p. prefix p l \<longrightarrow> prefix p (log (nodes s' m)) \<or> conflict s' p t (currentTerm (nodes s' m) + 1))"
  proof
    assume old: "acked s m t l"
    note A = ack_invD [OF ai old]
    note mono = term_step [OF st step A(1)]
    have "prefix p (log (nodes s' m)) \<or> conflict s' p t (currentTerm (nodes s' m) + 1)" if p: "prefix p l" for p
      using A(3) [OF p]
    proof
      assume in_log: "prefix p (log (nodes s m))"
      show ?thesis
      proof (cases rule: log_step [OF st li step A(1)])
        case 1
        then show ?thesis using in_log by simp
      next
        case (2 e)
        then show ?thesis using in_log by simp
      next
        case (3 a)
        let ?l = "log (nodes s' m)"
        obtain j b where b: "AppendReq j b l \<in> net s" "ae_Term b = t" using acked_request [OF old] by blast
        have "prefix p ?l" if "t = ae_Term a"
        proof -
          have "prefix p ?l \<or> prefix ?l p" using same_reign [OF hi b(1) 3(1) _ p] b(2) that by simp
          then show ?thesis using in_log 3(2) prefix_order.trans by blast
        qed
        moreover have "conflict s' p t (currentTerm (nodes s' m) + 1)" if "t \<noteq> ae_Term a" "\<not> prefix p ?l"
          unfolding conflict_def using that 3(1,3,5) A(2) mono by (intro exI [of _ m] exI [of _ a] exI [of _ ?l]) auto
        ultimately show ?thesis by blast
      qed
    next
      assume "conflict s p t (currentTerm (nodes s m) + 1)"
      then show ?thesis using conflict_mono [OF _ net_step [OF step]] mono by auto
    qed
    then show ?thesis using A(1,2) mono by auto
  next
    assume "m < n \<and> t = currentTerm (nodes s' m) \<and> prefix l (log (nodes s' m))"
    then show ?thesis using prefix_order.trans by auto
  qed
qed

section \<open>Votes compare logs\<close>

definition reaches :: "RequestVoteArgs \<Rightarrow> 'c LogEntry list \<Rightarrow> bool" where
  "reaches a p \<longleftrightarrow> le_Term (last p) < rv_LastLogTerm a \<or>
     le_Term (last p) = rv_LastLogTerm a \<and> int (length p) - 1 \<le> rv_LastLogIndex a"

definition ballot_inv :: "nat \<Rightarrow> 'c cluster \<Rightarrow> bool" where
  "ballot_inv n s \<longleftrightarrow>
     (\<forall>j a. VoteReq j a \<in> net s \<longrightarrow> rv_Term a \<le> currentTerm (nodes s (rv_CandidateId a)) \<and>
        (state (nodes s (rv_CandidateId a)) = StateCandidate \<longrightarrow> currentTerm (nodes s (rv_CandidateId a)) = rv_Term a \<longrightarrow>
         rv_LastLogTerm a = le_Term (last (log (nodes s (rv_CandidateId a)))) \<and>
         rv_LastLogIndex a = int (length (log (nodes s (rv_CandidateId a)))) - 1)) \<and>
     (\<forall>j a r. VoteRep j a r \<in> net s \<longrightarrow> VoteReq j a \<in> net s) \<and>
     (\<forall>j a r t l p. VoteRep j a r \<in> net s \<longrightarrow> rr_VoteGranted r \<longrightarrow> acked s j t l \<longrightarrow> t < rv_Term a \<longrightarrow> prefix p l \<longrightarrow> p \<noteq> [] \<longrightarrow>
        reaches a p \<or> conflict s p t (rv_Term a + 1))"

lemma ballot_invD:
  assumes "ballot_inv n s"
  shows "VoteReq j a \<in> net s \<Longrightarrow> rv_Term a \<le> currentTerm (nodes s (rv_CandidateId a))"
    and "VoteReq j a \<in> net s \<Longrightarrow> state (nodes s (rv_CandidateId a)) = StateCandidate \<Longrightarrow>
      currentTerm (nodes s (rv_CandidateId a)) = rv_Term a \<Longrightarrow>
      rv_LastLogTerm a = le_Term (last (log (nodes s (rv_CandidateId a)))) \<and>
      rv_LastLogIndex a = int (length (log (nodes s (rv_CandidateId a)))) - 1"
    and "VoteRep j a r \<in> net s \<Longrightarrow> VoteReq j a \<in> net s"
    and "VoteRep j a r \<in> net s \<Longrightarrow> rr_VoteGranted r \<Longrightarrow> acked s j t l \<Longrightarrow> t < rv_Term a \<Longrightarrow> prefix p l \<Longrightarrow> p \<noteq> [] \<Longrightarrow>
      reaches a p \<or> conflict s p t (rv_Term a + 1)"
  using assms unfolding ballot_inv_def by blast+

text \<open>A granted vote says that the candidate's log is at least as far as every prefix of the voter's.\<close>

lemma RequestVote_reaches:
  assumes "RequestVote a rf = Some (rf', r)" and "rr_VoteGranted r"
    and "prefix p (log rf)" and "p \<noteq> []"
    and "\<And>k m. k \<le> m \<Longrightarrow> m < length (log rf) \<Longrightarrow> le_Term (log rf ! k) \<le> le_Term (log rf ! m)"
  shows "reaches a p"
proof -
  have ne: "log rf \<noteq> []" using assms(3,4) by auto
  have up: "le_Term (last (log rf)) < rv_LastLogTerm a \<or>
      rv_LastLogTerm a = le_Term (last (log rf)) \<and> int (length (log rf)) - 1 \<le> rv_LastLogIndex a"
    using assms(1,2) ne by (auto simp: RequestVote_def Let_def at_last split: if_splits)
  have len: "length p \<le> length (log rf)" using prefix_length_le [OF assms(3)] .
  then have "le_Term (last p) = le_Term (log rf ! (length p - 1))"
    using assms(4) prefix_nth [OF assms(3), of "length p - 1"] by (simp add: last_conv_nth)
  also have "\<dots> \<le> le_Term (last (log rf))"
    using assms(5) [of "length p - 1" "length (log rf) - 1"] len ne by (simp add: last_conv_nth diff_le_mono)
  finally show ?thesis using up len by (auto simp: reaches_def)
qed

lemma ballot_inv_step:
  assumes bi: "ballot_inv n s" and ai: "ack_inv n s" and st: "struct_inv n s" and st': "struct_inv n s'" and li: "log_inv n s"
    and vi: "vote_inv n s" and hi: "hist_inv n s H" and hi': "hist_inv n s' H'" and step: "raft_step n s s'"
  shows "ballot_inv n s'"
proof -
  note B = ballot_invD [OF bi]
  have old_req: "rv_Term a \<le> currentTerm (nodes s' (rv_CandidateId a)) \<and>
      (state (nodes s' (rv_CandidateId a)) = StateCandidate \<longrightarrow> currentTerm (nodes s' (rv_CandidateId a)) = rv_Term a \<longrightarrow>
       rv_LastLogTerm a = le_Term (last (log (nodes s' (rv_CandidateId a)))) \<and>
       rv_LastLogIndex a = int (length (log (nodes s' (rv_CandidateId a)))) - 1)" if a: "VoteReq j a \<in> net s" for j a
  proof -
    let ?c = "rv_CandidateId a"
    have c: "?c < n" using struct_msg [OF st a] by simp
    have le: "rv_Term a \<le> currentTerm (nodes s' ?c)" using B(1) [OF a] term_step [OF st step c] by simp
    have "rv_LastLogTerm a = le_Term (last (log (nodes s' ?c))) \<and> rv_LastLogIndex a = int (length (log (nodes s' ?c))) - 1"
      if cand: "state (nodes s' ?c) = StateCandidate" and t: "currentTerm (nodes s' ?c) = rv_Term a"
    proof (cases rule: candidate_step [OF st step c cand])
      case 1
      then show ?thesis using B(2) [OF a] t by simp
    next
      case (2 b)
      then show ?thesis using B(1) [OF a] startElection_cases(8) [OF 2] t by simp
    qed
    with le show ?thesis by blast
  qed
  show ?thesis
    unfolding ballot_inv_def
  proof (intro conjI allI impI)
    fix j a assume "VoteReq j a \<in> net s'"
    from VoteReq_step [OF step this] have both: "rv_Term a \<le> currentTerm (nodes s' (rv_CandidateId a)) \<and>
      (state (nodes s' (rv_CandidateId a)) = StateCandidate \<longrightarrow> currentTerm (nodes s' (rv_CandidateId a)) = rv_Term a \<longrightarrow>
       rv_LastLogTerm a = le_Term (last (log (nodes s' (rv_CandidateId a)))) \<and>
       rv_LastLogIndex a = int (length (log (nodes s' (rv_CandidateId a)))) - 1)"
    proof
      assume "\<exists>k < n. startElection (nodes s k) = Some (nodes s' k, a)"
      then obtain k where k: "k < n" "startElection (nodes s k) = Some (nodes s' k, a)" by blast
      have "node_ok n k (nodes s k)" using st k(1) by (simp add: struct_inv_def)
      then show ?thesis using startElection_cases [OF k(2)] startElection_args [OF k(2)] by (simp add: node_ok_def)
    qed (rule old_req)
    then show "rv_Term a \<le> currentTerm (nodes s' (rv_CandidateId a))" by simp
    assume "state (nodes s' (rv_CandidateId a)) = StateCandidate" "currentTerm (nodes s' (rv_CandidateId a)) = rv_Term a"
    with both show "rv_LastLogTerm a = le_Term (last (log (nodes s' (rv_CandidateId a))))"
      "rv_LastLogIndex a = int (length (log (nodes s' (rv_CandidateId a)))) - 1" by simp_all
  next
    fix j a r assume "VoteRep j a r \<in> net s'"
    with VoteRep_step [OF step this] B(3) show "VoteReq j a \<in> net s'" using net_step [OF step] by blast
  next
    fix j a r t l p
    assume rep: "VoteRep j a r \<in> net s'" "rr_VoteGranted r" and ack: "acked s' j t l" and t: "t < rv_Term a"
      and p: "prefix p l" "p \<noteq> []"
    from VoteRep_step [OF step rep(1)] show "reaches a p \<or> conflict s' p t (rv_Term a + 1)"
    proof
      assume old: "VoteRep j a r \<in> net s"
      then have j: "j < n" using struct_msg [OF st] by fastforce
      have "voted s j (rv_Term a) (rv_CandidateId a)" using old rep(2) by (auto simp: voted_def granted_def)
      then have "rv_Term a \<le> currentTerm (nodes s j)" using vote_invD(1) [OF vi j] by fastforce
      then have "acked s j t l" using acked_step [OF st st' li hi' step ack] term_step [OF st step j] t by auto
      then show ?thesis using B(4) [OF old rep(2) _ t p] conflict_mono [OF _ net_step [OF step]] by blast
    next
      assume "VoteReq j a \<in> net s \<and> RequestVote a (nodes s j) = Some (nodes s' j, r)"
      then have req: "VoteReq j a \<in> net s" and run: "RequestVote a (nodes s j) = Some (nodes s' j, r)" by simp_all
      have j: "j < n" using struct_msg [OF st req] by simp
      note R = RequestVote_cases [OF run saved_node [OF st j]]
      have cur: "currentTerm (nodes s' j) = rv_Term a" "currentTerm (nodes s j) \<le> rv_Term a"
        using R(8,13) rep(2) by simp_all
      then have old: "acked s j t l" using acked_step [OF st st' li hi' step ack] t by auto
      from ack_invD(3) [OF ai old p(1)] show ?thesis
      proof
        assume "prefix p (log (nodes s j))"
        then have "reaches a p"
          using RequestVote_reaches [OF run rep(2) _ p(2)] rooted_sorted [OF hi hist_invD(2) [OF hi j]] by blast
        then show ?thesis ..
      next
        assume "conflict s p t (currentTerm (nodes s j) + 1)"
        then show ?thesis using conflict_mono [OF _ net_step [OF step]] cur(2) by auto
      qed
    qed
  qed
qed


section \<open>What a leader knows\<close>

definition match_inv :: "nat \<Rightarrow> 'c cluster \<Rightarrow> bool" where
  "match_inv n s \<longleftrightarrow>
     (\<forall>i < n. state (nodes s i) = StateLeader \<longrightarrow> (\<forall>j < n. j \<noteq> i \<longrightarrow> 0 < matchIndex (nodes s i) ! j \<longrightarrow>
        (\<exists>l. acked s j (currentTerm (nodes s i)) l \<and> int (length l) = matchIndex (nodes s i) ! j + 1 \<and> prefix l (log (nodes s i)))))"

lemma match_invD:
  "match_inv n s \<Longrightarrow> i < n \<Longrightarrow> state (nodes s i) = StateLeader \<Longrightarrow> j < n \<Longrightarrow> j \<noteq> i \<Longrightarrow> 0 < matchIndex (nodes s i) ! j \<Longrightarrow>
   \<exists>l. acked s j (currentTerm (nodes s i)) l \<and> int (length l) = matchIndex (nodes s i) ! j + 1 \<and> prefix l (log (nodes s i))"
  by (simp add: match_inv_def)

lemma match_inv_step:
  assumes mi: "match_inv n s" and st: "struct_inv n s" and li: "log_inv n s" and hi: "hist_inv n s H"
    and step: "win_step unacked n s s'"
  shows "match_inv n s'"
  unfolding match_inv_def
proof (intro allI impI)
  fix i j assume i: "i < n" and lead: "state (nodes s' i) = StateLeader" and j: "j < n" "j \<noteq> i"
    and pos: "0 < matchIndex (nodes s' i) ! j"
  have rs: "raft_step n s s'" using step by (simp add: win_step_def)
  have ok: "node_ok n i (nodes s i)" "length (matchIndex (nodes s' i)) = n"
    using st struct_inv_step [OF st rs] i by (simp_all add: struct_inv_def node_ok_def)
  have grown: "prefix (log (nodes s i)) (log (nodes s' i))" if "state (nodes s i) = StateLeader"
    by (cases rule: log_step [OF st li rs i]) (use lead in simp_all)
  have keep: "\<exists>l. acked s' j (currentTerm (nodes s' i)) l \<and> int (length l) = matchIndex (nodes s' i) ! j + 1 \<and> prefix l (log (nodes s' i))"
    if old: "state (nodes s i) = StateLeader" "currentTerm (nodes s' i) = currentTerm (nodes s i)"
      "matchIndex (nodes s' i) ! j = matchIndex (nodes s i) ! j"
  proof -
    obtain l where "acked s j (currentTerm (nodes s i)) l" "int (length l) = matchIndex (nodes s i) ! j + 1" "prefix l (log (nodes s i))"
      using match_invD [OF mi i old(1) j] pos old(3) by auto
    then show ?thesis using acked_mono [OF _ net_step [OF rs]] grown [OF old(1)] old(2,3) prefix_order.trans by metis
  qed
  show "\<exists>l. acked s' j (currentTerm (nodes s' i)) l \<and> int (length l) = matchIndex (nodes s' i) ! j + 1 \<and> prefix l (log (nodes s' i))"
  proof (cases rule: leader_step [OF st rs i lead])
    case 1
    then show ?thesis by (intro keep) simp_all
  next
    case (2 k a r)
    let ?v = "ae_PrevLogIndex a + int (length (ae_Entries a))"
    show ?thesis
    proof (cases "k = j \<and> matchIndex (nodes s i) ! j < ?v")
      case True
      obtain l where l: "AppendReq k a l \<in> net s" using struct_msg [OF st 2(3)] by auto
      have "int (length l) = ?v + 1" using struct_msg [OF st l] by (auto simp: cut_of_def)
      moreover have "matchIndex (nodes s' i) ! j = ?v" using True 2(7) j(1) ok by (simp add: raise_def node_ok_def)
      moreover have "prefix l (log (nodes s i))" using hist_invD(5) [OF hi l] hist_invD(4) [OF hi i 2(1)] 2(6) by auto
      moreover have "acked s j (currentTerm (nodes s i)) l" using l 2(3,4,6) True unfolding acked_def by blast
      ultimately show ?thesis using acked_mono [OF _ net_step [OF rs]] 2(2,8) by (intro exI [of _ l]) simp
    next
      case False
      then have "matchIndex (nodes s' i) ! j = matchIndex (nodes s i) ! j" 
        by (cases "k = j") (simp_all add: 2(7) raise_def)
      with 2(1,2) show ?thesis by (intro keep)
    qed
  next
    case 3
    then have "state (nodes s i) \<noteq> StateLeader" by simp
    with step i lead have "unacked (matchIndex (nodes s' i))" unfolding win_step_def by blast
    then have "matchIndex (nodes s' i) ! j = 0" using j(1) ok(2) by (simp add: unacked_def)
    with pos show ?thesis by simp
  qed
qed

text \<open>Whatever a voter acknowledged before is in the log of the winner, or was not as recent, or a leader in between disagreed.\<close>

definition win_inv :: "'c cluster \<Rightarrow> 'c history \<Rightarrow> bool" where
  "win_inv s H \<longleftrightarrow>
     (\<forall>t' r. H t' = Some r \<longrightarrow> (\<forall>j \<in> r_voters r. \<forall>t l p. acked s j t l \<longrightarrow> t < t' \<longrightarrow> prefix p l \<longrightarrow> p \<noteq> [] \<longrightarrow>
        newer (take (r_from r) (r_log r)) p \<or> conflict s p t t'))"

lemma win_invD:
  "win_inv s H \<Longrightarrow> H t' = Some r \<Longrightarrow> j \<in> r_voters r \<Longrightarrow> acked s j t l \<Longrightarrow> t < t' \<Longrightarrow> prefix p l \<Longrightarrow> p \<noteq> [] \<Longrightarrow>
   newer (take (r_from r) (r_log r)) p \<or> conflict s p t t'"
  unfolding win_inv_def by blast

lemma prefix_newer:
  assumes "prefix p l" and "p \<noteq> []" and "\<And>k m. k \<le> m \<Longrightarrow> m < length l \<Longrightarrow> le_Term (l ! k) \<le> le_Term (l ! m)"
  shows "newer l p"
proof -
  have len: "length p \<le> length l" "l \<noteq> []" using prefix_length_le [OF assms(1)] assms(1,2) by auto
  have "le_Term (last p) = le_Term (l ! (length p - 1))"
    using assms(2) prefix_nth [OF assms(1), of "length p - 1"] by (simp add: last_conv_nth)
  also have "\<dots> \<le> le_Term (last l)"
    using assms(3) [of "length p - 1" "length l - 1"] len by (simp add: last_conv_nth diff_le_mono)
  finally show ?thesis using len by (auto simp: newer_def)
qed

lemma win_inv_new:
  assumes hi: "hist_inv n s H" and bi: "ballot_inv n s" and ai: "ack_inv n s" and none: "H t' = None"
    and new: "new_reign n s s' t' r" and j: "j \<in> r_voters r" and ack: "acked s j t l" and t: "t < t'" and p: "prefix p l" "p \<noteq> []"
  shows "newer (log (nodes s (r_leader r))) p \<or> conflict s p t t'"
proof -
  let ?i = "r_leader r"
  have i: "?i < n" "state (nodes s ?i) = StateCandidate" "currentTerm (nodes s ?i) = t'" using new by (simp_all add: new_reign_def)
  have free: "ae_Term a \<noteq> t'" if "AppendReq k a m \<in> net s" for k a m
    using hist_invD(5) [OF hi that] none by auto
  have narrow: "conflict s p t t'" if "conflict s p t (t' + 1)"
    using that free unfolding conflict_def by (metis less_le zle_add1_eq_le)
  have "voted s' j t' ?i" using new j by (simp add: new_reign_def voters_def)
  then consider "granted s j t' ?i" | "j = ?i" using new by (auto simp: voted_def granted_def new_reign_def)
  then show ?thesis
  proof cases
    case 1
    then obtain a q where a: "VoteRep j a q \<in> net s" "rr_VoteGranted q" "rv_Term a = t'" "rv_CandidateId a = ?i"
      by (auto simp: granted_def)
    have "rv_LastLogTerm a = le_Term (last (log (nodes s ?i))) \<and> rv_LastLogIndex a = int (length (log (nodes s ?i))) - 1"
      using ballot_invD(2) [OF bi ballot_invD(3) [OF bi a(1)]] a(3,4) i(2,3) by simp
    then have "newer (log (nodes s ?i)) p" if "reaches a p" using that by (auto simp: reaches_def newer_def)
    then show ?thesis using ballot_invD(4) [OF bi a(1,2) ack _ p] narrow t a(3) by auto
  next
    case 2
    have "newer (log (nodes s ?i)) p" if "prefix p (log (nodes s ?i))"
      using prefix_newer [OF that p(2)] rooted_sorted [OF hi hist_invD(2) [OF hi i(1)]] by blast
    then show ?thesis using ack_invD(3) [OF ai ack p(1)] narrow 2 i(3) by auto
  qed
qed

lemma win_inv_step:
  assumes wi: "win_inv s H" and bi: "ballot_inv n s" and ai: "ack_inv n s" and st: "struct_inv n s" and st': "struct_inv n s'"
    and li: "log_inv n s" and hi: "hist_inv n s H" and hi': "hist_inv n s' H'" and step: "raft_step n s s'"
    and ext: "extends H H'" and new: "\<forall>t r. H t = None \<longrightarrow> H' t = Some r \<longrightarrow> new_reign n s s' t r"
  shows "win_inv s' H'"
  unfolding win_inv_def
proof (intro allI impI ballI)
  fix t' r' j t l p
  assume r': "H' t' = Some r'" and j: "j \<in> r_voters r'" and ack: "acked s' j t l" and t: "t < t'" and p: "prefix p l" "p \<noteq> []"
  show "newer (take (r_from r') (r_log r')) p \<or> conflict s' p t t'"
  proof (cases "H t'")
    case None
    have fresh: "new_reign n s s' t' r'" using new None r' by blast
    then have net: "net s' = net s" and l: "r_log r' = log (nodes s (r_leader r'))" "r_from r' = length (r_log r')"
      by (simp_all add: new_reign_def)
    have "acked s j t l" "conflict s' p t t' = conflict s p t t'" using ack net by (simp_all add: acked_def conflict_def)
    then show ?thesis using win_inv_new [OF hi bi ai None fresh j _ t p] l by simp
  next
    case (Some r)
    with extendsD [OF ext Some] r' have r: "r_voters r' = r_voters r" "r_from r' = r_from r" "prefix (r_log r) (r_log r')" by auto
    have ok: "reign_ok n s H t' r" using hist_invD(1) [OF hi Some] .
    then have jn: "j < n" and cur: "t' \<le> currentTerm (nodes s j)" using j r(1) by (auto simp: reign_ok_def)
    have "acked s j t l" using acked_step [OF st st' li hi' step ack] term_step [OF st step jn] cur t by auto
    moreover have "take (r_from r') (r_log r') = take (r_from r) (r_log r)"
      using ok r(2,3) by (simp add: take_of_prefix reign_ok_def)
    ultimately show ?thesis
      using win_invD [OF wi Some, of j t l p] j r(1) t p conflict_mono [OF _ net_step [OF step], of p t t' t'] by auto
  qed
qed


section \<open>Commitment\<close>

text \<open>A prefix is committed in a term when it ends in an entry of the term and a majority has acknowledged it there.\<close>

definition committed :: "nat \<Rightarrow> 'c cluster \<Rightarrow> int \<Rightarrow> 'c LogEntry list \<Rightarrow> bool" where
  "committed n s t p \<longleftrightarrow> p \<noteq> [] \<and> le_Term (last p) = t \<and>
     (\<exists>Q \<subseteq> {..<n}. n div 2 < card Q \<and> (\<forall>m \<in> Q. \<exists>l. acked s m t l \<and> prefix p l))"

lemma committed_mono: "committed n s t p \<Longrightarrow> net s \<subseteq> net s' \<Longrightarrow> committed n s' t p"
  unfolding committed_def using acked_mono by (metis (no_types, lifting))

lemma committed_reign:
  assumes hi: "hist_inv n s H" and com: "committed n s t p"
  obtains r where "H t = Some r" "prefix p (r_log r)" "1 \<le> t"
proof -
  from com obtain Q where Q: "n div 2 < card Q" "\<forall>m \<in> Q. \<exists>l. acked s m t l \<and> prefix p l" unfolding committed_def by blast
  then have "Q \<noteq> {}" by auto
  then obtain m l where "acked s m t l" "prefix p l" using Q(2) by blast
  then obtain j a where a: "AppendReq j a l \<in> net s" "ae_Term a = t" using acked_request by blast
  from hist_invD(5) [OF hi a(1)] a(2) obtain r where r: "H t = Some r" "prefix l (r_log r)" by blast
  then have "1 \<le> t" using hist_invD(1) [OF hi] by (simp add: reign_ok_def)
  with r \<open>prefix p l\<close> show ?thesis using that prefix_order.trans by blast
qed

text \<open>Leader completeness: the log with which a later leader starts has every committed prefix.\<close>

lemma leader_has_committed:
  assumes hi: "hist_inv n s H" and wi: "win_inv s H" and com: "committed n s t p"
  shows "H t' = Some r \<Longrightarrow> t < t' \<Longrightarrow> prefix p (take (r_from r) (r_log r))"
proof (induction "nat t'" arbitrary: t' r rule: less_induct)
  case less
  obtain rt where rt: "H t = Some rt" "prefix p (r_log rt)" "1 \<le> t" using committed_reign [OF hi com] by blast
  have ok: "reign_ok n s H t' r" using hist_invD(1) [OF hi less.prems(1)] .
  let ?l = "take (r_from r) (r_log r)" and ?k = "r_from r - 1"
  have k: "?k < length (r_log r)" "Suc ?k = r_from r" using ok by (auto simp: reign_ok_def)
  have len: "length ?l = Suc ?k" "?l \<noteq> []" using ok k by (auto simp: reign_ok_def)
  have last: "last ?l = r_log r ! ?k" using len by (simp add: last_conv_nth del: take_eq_Nil)
  have IH: "prefix p (take (r_from q) (r_log q))" if "H u = Some q" "t < u" "u < t'" for u q
    by (rule less.hyps [OF _ that(1,2)]) (use that(2,3) rt(3) in simp)
  from com obtain Q where Q: "Q \<subseteq> {..<n}" "n div 2 < card Q" "\<forall>m \<in> Q. \<exists>l. acked s m t l \<and> prefix p l" "p \<noteq> []" "le_Term (last p) = t"
    unfolding committed_def by blast
  have "Q \<inter> r_voters r \<noteq> {}" using Q(1,2) ok 
    by (intro rb.majorities_meet [where n = n]) (simp_all add: reign_ok_def)
  then obtain j l where j: "j \<in> r_voters r" "acked s j t l" "prefix p l" using Q(3) by blast
  have "\<not> conflict s p t t'"
  proof
    assume "conflict s p t t'"
    then obtain i a m where a: "AppendReq i a m \<in> net s" "t < ae_Term a" "ae_Term a < t'" "\<not> prefix p m" by (auto simp: conflict_def)
    obtain q where q: "H (ae_Term a) = Some q" "r_from q \<le> length m" "prefix m (r_log q)" using hist_invD(5) [OF hi a(1)] by blast
    have "prefix p (take (r_from q) m)" using IH [OF q(1) a(2,3)] take_of_prefix [OF q(3,2)] by simp
    with a(4) show False using prefix_order.trans take_is_prefix by blast
  qed
  with win_invD [OF wi less.prems(1) j(1,2) less.prems(2) j(3) Q(4)] have "newer ?l p" by blast
  then have up: "t < le_Term (last ?l) \<or> t = le_Term (last ?l) \<and> length p \<le> length ?l" using Q(5) unfolding newer_def by metis
  then have "?k \<noteq> 0" using rt(3) last rootedD(2) [of H "r_log r"] ok by (auto simp: reign_ok_def)
  then obtain q where q: "H (le_Term (last ?l)) = Some q" "r_from q \<le> ?k" "prefix ?l (r_log q)"
    using rootedD(3) [of H "r_log r" ?k] ok k last by (auto simp: reign_ok_def)
  from up show ?case
  proof
    assume lt: "t < le_Term (last ?l)"
    have "le_Term (last ?l) < t'" using ok k last by (simp add: reign_ok_def)
    from IH [OF q(1) lt this] have "prefix p (take (r_from q) (r_log q))" .
    also have "take (r_from q) (r_log q) = take (r_from q) ?l" using q(2) len(1) by (intro take_of_prefix [OF q(3)]) simp
    finally show ?thesis using prefix_order.trans take_is_prefix by blast
  next
    assume eq: "t = le_Term (last ?l) \<and> length p \<le> length ?l"
    then have "q = rt" using q(1) rt(1) by simp
    then show ?thesis using prefix_length_prefix [OF rt(2)] q(3) eq by blast
  qed
qed

lemma committed_comparable:
  assumes hi: "hist_inv n s H" and wi: "win_inv s H" and com: "committed n s t p" "committed n s t' p'"
  shows "prefix p p' \<or> prefix p' p"
proof -
  have *: "prefix p p' \<or> prefix p' p" if t: "t \<le> t'" and c: "committed n s t p" "committed n s t' p'" for t t' p p'
  proof -
    obtain r where r: "H t = Some r" "prefix p (r_log r)" using committed_reign [OF hi c(1)] by blast
    obtain r' where r': "H t' = Some r'" "prefix p' (r_log r')" using committed_reign [OF hi c(2)] by blast
    have "prefix p (r_log r')"
    proof (cases "t = t'")
      case True
      with r r' show ?thesis by simp
    next
      case False
      then have "prefix p (take (r_from r') (r_log r'))" using leader_has_committed [OF hi wi c(1) r'(1)] t by simp
      then show ?thesis using prefix_order.trans take_is_prefix by blast
    qed
    with r'(2) show ?thesis using prefix_same_cases by blast
  qed
  show ?thesis using *[OF _ com] *[OF _ com(2,1)] by (cases "t \<le> t'") auto
qed

text \<open>What a peer of a term knows to be committed.\<close>

definition backed :: "nat \<Rightarrow> 'c cluster \<Rightarrow> int \<Rightarrow> 'c LogEntry list \<Rightarrow> bool" where
  "backed n s u q \<longleftrightarrow> length q \<le> 1 \<or> (\<exists>t \<le> u. \<exists>p. committed n s t p \<and> prefix q p)"

lemma backed_mono: "backed n s u q \<Longrightarrow> net s \<subseteq> net s' \<Longrightarrow> u \<le> u' \<Longrightarrow> backed n s' u' q"
  unfolding backed_def by (meson committed_mono order.trans)

lemma backed_prefix: "backed n s u q \<Longrightarrow> prefix q' q \<Longrightarrow> backed n s u q'"
  unfolding backed_def by (meson order.trans prefix_length_le prefix_order.trans)

lemma backed_request:
  assumes hi: "hist_inv n s H" and wi: "win_inv s H" and q: "backed n s u q" "1 < length q"
    and req: "AppendReq j a l \<in> net s" and u: "u \<le> ae_Term a" and x: "prefix q x" "\<not> prefix l x"
  shows "prefix q l"
proof -
  from q obtain t p where t: "t \<le> u" "committed n s t p" "prefix q p" by (auto simp: backed_def)
  obtain r where r: "H (ae_Term a) = Some r" "r_from r \<le> length l" "prefix l (r_log r)" using hist_invD(5) [OF hi req] by blast
  show ?thesis
  proof (cases "t = ae_Term a")
    case True
    have "prefix p (r_log r)" using committed_reign [OF hi t(2)] True r(1) by auto
    then have "prefix q l \<or> prefix l q" using t(3) r(3) prefix_order.trans prefix_same_cases by blast
    then show ?thesis using x prefix_order.trans by blast
  next
    case False
    then have "prefix p (take (r_from r) (r_log r))" using leader_has_committed [OF hi wi t(2) r(1)] t(1) u by simp
    then have "prefix p (take (r_from r) l)" using take_of_prefix [OF r(3,2)] by simp
    then show ?thesis using t(3) prefix_order.trans take_is_prefix by blast
  qed
qed

definition commit_prefix :: "'c Raft \<Rightarrow> 'c LogEntry list" where
  "commit_prefix rf = take (Suc (nat (commitIndex rf))) (log rf)"

lemma applyLoop_round_delivers:
  assumes "applyLoop_round rf = Some (rf', msgs)" and "m \<in> set msgs"
  shows "m = \<lparr>CommandValid = True, Command = le_Command (commit_prefix rf ! nat (CommandIndex m)), CommandIndex = CommandIndex m\<rparr> \<and>
    nat (CommandIndex m) < length (commit_prefix rf)"
proof -
  from assms obtain i where i: "lastApplied rf < i" "i \<le> commitIndex rf" "at (log rf) i \<noteq> None"
    "m = \<lparr>CommandValid = True, Command = le_Command (log rf ! nat i), CommandIndex = i\<rparr>"
    by (auto simp: applyLoop_round_def list_all_iff split: if_splits)
  then have "nat i < length (log rf)" "nat i < Suc (nat (commitIndex rf))" by (auto simp: at_def split: if_splits)
  with i(4) show ?thesis by (simp add: commit_prefix_def)
qed

definition commit_inv :: "nat \<Rightarrow> 'c cluster \<Rightarrow> bool" where
  "commit_inv n s \<longleftrightarrow>
     (\<forall>i < n. 0 \<le> commitIndex (nodes s i) \<and> nat (commitIndex (nodes s i)) < length (log (nodes s i)) \<and>
        backed n s (currentTerm (nodes s i)) (commit_prefix (nodes s i))) \<and>
     (\<forall>j a l. AppendReq j a l \<in> net s \<longrightarrow>
        ae_LeaderCommit a < int (length l) \<and> backed n s (ae_Term a) (take (Suc (nat (ae_LeaderCommit a))) l))"

lemma commit_invD:
  assumes "commit_inv n s"
  shows "i < n \<Longrightarrow> 0 \<le> commitIndex (nodes s i)" "i < n \<Longrightarrow> nat (commitIndex (nodes s i)) < length (log (nodes s i))"
    "i < n \<Longrightarrow> backed n s (currentTerm (nodes s i)) (commit_prefix (nodes s i))"
    "AppendReq j a l \<in> net s \<Longrightarrow> backed n s (ae_Term a) (take (Suc (nat (ae_LeaderCommit a))) l)"
    "AppendReq j a l \<in> net s \<Longrightarrow> ae_LeaderCommit a < int (length l)"
  using assms unfolding commit_inv_def by blast+

text \<open>What the commit rule counts is committed.\<close>

lemma counted_committed:
  assumes st: "struct_inv n s" and vi: "vote_inv n s" and ii: "index_inv n s" and mi: "match_inv n s" and n: "2 \<le> n" and i: "i < n"
    and lead: "state (nodes s i) = StateLeader" and N: "0 < N" "N < length (log (nodes s i))"
    and count: "n div 2 < replica_count (nodes s i) N"
  shows "committed n s (currentTerm (nodes s i)) (take (Suc N) (log (nodes s i)))"
proof -
  let ?rf = "nodes s i" and ?p = "take (Suc N) (log (nodes s i))"
  let ?P = "\<lambda>j. j \<noteq> i \<and> int N \<le> matchIndex ?rf ! j \<and> le_Term (log ?rf ! N) = currentTerm ?rf"
  let ?Q = "{j. j < n \<and> ?P j}"
  have ok: "me ?rf = i" "peers ?rf = n" using st i by (simp_all add: struct_inv_def node_ok_def)
  have "length (filter ?P [0..<n]) = card (set (filter ?P [0..<n]))" by (simp only: distinct_card distinct_filter distinct_upt)
  also have "set (filter ?P [0..<n]) = ?Q" by (simp only: set_filter atLeast_upt [symmetric]) auto
  finally have card: "replica_count ?rf N = card (insert i ?Q)" unfolding replica_count_def ok by simp
  have known: "\<exists>l. acked s j (currentTerm ?rf) l \<and> prefix ?p l" if j: "j \<in> ?Q" for j
  proof -
    obtain l where l: "acked s j (currentTerm ?rf) l" "int (length l) = matchIndex ?rf ! j + 1" "prefix l (log ?rf)"
      using match_invD [OF mi i lead, of j] j N(1) by auto
    have "length ?p \<le> length l" using l(2) j N(2) by simp
    then have "prefix ?p l" using prefix_length_prefix [OF take_is_prefix l(3)] by simp
    with l(1) show ?thesis by blast
  qed
  have "?Q \<noteq> {}"
  proof
    assume none: "?Q = {}"
    have "replica_count ?rf N = 1" unfolding card none by simp
    then show False using count n by simp
  qed
  then obtain j where j: "j \<in> ?Q" by blast
  obtain l where l: "acked s j (currentTerm ?rf) l" "prefix ?p l" using known [OF j] by blast
  obtain k a where a: "AppendReq k a l \<in> net s" "ae_Term a = currentTerm ?rf" using acked_request [OF l(1)] by blast
  have "ae_LeaderID a = i"
    using won_unique [OF vi _ i _ vote_invD(5) [OF vi i lead]] index_invD(2) [OF ii a(1)] struct_msg [OF st a(1)] a(2) by simp
  then have "acked s i (currentTerm ?rf) l" using a unfolding acked_def by blast
  then have all: "\<forall>m \<in> insert i ?Q. \<exists>l. acked s m (currentTerm ?rf) l \<and> prefix ?p l"
    using l(2) by (intro ballI) (elim insertE, metis, rule known)
  have "le_Term (last ?p) = currentTerm ?rf" using j N(2) by (simp add: take_Suc_conv_app_nth)
  moreover have "?p \<noteq> []" using N(2) by auto
  moreover have "insert i ?Q \<subseteq> {..<n}" using i by auto
  moreover have "n div 2 < card (insert i ?Q)" using count card by simp
  ultimately show ?thesis using all unfolding committed_def by (intro conjI exI [of _ "insert i ?Q"])
qed

lemma commit_inv_step:
  assumes ci: "commit_inv n s" and hi: "hist_inv n s H" and wi: "win_inv s H" and st: "struct_inv n s" and li: "log_inv n s"
    and st': "struct_inv n s'" and vi': "vote_inv n s'" and ii': "index_inv n s'" and mi': "match_inv n s'" and n: "2 \<le> n"
    and step: "raft_step n s s'"
  shows "commit_inv n s'"
proof -
  note C = commit_invD [OF ci] and sub = net_step [OF step]
  have node: "0 \<le> commitIndex (nodes s' k) \<and> nat (commitIndex (nodes s' k)) < length (log (nodes s' k)) \<and>
      backed n s' (currentTerm (nodes s' k)) (commit_prefix (nodes s' k))" if k: "k < n" for k
  proof -
    have ne: "0 < length (log (nodes s' k))" using st' k by (simp add: struct_inv_def node_ok_def)
    note cur = term_step [OF st step k]
    have old: "backed n s' (currentTerm (nodes s' k)) (commit_prefix (nodes s k))"
      using backed_mono [OF C(3) [OF k] sub cur] .
    show ?thesis
    proof (cases rule: commit_step [OF st li step k])
      case same: 1
      let ?c = "nat (commitIndex (nodes s k))"
      have "prefix (commit_prefix (nodes s k)) (log (nodes s' k)) \<or> ?c = 0"
      proof (cases rule: log_step [OF st li step k])
        case 1
        then show ?thesis by (simp add: commit_prefix_def take_is_prefix)
      next
        case (2 e)
        then show ?thesis by (simp add: commit_prefix_def take_is_prefix)
      next
        case (3 a)
        have "prefix (commit_prefix (nodes s k)) (log (nodes s' k))" if "0 < ?c"
        proof (rule backed_request [OF hi wi C(3) [OF k] _ 3(1) _ _ 3(2)])
          show "1 < length (commit_prefix (nodes s k))" using that C(2) [OF k] by (simp add: commit_prefix_def)
          show "currentTerm (nodes s k) \<le> ae_Term a" using cur 3(3) by simp
          show "prefix (commit_prefix (nodes s k)) (log (nodes s k))" by (simp add: commit_prefix_def take_is_prefix)
        qed
        then show ?thesis by blast
      qed
      then show ?thesis
      proof
        assume p: "prefix (commit_prefix (nodes s k)) (log (nodes s' k))"
        have len: "length (commit_prefix (nodes s k)) = Suc ?c" using C(2) [OF k] by (simp add: commit_prefix_def)
        then have "commit_prefix (nodes s' k) = commit_prefix (nodes s k)"
          using take_of_prefix [OF p] by (simp add: commit_prefix_def same)
        then show ?thesis using prefix_length_le [OF p] len C(1) [OF k] old same by simp
      next
        assume "?c = 0"
        then show ?thesis using ne C(1) [OF k] same by (simp add: backed_def commit_prefix_def)
      qed
    next
      case 2
      then show ?thesis using ne by (simp add: backed_def commit_prefix_def)
    next
      case (3 N)
      then have "committed n s' (currentTerm (nodes s' k)) (commit_prefix (nodes s' k))"
        using counted_committed [OF st' vi' ii' mi' n k 3(1-3,5)] by (simp add: commit_prefix_def)
      then show ?thesis using 3 by (auto simp: backed_def)
    next
      case (4 a l)
      let ?c = "nat (commitIndex (nodes s' k))"
      have "l \<noteq> []" using struct_msg [OF st 4(1)] by (auto simp: cut_of_def)
      then have c: "0 \<le> commitIndex (nodes s' k)" "?c < length l" "?c \<le> nat (ae_LeaderCommit a)"
        using 4(4,5) C(1) [OF k] by (auto simp: nat_less_iff min_def Suc_leI)
      have "commit_prefix (nodes s' k) = take (Suc ?c) l"
        using take_of_prefix [OF 4(2)] c(2) by (simp add: commit_prefix_def)
      also have "prefix (take (Suc ?c) l) (take (Suc (nat (ae_LeaderCommit a))) l)"
        using c(3) by (metis Suc_le_mono min.absorb1 take_is_prefix take_take)
      finally have "backed n s (ae_Term a) (commit_prefix (nodes s' k))" using backed_prefix [OF C(4) [OF 4(1)]] by simp
      then show ?thesis using backed_mono [OF _ sub] c prefix_length_le [OF 4(2)] 4(3) by simp
    qed
  qed
  moreover have "ae_LeaderCommit a < int (length l) \<and> backed n s' (ae_Term a) (take (Suc (nat (ae_LeaderCommit a))) l)"
    if "AppendReq j a l \<in> net s'" for j a l
    using AppendReq_step [OF st step that]
  proof
    assume "AppendReq j a l \<in> net s"
    then show ?thesis using backed_mono [OF C(4) sub] C(5) by blast
  next
    assume "ae_LeaderID a < n \<and> state (nodes s (ae_LeaderID a)) = StateLeader \<and>
      ae_Term a = currentTerm (nodes s (ae_LeaderID a)) \<and> ae_LeaderCommit a = commitIndex (nodes s (ae_LeaderID a)) \<and>
      l = log (nodes s (ae_LeaderID a)) \<and> nodes s' = nodes s"
    then show ?thesis using backed_mono [OF C(3) sub] C(1,2) by (simp add: commit_prefix_def nat_less_iff)
  qed
  ultimately show ?thesis unfolding commit_inv_def by blast
qed

text \<open>The apply loop stays behind the commit index, which does not go back.\<close>

definition applied_inv :: "nat \<Rightarrow> 'c cluster \<Rightarrow> bool" where
  "applied_inv n s \<longleftrightarrow>
     (\<forall>i < n. 0 \<le> lastApplied (nodes s i) \<and> lastApplied (nodes s i) \<le> commitIndex (nodes s i))"

lemma applied_inv_step:
  assumes pi: "applied_inv n s" and ci: "commit_inv n s" and st: "struct_inv n s" and step: "raft_step n s s'"
  shows "applied_inv n s'"
  unfolding applied_inv_def
proof (intro allI impI)
  fix k assume k: "k < n"
  then have old: "0 \<le> lastApplied (nodes s k)" "lastApplied (nodes s k) \<le> commitIndex (nodes s k)"
    using pi by (simp_all add: applied_inv_def)
  show "0 \<le> lastApplied (nodes s' k) \<and> lastApplied (nodes s' k) \<le> commitIndex (nodes s' k)"
  proof (cases rule: applied_step [OF st step k])
    case (2 a l)
    then show ?thesis using old commit_invD(5) [OF ci 2(1)] by simp
  qed (use old in simp_all)
qed

section \<open>All invariants together\<close>

definition safe :: "nat \<Rightarrow> 'c cluster \<Rightarrow> 'c history \<Rightarrow> bool" where
  "safe n s H \<longleftrightarrow> hist_inv n s H \<and> ack_inv n s \<and> ballot_inv n s \<and> match_inv n s \<and> win_inv s H \<and> commit_inv n s \<and> applied_inv n s"

lemma safe_init:
  assumes "cluster_init n s"
  shows "safe n s (\<lambda>t. None)"
proof -
  have nodes: "nodes s = (\<lambda>i. Make n i None)" "net s = {}" using assms by (simp_all add: cluster_init_def)
  have fresh: "log (Make n i None :: 'a Raft) = [\<lparr>le_Term = 0, le_Command = None\<rparr>]" "currentTerm (Make n i None :: 'a Raft) = 0" for i
    by (simp_all add: Make_def readPersist_def)
  show ?thesis
    unfolding safe_def
  proof (intro conjI)
    show "hist_inv n s (\<lambda>t. None)" by (simp add: hist_inv_def rooted_def nodes fresh)
    show "ack_inv n s" by (simp add: ack_inv_def acked_def nodes)
    show "ballot_inv n s" by (simp add: ballot_inv_def nodes)
    show "match_inv n s" by (simp add: match_inv_def nodes)
    show "win_inv s (\<lambda>t. None)" by (simp add: win_inv_def)
    show "commit_inv n s" by (simp add: commit_inv_def backed_def commit_prefix_def nodes fresh)
    show "applied_inv n s" by (simp add: applied_inv_def nodes)
  qed
qed

lemma safe_step:
  assumes safe: "safe n s H" and reach: "rc.reach n s" and n: "2 \<le> n" and step: "win_step unacked n s s'"
  shows "\<exists>H'. safe n s' H'"
proof -
  have rs: "raft_step n s s'" using step by (simp add: win_step_def)
  have reach': "rc.reach n s'" using reach rs by (rule rc.reach.next_state)
  note st = struct_inv_reach [OF reach] and vi = vote_inv_reach [OF reach n] and li = log_inv_reach [OF reach n]
  note st' = struct_inv_reach [OF reach'] and vi' = vote_inv_reach [OF reach' n] and ii' = index_inv_reach [OF reach' n]
  have inv: "hist_inv n s H" "ack_inv n s" "ballot_inv n s" "match_inv n s" "win_inv s H" "commit_inv n s" "applied_inv n s"
    using safe by (simp_all add: safe_def)
  obtain H' where H': "hist_inv n s' H'" "extends H H'" "\<forall>t r. H t = None \<longrightarrow> H' t = Some r \<longrightarrow> new_reign n s s' t r"
    using hist_step [OF inv(1) st li vi vi' rs] by blast
  have mi': "match_inv n s'" by (rule match_inv_step [OF inv(4) st li inv(1) step])
  have "safe n s' H'"
    unfolding safe_def
  proof (intro conjI)
    show "ack_inv n s'" by (rule ack_inv_step [OF inv(2) st st' li inv(1) H'(1) rs])
    show "ballot_inv n s'" by (rule ballot_inv_step [OF inv(3,2) st st' li vi inv(1) H'(1) rs])
    show "win_inv s' H'" by (rule win_inv_step [OF inv(5,3,2) st st' li inv(1) H'(1) rs H'(2,3)])
    show "commit_inv n s'" by (rule commit_inv_step [OF inv(6,1,5) st li st' vi' ii' mi' n rs])
    show "applied_inv n s'" by (rule applied_inv_step [OF inv(7,6) st rs])
  qed (rule H'(1) mi')+
  then show ?thesis by blast
qed

lemma safe_reach:
  assumes "wc.reach n unacked s" and "2 \<le> n"
  shows "\<exists>H. safe n s H"
  using assms
proof (induction rule: wc.reach.induct)
  case (start s)
  then show ?case using safe_init by blast
next
  case (next_state s s')
  then show ?case using safe_step wc_rc by blast
qed

lemma commit_index_bounds:
  assumes "safe n s H" and "i < n"
  shows "0 \<le> lastApplied (nodes s i)" "lastApplied (nodes s i) \<le> commitIndex (nodes s i)"
    "nat (commitIndex (nodes s i)) < length (log (nodes s i))"
  using assms commit_invD(2) by (auto simp: safe_def applied_inv_def)

text \<open>In a safe execution the apply loop finds all the entries it delivers.\<close>

lemma applyLoop_round_total: "safe n s H \<Longrightarrow> i < n \<Longrightarrow> applyLoop_round (nodes s i) \<noteq> None"
  using commit_index_bounds [of n s H i] by (auto simp: applyLoop_round_def list_all_iff at_def)

lemma net_steps:
  assumes "(win_step Z n)\<^sup>*\<^sup>* s s'"
  shows "net s \<subseteq> net s'"
  using assms by induction (auto simp: win_step_def dest: net_step)

text \<open>The sentinel is the same in all logs.\<close>

lemma log_start:
  assumes "rc.reach n s" and "2 \<le> n" and "i < n"
  shows "log (nodes s i) \<noteq> [] \<and> log (nodes s i) ! 0 = \<lparr>le_Term = 0, le_Command = None\<rparr>"
  using shape_invD(1) [OF shape_inv_reach [OF assms(1,2)] logs_node [OF assms(3)]] by (auto simp: log_ok_def hd_conv_nth)

lemma commit_prefixes_agree:
  assumes reach: "wc.reach n unacked s" and steps: "(win_step unacked n)\<^sup>*\<^sup>* s s'" and n: "2 \<le> n" and ij: "i < n" "j < n"
  shows "prefix (commit_prefix (nodes s i)) (commit_prefix (nodes s' j)) \<or> prefix (commit_prefix (nodes s' j)) (commit_prefix (nodes s i))"
proof -
  have reach': "wc.reach n unacked s'" using wc.reach_steps [OF steps reach] .
  obtain H H' where safe: "safe n s H" "safe n s' H'" using safe_reach [OF reach n] safe_reach [OF reach' n] by blast
  have a: "backed n s' (currentTerm (nodes s i)) (commit_prefix (nodes s i))"
    using safe(1) commit_invD(3) [of n s i] backed_mono [OF _ net_steps [OF steps]] ij(1) by (auto simp: safe_def)
  have b: "backed n s' (currentTerm (nodes s' j)) (commit_prefix (nodes s' j))"
    using safe(2) commit_invD(3) ij(2) by (auto simp: safe_def)
  have one: "prefix x y" if "length x \<le> 1" "x = take (Suc c) l" "y = take (Suc d) m" "l ! 0 = m ! 0" "l \<noteq> []" "m \<noteq> []"
    for x y l m and c d :: nat using that by (cases l; cases m) (auto simp: min_def split: if_splits)
  note start = log_start [OF wc_rc [OF reach] n ij(1)] log_start [OF wc_rc [OF reach'] n ij(2)]
  show ?thesis
  proof (cases "length (commit_prefix (nodes s i)) \<le> 1 \<or> length (commit_prefix (nodes s' j)) \<le> 1")
    case True
    then show ?thesis
      using one [of "commit_prefix (nodes s i)" _ "log (nodes s i)" "commit_prefix (nodes s' j)" _ "log (nodes s' j)"]
        one [of "commit_prefix (nodes s' j)" _ "log (nodes s' j)" "commit_prefix (nodes s i)" _ "log (nodes s i)"] start
      unfolding commit_prefix_def by (metis (no_types, lifting))
  next
    case False
    with a b obtain t p t' p' where "committed n s' t p" "prefix (commit_prefix (nodes s i)) p"
      "committed n s' t' p'" "prefix (commit_prefix (nodes s' j)) p'" unfolding backed_def by blast
    moreover from safe(2) have "prefix p p' \<or> prefix p' p"
      by (intro committed_comparable [OF _ _ calculation(1,3), of H']) (simp_all add: safe_def)
    ultimately show ?thesis using prefix_order.trans prefix_same_cases by metis
  qed
qed

lemma commit_prefix_in_leader:
  assumes reach: "wc.reach n unacked s" and steps: "(win_step unacked n)\<^sup>*\<^sup>* s s'" and n: "2 \<le> n" and ij: "i < n" "j < n"
    and lead: "state (nodes s' j) = StateLeader" and t: "currentTerm (nodes s i) \<le> currentTerm (nodes s' j)"
  shows "prefix (commit_prefix (nodes s i)) (log (nodes s' j))"
proof -
  have reach': "wc.reach n unacked s'" using wc.reach_steps [OF steps reach] .
  obtain H H' where safe: "safe n s H" "safe n s' H'" using safe_reach [OF reach n] safe_reach [OF reach' n] by blast
  then have hi: "hist_inv n s' H'" and wi: "win_inv s' H'" by (simp_all add: safe_def)
  have "backed n s' (currentTerm (nodes s i)) (commit_prefix (nodes s i))"
    using safe(1) commit_invD(3) [of n s i] backed_mono [OF _ net_steps [OF steps]] ij(1) by (auto simp: safe_def)
  then consider "length (commit_prefix (nodes s i)) \<le> 1"
    | u p where "u \<le> currentTerm (nodes s i)" "committed n s' u p" "prefix (commit_prefix (nodes s i)) p" unfolding backed_def by blast
  then show ?thesis
  proof cases
    case 1
    then show ?thesis using log_start [OF wc_rc [OF reach] n ij(1)] log_start [OF wc_rc [OF reach'] n ij(2)]
      unfolding commit_prefix_def by (cases "log (nodes s i)"; cases "log (nodes s' j)") (auto simp: min_def split: if_splits)
  next
    case (2 u p)
    obtain r where r: "H' (currentTerm (nodes s' j)) = Some r" "r_log r = log (nodes s' j)" using hist_invD(4) [OF hi ij(2) lead] by blast
    have "prefix p (r_log r)"
    proof (cases "u = currentTerm (nodes s' j)")
      case True
      then show ?thesis using committed_reign [OF hi 2(2)] r(1) by auto
    next
      case False
      then have "prefix p (take (r_from r) (r_log r))" using leader_has_committed [OF hi wi 2(2) r(1)] 2(1) t by simp
      then show ?thesis using prefix_order.trans take_is_prefix by blast
    qed
    then show ?thesis using 2(3) r(2) prefix_order.trans by metis
  qed
qed

end
