(* ===== verification/Raft_Persist.thy ===== *)
theory Raft_Persist
  imports Raft_Node Disk
begin

text \<open>
  The persister of \<^verbatim>\<open>internal/raft/persister.go\<close> on the disk of a node, and the two functions of a peer that use it. The
  gob encoding of the state is a pair of functions \<open>enc\<close> and \<open>dec\<close>, for which the properties only assume that
  decoding reads back what was encoded. The lemmas show that the field \<open>persister\<close> of the
  peer model is what the file decodes to: reading at startup gives the same peer, and a save that succeeds has the effect
  of \<^verbatim>\<open>persist\<close>.
\<close>

record Persister =
  raftstate :: slice
  filepath :: path
  snapshot :: slice

definition MakePersister :: "path \<Rightarrow> Persister" where
  "MakePersister p = \<lparr>raftstate = None, filepath = p, snapshot = None\<rparr>"

text \<open>The copy of a nil slice is empty and not nil.\<close>

definition clone :: "slice \<Rightarrow> slice" where
  "clone orig = Some (case orig of None \<Rightarrow> [] | Some bs \<Rightarrow> bs)"

definition Checkpoint :: "Persister \<Rightarrow> Persister" where
  "Checkpoint ps =
     (MakePersister (filepath ps))\<lparr>raftstate := clone (raftstate ps), snapshot := clone (snapshot ps)\<rparr>"

text \<open>A file that does not exist is the first start; the disk model has no other failure of a
  read, for which the source panics.\<close>

definition ReadRaftState :: "Persister \<Rightarrow> disk \<Rightarrow> slice \<times> Persister" where
  "ReadRaftState ps d =
     (case disk_file d (filepath ps) of
        None \<Rightarrow> (None, ps)
      | Some bs \<Rightarrow> (clone (Some bs), ps\<lparr>raftstate := Some bs\<rparr>))"

definition RaftStateSize :: "Persister \<Rightarrow> nat" where
  "RaftStateSize ps = length (the (clone (raftstate ps)))"

text \<open>\<^verbatim>\<open>os.WriteFile\<close> truncates the file, writes and closes it.\<close>

definition os_WriteFile :: "path \<Rightarrow> bytes \<Rightarrow> disk \<Rightarrow> go_error option \<times> disk" where
  "os_WriteFile p bs d =
     (case os_Create p d of
        (Some e, d1) \<Rightarrow> (Some e, d1)
      | (None, d1) \<Rightarrow>
          (case file_Write p bs d1 of
             (err, d2) \<Rightarrow>
               (case file_Close p d2 of
                  (err', d3) \<Rightarrow> (if err = None then err' else err, d3))))"

text \<open>An error is the panic of the source.\<close>

definition Save :: "bytes \<Rightarrow> slice \<Rightarrow> Persister \<Rightarrow> disk \<Rightarrow> go_error option \<times> Persister \<times> disk" where
  "Save content snap ps d =
     (let ps1 = ps\<lparr>raftstate := clone (Some content)\<rparr>
      in case os_WriteFile (filepath ps) content d of
           (Some e, d') \<Rightarrow> (Some e, ps1, d')
         | (None, d') \<Rightarrow> (None, ps1\<lparr>snapshot := clone snap\<rparr>, d'))"

definition ReadSnapshot :: "Persister \<Rightarrow> slice" where
  "ReadSnapshot ps = clone (snapshot ps)"

definition SnapshotSize :: "Persister \<Rightarrow> nat" where
  "SnapshotSize ps = length (the (clone (snapshot ps)))"

section \<open>A peer and its file\<close>

definition PersistBytes :: "Persister \<Rightarrow> nat" where
  "PersistBytes ps = RaftStateSize ps"

definition persist_file ::
  "('c raftstate \<Rightarrow> bytes) \<Rightarrow> 'c Raft \<Rightarrow> Persister \<Rightarrow> disk \<Rightarrow> go_error option \<times> Persister \<times> disk"
where
  "persist_file enc rf ps d = Save (enc (currentTerm rf, votedFor rf, log rf)) None ps d"

definition readPersist_file :: "(bytes \<Rightarrow> 'c raftstate option) \<Rightarrow> slice \<Rightarrow> 'c Raft \<Rightarrow> 'c Raft" where
  "readPersist_file dec data rf =
     (case data of
        None \<Rightarrow> rf
      | Some bs \<Rightarrow>
          if length bs < 1 then rf
          else (case dec bs of
                  None \<Rightarrow> rf
                | Some (term, vote, l) \<Rightarrow> rf\<lparr>currentTerm := term, votedFor := vote, log := l\<rparr>))"

text \<open>What a file holds for the peer model.\<close>

definition file_state :: "(bytes \<Rightarrow> 'c raftstate option) \<Rightarrow> path \<Rightarrow> disk \<Rightarrow> 'c raftstate option" where
  "file_state dec p d =
     (case disk_file d p of None \<Rightarrow> None | Some bs \<Rightarrow> if bs = [] then None else dec bs)"

lemma readPersist_refines:
  "readPersist_file dec (fst (ReadRaftState ps d)) rf = readPersist (file_state dec (filepath ps) d) rf"
  by (auto simp: readPersist_file_def ReadRaftState_def readPersist_def file_state_def clone_def Suc_le_eq
      split: option.splits)

lemma os_WriteFile_None:
  "os_WriteFile p bs d = (None, d') \<Longrightarrow> disk_file d' q = (if q = p then Some bs else disk_file d q)"
  by (auto simp: os_WriteFile_def dest!: os_Create_None [where q = q] file_Write_None [where q = q]
      split: prod.splits option.splits if_splits)
    (metis file_Close_disk snd_conv)+

text \<open>A write that dies after the truncation.\<close>

lemma os_WriteFile_torn:
  assumes "faults d = None # Some 0 # fs"
  shows "\<exists>d'. os_WriteFile p bs d = (Some PathError, d') \<and> disk_file d' p = Some []"
proof -
  let ?d = "(set_file p [] (d\<lparr>faults := Some 0 # fs\<rparr>))\<lparr>faults := fs\<rparr>"
  have "os_Create p d = (None, set_file p [] (d\<lparr>faults := Some 0 # fs\<rparr>))"
    using assms by (simp add: os_Create_def next_fault_def)
  moreover have "file_Write p bs (set_file p [] (d\<lparr>faults := Some 0 # fs\<rparr>)) = (Some PathError, ?d)"
    by (simp add: file_Write_def next_fault_def)
  moreover obtain err d' where close: "file_Close p ?d = (err, d')" by (rule prod.exhaust)
  moreover have "disk_file d' p = Some []" using file_Close_disk [of p ?d] close by simp
  ultimately show ?thesis by (simp add: os_WriteFile_def)
qed

lemma persist_refines:
  assumes "dec (enc (currentTerm rf, votedFor rf, log rf)) = Some (currentTerm rf, votedFor rf, log rf)"
    and "enc (currentTerm rf, votedFor rf, log rf) \<noteq> []" and "persist_file enc rf ps d = (None, ps', d')"
  shows "file_state dec (filepath ps) d' = persister (persist rf)" and "filepath ps' = filepath ps"
    and "q \<noteq> filepath ps \<Longrightarrow> disk_file d' q = disk_file d q"
  using assms
  by (auto simp: persist_file_def Save_def Let_def file_state_def persist_def os_WriteFile_None
      split: prod.splits option.splits)

end
