(* ===== verification/Raft_Properties.thy ===== *)
theory Raft_Properties
  imports Raft_Progress Raft_Safety Raft_Persist
begin

text \<open>
  The properties of the Raft cluster: election safety, state-machine safety and leader completeness, votes and logs that survive crashes, log
  matching, leaders that only append, handlers that never panic, and the order in which
  committed commands reach the store. The witnesses apply them to a cluster of three peers in which peer 0 has been
  elected with the vote of peer 1 and has taken a command.
\<close>

section \<open>A cluster with a leader\<close>

definition s_init :: "nat cluster" where
  "s_init = \<lparr>nodes = (\<lambda>i. Make 3 i None), net = {}, calls = {}, votecount = (\<lambda>i t. 0)\<rparr>"

definition first_ballot :: RequestVoteArgs where
  "first_ballot = \<lparr>rv_Term = 1, rv_CandidateId = 0, rv_LastLogIndex = 0, rv_LastLogTerm = 0\<rparr>"

definition rf_candidate :: "nat Raft" where
  "rf_candidate = fst (the (startElection (Make 3 0 None)))"

definition rf_voter :: "nat Raft" where
  "rf_voter = fst (the (RequestVote first_ballot (Make 3 1 None)))"

definition rf_leader :: "nat Raft" where
  "rf_leader = fst (handleVoteReply first_ballot \<lparr>rr_Term = 1, rr_VoteGranted = True\<rparr> 1 rf_candidate)"

definition rf_writer :: "nat Raft" where
  "rf_writer = fst (Start 7 rf_leader)"

lemma rf_candidate_run: "startElection (Make 3 0 None) = Some (rf_candidate, first_ballot)"
  by (simp add: rf_candidate_def startElection_def Make_def readPersist_def Let_def at_def first_ballot_def
      persist_def)

lemma rf_voter_run:
  "RequestVote first_ballot (Make 3 1 None) = Some (rf_voter, \<lparr>rr_Term = 1, rr_VoteGranted = True\<rparr>)"
  by (simp add: rf_voter_def RequestVote_def Make_def readPersist_def Let_def at_def first_ballot_def
      persist_def setTermLocked_def)

lemma rf_voter_fields [simp]: "log rf_voter = [\<lparr>le_Term = 0, le_Command = None\<rparr>]"
  using RequestVote_cases(2) [OF rf_voter_run]
  by (simp add: saved_def restored_def Make_def readPersist_def)

lemma rf_candidate_fields [simp]:
  "state rf_candidate = StateCandidate" "currentTerm rf_candidate = 1" "peers rf_candidate = 3" "me rf_candidate = 0"
  "log rf_candidate = [\<lparr>le_Term = 0, le_Command = None\<rparr>]"
  using startElection_cases [OF rf_candidate_run] by (simp_all add: Make_def readPersist_def)

lemma rf_leader_run:
  "handleVoteReply first_ballot \<lparr>rr_Term = 1, rr_VoteGranted = True\<rparr> 1 rf_candidate = (rf_leader, 2)"
  by (simp add: rf_leader_def handleVoteReply_def first_ballot_def)

lemma rf_leader_fields [simp]:
  "state rf_leader = StateLeader" "currentTerm rf_leader = 1" "peers rf_leader = 3" "me rf_leader = 0"
  "log rf_leader = [\<lparr>le_Term = 0, le_Command = None\<rparr>]"
  by (simp_all add: rf_leader_def handleVoteReply_def first_ballot_def)

lemma rf_writer_run: "Start 7 rf_leader = (rf_writer, 1, 1, True)"
  by (simp add: rf_writer_def Start_def)

lemma rf_writer_fields [simp]:
  "state rf_writer = StateLeader" "currentTerm rf_writer = 1"
  "log rf_writer = [\<lparr>le_Term = 0, le_Command = None\<rparr>, \<lparr>le_Term = 1, le_Command = Some 7\<rparr>]"
  by (simp_all add: rf_writer_def Start_def)

lemma leader_reachable:
  "\<exists>s :: nat cluster. rc.reach 3 s \<and> nodes s 0 = rf_leader \<and> nodes s 1 = rf_voter"
proof -
  have "cluster_init 3 s_init" by (simp add: cluster_init_def s_init_def)
  then have r0: "rc.reach 3 s_init" by (rule rc.reach.start)
  have "startElection (nodes s_init 0) = Some (rf_candidate, first_ballot)"
    by (simp add: s_init_def rf_candidate_run)
  from raft_step.elect [of 0 3, OF _ this] obtain s1 where s1: "raft_step 3 s_init s1"
    "nodes s1 0 = rf_candidate" "nodes s1 1 = Make 3 1 None" "VoteReq 1 first_ballot \<in> net s1"
    "(0, 1, 1) \<in> calls s1" "votecount s1 0 1 = 1"
    by (fastforce simp: s_init_def first_ballot_def)
  have r1: "rc.reach 3 s1" using r0 s1(1) by (rule rc.reach.next_state)
  have "RequestVote first_ballot (nodes s1 1) = Some (rf_voter, \<lparr>rr_Term = 1, rr_VoteGranted = True\<rparr>)"
    using s1(3) rf_voter_run by simp
  from raft_step.vote [OF s1(4) this, of 3] obtain s2 where s2: "raft_step 3 s1 s2"
    "nodes s2 0 = rf_candidate" "nodes s2 1 = rf_voter" "VoteRep 1 first_ballot \<lparr>rr_Term = 1, rr_VoteGranted = True\<rparr> \<in> net s2"
    "(0, 1, 1) \<in> calls s2" "votecount s2 0 1 = 1"
    using s1 by fastforce
  have r2: "rc.reach 3 s2" using r1 s2(1) by (rule rc.reach.next_state)
  have "handleVoteReply first_ballot \<lparr>rr_Term = 1, rr_VoteGranted = True\<rparr>
      (votecount s2 0 (rv_Term first_ballot)) (nodes s2 0) = (rf_leader, 2)"
    using s2(2,6) rf_leader_run by (simp add: first_ballot_def)
  from raft_step.count [OF s2(4), of 0 rf_leader 2 3] this s2(5) obtain s3 where "raft_step 3 s2 s3"
    "nodes s3 0 = rf_leader" "nodes s3 1 = rf_voter" using s2(3) by (fastforce simp: first_ballot_def)
  with r2 show ?thesis using rc.reach.next_state by blast
qed

lemma writer_reachable:
  "\<exists>s :: nat cluster. rc.reach 3 s \<and> nodes s 0 = rf_writer \<and> nodes s 1 = rf_voter"
proof -
  obtain s :: "nat cluster" where s: "rc.reach 3 s" "nodes s 0 = rf_leader" "nodes s 1 = rf_voter"
    using leader_reachable by blast
  then have "Start 7 (nodes s 0) = (rf_writer, 1, 1, True)" by (simp add: rf_writer_run)
  from raft_step.client [of 0 3, OF _ this] have "raft_step 3 s (set_node 0 rf_writer s)" by simp
  with s(1) have "rc.reach 3 (set_node 0 rf_writer s)" by (rule rc.reach.next_state)
  then show ?thesis using s(3) by (intro exI [of _ "set_node 0 rf_writer s"]) simp
qed

text \<open>An execution of three peers, used at the end.\<close>

definition diverging_events :: "nat event list" where
  "diverging_events =
     [Campaign 0 [1], Client 0 10, Client 0 11,
      Campaign 2 [], Campaign 2 [1], Client 2 20,
      Campaign 0 [1], Campaign 0 [1], Replicate 0 1 [], Replicate 0 1 [],
      Campaign 2 [], Campaign 2 [1], Replicate 2 0 [], Replicate 2 0 [], Replicate 2 1 [], Replicate 2 1 [],
      Campaign 0 [1], Replicate 0 1 [30],
      Campaign 2 [], Campaign 2 [1], Client 2 40, Replicate 2 1 []]"

text \<open>A leader is elected, takes a command and replicates it to peer 1, which learns in the second round that it is
  committed.\<close>

definition commit_events :: "nat event list" where
  "commit_events = [Campaign 0 [1], Client 0 7, Replicate 0 1 [], Replicate 0 1 []]"

section \<open>Properties\<close>

text \<open>C3. Election safety: in every reachable state of a cluster, with messages lost, delayed, repeated and
  reordered and with peers that crash and restart, two peers that are leader in the same term are the same
  peer.\<close>

theorem election_safety:
  assumes "rc.reach n s" and "2 \<le> n" and "i < n" and "k < n"
    and "state (nodes s i) = StateLeader" and "state (nodes s k) = StateLeader"
    and "currentTerm (nodes s i) = currentTerm (nodes s k)"
  shows "i = k"
proof -
  have inv: "vote_inv n s" using assms(1,2) by (rule vote_inv_reach)
  from won_unique [OF inv assms(3,4)] vote_invD(5) [OF inv assms(3,5)] vote_invD(5) [OF inv assms(4,6)] assms(7)
  show ?thesis by simp
qed

theorem election_safety_witness:
  "\<exists>s :: nat cluster. rc.reach 3 s \<and> state (nodes s 0) = StateLeader \<and>
     (\<forall>k < 3. state (nodes s k) = StateLeader \<and> currentTerm (nodes s k) = 1 \<longrightarrow> k = 0)"
proof -
  obtain s :: "nat cluster" where "rc.reach 3 s" "nodes s 0 = rf_leader" using leader_reachable by blast
  with election_safety [of 3 s _ 0] show ?thesis by (intro exI [of _ s]) auto
qed

text \<open>C1. State-machine safety: no two peers ever apply different commands at one index. A round of the apply loop
  of a peer, and a round of another peer in the same or a later state, with any crashes, losses and elections in between, deliver
  the same message for the same index. The executions are those in which every peer that wins an election has no
  acknowledged indices left from an earlier leadership.\<close>

theorem state_machine_safety:
  assumes "wc.reach n unacked s" and "(win_step unacked n)\<^sup>*\<^sup>* s s'" and "2 \<le> n" and "i < n" and "j < n"
    and "applyLoop_round (nodes s i) = Some (rf, msgs)" and "applyLoop_round (nodes s' j) = Some (rf', msgs')"
    and "m \<in> set msgs" and "m' \<in> set msgs'" and "CommandIndex m = CommandIndex m'"
  shows "m = m'"
proof -
  let ?k = "nat (CommandIndex m)"
  have a: "m = \<lparr>CommandValid = True, Command = le_Command (commit_prefix (nodes s i) ! ?k), CommandIndex = CommandIndex m\<rparr> \<and>
      ?k < length (commit_prefix (nodes s i))"
    using applyLoop_round_delivers [OF assms(6,8)] .
  have b: "m' = \<lparr>CommandValid = True, Command = le_Command (commit_prefix (nodes s' j) ! ?k), CommandIndex = CommandIndex m'\<rparr> \<and>
      ?k < length (commit_prefix (nodes s' j))"
    using applyLoop_round_delivers [OF assms(7,9)] assms(10) by simp
  have "commit_prefix (nodes s i) ! ?k = commit_prefix (nodes s' j) ! ?k"
    using commit_prefixes_agree [OF assms(1-5)] a b prefix_nth by metis
  then show ?thesis using a b assms(10) by metis
qed

theorem state_machine_safety_witness:
  "\<exists>(s :: nat cluster) rf rf' m m'. wc.reach 3 unacked s \<and> applyLoop_round (nodes s 0) = Some (rf, [m]) \<and>
     applyLoop_round (nodes s 1) = Some (rf', [m']) \<and> Command m = Some 7 \<and> CommandIndex m = CommandIndex m' \<and> m = m'"
proof -
  have free: "all_campaigns unacked 3 commit_events (boot 3)" by code_simp
  have "map_option (map (\<lambda>rf. map_option (\<lambda>(rf, ms). map CommandIndex ms) (applyLoop_round rf))) (run 3 commit_events (boot 3)) =
      Some [Some [1], Some [1], Some []]"
    "map_option (\<lambda>ns. map_option (\<lambda>(rf, ms). map Command ms) (applyLoop_round (hd ns))) (run 3 commit_events (boot 3)) = Some (Some [Some 7])"
    by code_simp+
  then obtain ns where run: "run 3 commit_events (boot 3) = Some ns"
    and ns: "map (\<lambda>rf. map_option (\<lambda>(rf, ms). map CommandIndex ms) (applyLoop_round rf)) ns = [Some [1], Some [1], Some []]"
    and cmd: "map_option (\<lambda>(rf, ms). map Command ms) (applyLoop_round (hd ns)) = Some [Some 7]" by auto
  from boot_able [OF run free] obtain s :: "nat cluster" where s: "wc.reach 3 unacked s" "\<forall>i < 3. nodes s i = ns ! i" by blast
  from ns obtain a b c rf rf' m m' where abc: "ns = [a, b, c]" "applyLoop_round a = Some (rf, [m])" "applyLoop_round b = Some (rf', [m'])"
    "CommandIndex m = 1" "CommandIndex m' = 1"
    by (auto simp: map_eq_Cons_conv)
  then have d: "applyLoop_round (nodes s 0) = Some (rf, [m])" "applyLoop_round (nodes s 1) = Some (rf', [m'])"
    using s(2) by (simp_all add: numeral_eq_Suc)
  have "m = m'" using state_machine_safety [OF s(1) rtranclp.rtrancl_refl _ _ _ d, of m m'] abc(4,5) by simp
  moreover have "Command m = Some 7" using cmd abc(1,2) by simp
  ultimately show ?thesis using s(1) d by blast
qed



text \<open>C4. Log matching: if the logs of two peers hold an entry of the same term at the same index, they are
  identical up to and including that index.\<close>

theorem log_matching:
  assumes "rc.reach n s" and "2 \<le> n" and "i < n" and "j < n"
    and "k < length (log (nodes s i))" and "k < length (log (nodes s j))"
    and "le_Term (log (nodes s i) ! k) = le_Term (log (nodes s j) ! k)"
  shows "take (Suc k) (log (nodes s i)) = take (Suc k) (log (nodes s j))"
  using log_invD(1) [OF log_inv_reach [OF assms(1,2)] logs_node [OF assms(3)] logs_node [OF assms(4)]]
    assms(5-7) by (rule matchingD)

theorem log_matching_witness:
  "\<exists>s :: nat cluster. rc.reach 3 s \<and> length (log (nodes s 0)) = 2 \<and>
     take 1 (log (nodes s 0)) = take 1 (log (nodes s 1))"
proof -
  obtain s :: "nat cluster" where s: "rc.reach 3 s" "nodes s 0 = rf_writer" "nodes s 1 = rf_voter"
    using writer_reachable by blast
  with log_matching [OF s(1), of 0 1 0] show ?thesis by (intro exI [of _ s]) simp
qed

text \<open>C14. Nothing that Raft must remember is ever only in memory between two lock sections: a peer
  that crashes in any reachable state comes back with its term, its vote and its log.\<close>

theorem crash_restores_state:
  assumes "rc.reach n s" and "i < n"
  shows "currentTerm (Make n i (persister (nodes s i))) = currentTerm (nodes s i) \<and>
    votedFor (Make n i (persister (nodes s i))) = votedFor (nodes s i) \<and>
    log (Make n i (persister (nodes s i))) = log (nodes s i)"
proof -
  have "saved (nodes s i)" using struct_inv_reach [OF assms(1)] assms(2) by (simp add: struct_inv_def node_ok_def)
  then show ?thesis by simp
qed

theorem crash_restores_state_witness:
  "\<exists>s :: nat cluster. rc.reach 3 s \<and> length (log (nodes s 0)) = 2 \<and>
     log (Make 3 0 (persister (nodes s 0))) = log (nodes s 0)"
proof -
  obtain s :: "nat cluster" where "rc.reach 3 s" "nodes s 0 = rf_writer" using writer_reachable by blast
  with crash_restores_state [of 3 s 0] show ?thesis by (intro exI [of _ s]) simp
qed

text \<open>C15. No handler indexes a log or a cursor out of range: in every reachable state starting an
  election, answering any request that is in the network and building a request of a leader for
  any of its peers all return.\<close>

theorem handlers_never_panic:
  assumes "rc.reach n s" and "2 \<le> n"
  shows "(\<forall>i < n. startElection (nodes s i) \<noteq> None) \<and>
    (\<forall>j args. VoteReq j args \<in> net s \<longrightarrow> RequestVote args (nodes s j) \<noteq> None) \<and>
    (\<forall>j args l. AppendReq j args l \<in> net s \<longrightarrow> AppendEntries args (nodes s j) \<noteq> None) \<and>
    (\<forall>i < n. \<forall>j \<in> set (broadcastHeartbeats (nodes s i)). appendArgs j (nodes s i) \<noteq> None)"
proof -
  have st: "struct_inv n s" using assms(1) by (rule struct_inv_reach)
  have node: "node_ok n i (nodes s i)" if "i < n" for i using st that by (simp add: struct_inv_def)
  have "RequestVote args (nodes s j) \<noteq> None" if "VoteReq j args \<in> net s" for j args
    using struct_msg [OF st that] node [of j] by (intro RequestVote_total) (simp add: node_ok_def)
  moreover have "AppendEntries args (nodes s j) \<noteq> None" if "AppendReq j args l \<in> net s" for j args l
    using struct_msg [OF st that] by (intro AppendEntries_total) (simp add: cut_of_def)
  moreover have "appendArgs j (nodes s i) \<noteq> None" if "i < n" "j \<in> set (broadcastHeartbeats (nodes s i))" for i j
  proof (rule appendArgs_total)
    have lead: "state (nodes s i) = StateLeader" and j: "j < length (nextIndex (nodes s i))"
      using that node [of i] by (auto simp: broadcastHeartbeats_def node_ok_def split: if_splits)
    have "cursors_ok (nodes s i)" using index_invD(1) [OF index_inv_reach [OF assms] that(1) lead] .
    then show "1 \<le> nextIndex (nodes s i) ! j" "nextIndex (nodes s i) ! j \<le> int (length (log (nodes s i)))"
      using j by (auto simp: cursors_ok_def)
    show "j < length (nextIndex (nodes s i))" by (rule j)
  qed
  moreover have "startElection (nodes s i) \<noteq> None" if "i < n" for i
    using node [OF that] by (intro startElection_total) (simp add: node_ok_def)
  ultimately show ?thesis by blast
qed

theorem handlers_never_panic_witness:
  "\<exists>s :: nat cluster. rc.reach 3 s \<and> 2 \<in> set (broadcastHeartbeats (nodes s 0)) \<and>
     appendArgs 2 (nodes s 0) \<noteq> None"
proof -
  obtain s :: "nat cluster" where s: "rc.reach 3 s" "nodes s 0 = rf_leader" using leader_reachable by blast
  have two: "2 \<in> set (broadcastHeartbeats (nodes s 0))" using s(2) by (simp add: broadcastHeartbeats_def)
  have "\<forall>i < 3. \<forall>j \<in> set (broadcastHeartbeats (nodes s i)). appendArgs j (nodes s i) \<noteq> None"
    using handlers_never_panic [OF s(1)] by simp
  from this [rule_format, OF _ two] s(1) two show ?thesis by (intro exI [of _ s]) simp
qed

text \<open>C25. A leader only appends: as long as a peer stays leader in a term, every step of the cluster leaves
  its log as a prefix of the new one.\<close>

theorem leader_append_only:
  assumes "rc.reach n s" and "raft_step n s s'" and "i < n"
    and "state (nodes s i) = StateLeader" and "state (nodes s' i) = StateLeader"
    and "currentTerm (nodes s' i) = currentTerm (nodes s i)"
  shows "\<exists>es. log (nodes s' i) = log (nodes s i) @ es"
proof -
  have saved: "saved (nodes s k)" if "k < n" for k
    using struct_inv_reach [OF assms(1)] that by (simp add: struct_inv_def node_ok_def)
  from assms(2) show ?thesis
  proof cases
    case (elect k rf args)
    then show ?thesis using startElection_cases(2) [OF elect(3)] by auto
  next
    case (vote k args rf reply)
    have "k < n" using struct_msg [OF struct_inv_reach [OF assms(1)] vote(2)] by simp
    then show ?thesis using vote(1) RequestVote_cases(2) [OF vote(3) saved] by auto
  next
    case (count k args reply c rf b)
    from count(5) have "log rf = log (nodes s c)" by (cases rule: handleVoteReply_cases) auto
    then show ?thesis using count(1) by auto
  next
    case (client k command rf idx t ok)
    then show ?thesis using Start_cases(10) [OF client(3) saved [OF client(2)]] by (cases "k = i") auto
  next
    case (append k args l rf reply)
    from append(3) have "state rf = StateLeader \<Longrightarrow> log rf = log (nodes s k)"
      by (cases rule: AppendEntries_cases) auto
    then show ?thesis using append(1) assms(5) by (cases "k = i") auto
  next
    case (ack j args reply k)
    have "log (handleAppendReply j args reply (nodes s k)) = log (nodes s k)"
      using refl by (cases rule: handleAppendReply_cases [of j args reply "nodes s k"]) auto
    then show ?thesis using ack(1) by auto
  next
    case (apply_log k rf msgs)
    then show ?thesis using applyLoop_round_fields [OF apply_log(3)] by auto
  next
    case (crash k)
    then show ?thesis using assms(5) by (cases "k = i") auto
  qed auto
qed

theorem leader_append_only_witness:
  "\<exists>(s :: nat cluster) s' es. rc.reach 3 s \<and> raft_step 3 s s' \<and> state (nodes s' 0) = StateLeader \<and>
     log (nodes s' 0) = log (nodes s 0) @ es \<and> es \<noteq> []"
proof -
  obtain s :: "nat cluster" where s: "rc.reach 3 s" "nodes s 0 = rf_leader" using leader_reachable by blast
  then have "Start 7 (nodes s 0) = (rf_writer, 1, 1, True)" by (simp add: rf_writer_run)
  from raft_step.client [of 0 3, OF _ this] have step: "raft_step 3 s (set_node 0 rf_writer s)" by simp
  from leader_append_only [OF s(1) step, of 0] s obtain es where
    "log (nodes (set_node 0 rf_writer s) 0) = log (nodes s 0) @ es" by auto
  with s step show ?thesis
    by (intro exI [of _ s] exI [of _ "set_node 0 rf_writer s"] exI [of _ es]) auto
qed



text \<open>C16. The sender of a leader always ends: whatever the logs of a reachable state are, as many rounds as the
  peer's send cursor says are enough for a follower of no higher term to accept a request. The follower's log
  then begins with the whole log of the leader, and the leader knows it.\<close>

theorem sender_loop_terminates:
  assumes "rc.reach n s" and "2 \<le> n" and "i < n" and "j \<in> set (broadcastHeartbeats (nodes s i))"
    and "currentTerm (nodes s j) \<le> currentTerm (nodes s i)"
  shows "\<exists>rf rfp. sender_loop (nat (nextIndex (nodes s i) ! j)) j (nodes s i) (nodes s j) = Some (rf, rfp) \<and>
    log rf = log (nodes s i) \<and> state rf = StateLeader \<and> take (length (log rf)) (log rfp) = log rf \<and>
    int (length (log rf)) - 1 \<le> matchIndex rf ! j"
proof -
  have fuel: "nextIndex (nodes s i) ! j \<le> int (nat (nextIndex (nodes s i) ! j))" by simp
  obtain s' where s': "sender_loop (nat (nextIndex (nodes s i) ! j)) j (nodes s i) (nodes s j) = Some (nodes s' i, nodes s' j)"
    "synced n i j s s'" using sender_loop_converges [OF assms(2,3,1,4,5) fuel] by blast
  have "state (nodes s i) = StateLeader" "j < length (matchIndex (nodes s i))"
    using assms(3,4) struct_inv_reach [OF assms(1)]
    by (auto simp: broadcastHeartbeats_def struct_inv_def node_ok_def split: if_splits)
  with synced_leader [OF s'(2)] s' show ?thesis by (auto simp: synced_def)
qed

theorem sender_loop_terminates_witness:
  "\<exists>(s :: nat cluster) rf rfp. rc.reach 3 s \<and> sender_loop 1 1 (nodes s 0) (nodes s 1) = Some (rf, rfp) \<and>
     length (log (nodes s 1)) = 1 \<and> take 2 (log rfp) = log rf \<and> length (log rf) = 2"
proof -
  obtain s :: "nat cluster" where s: "rc.reach 3 s" "nodes s 0 = rf_writer" "nodes s 1 = rf_voter"
    using writer_reachable by blast
  have w: "peers rf_writer = 3" "me rf_writer = 0" "nextIndex rf_writer ! 1 = 1"
    by (simp_all add: rf_writer_def Start_def) (simp add: rf_leader_def handleVoteReply_def first_ballot_def)
  have "1 \<in> set (broadcastHeartbeats (nodes s 0))" using s(2) w by (simp add: broadcastHeartbeats_def)
  moreover have "currentTerm (nodes s 1) \<le> currentTerm (nodes s 0)"
    using s(2,3) RequestVote_cases(8) [OF rf_voter_run]
    by (simp add: first_ballot_def saved_def restored_def Make_def readPersist_def)
  ultimately have "\<exists>rf rfp. sender_loop (nat (nextIndex (nodes s 0) ! 1)) 1 (nodes s 0) (nodes s 1) = Some (rf, rfp) \<and>
    log rf = log (nodes s 0) \<and> state rf = StateLeader \<and> take (length (log rf)) (log rfp) = log rf \<and>
    int (length (log rf)) - 1 \<le> matchIndex rf ! 1"
    by (intro sender_loop_terminates [OF s(1)]) simp_all
  then obtain rf rfp where run: "sender_loop (nat (nextIndex (nodes s 0) ! 1)) 1 (nodes s 0) (nodes s 1) = Some (rf, rfp)"
    "log rf = log (nodes s 0)" "take (length (log rf)) (log rfp) = log rf" by blast
  have "nat (nextIndex (nodes s 0) ! 1) = 1" using s(2) w(3) by simp
  with run s show ?thesis
    by (intro exI [of _ s] exI [of _ rf] exI [of _ rfp]) (simp add: numeral_2_eq_2 del: sender_loop.simps)
qed

text \<open>C5. The cluster never reaches a state in which it cannot make progress: whatever crashes, lost, late and
  repeated messages there have been, a schedule of the handlers without a crash exists, after which some peer leads, its log is the one it
  had with a new command at the end, every peer's log begins with it, and every peer knows it to be committed.\<close>

theorem command_can_commit:
  assumes "rc.reach n s" and "2 \<le> n"
  shows "\<exists>es ns i. list_all crash_free es \<and> run n es (map (nodes s) [0..<n]) = Some ns \<and> i < n \<and> state (ns ! i) = StateLeader \<and>
    (\<forall>k < n. currentTerm (ns ! k) \<le> currentTerm (ns ! i) \<and>
       take (Suc (length (log (nodes s i)))) (log (ns ! k)) =
         log (nodes s i) @ [\<lparr>le_Term = currentTerm (ns ! i), le_Command = Some c\<rparr>] \<and>
       int (length (log (nodes s i))) \<le> commitIndex (ns ! k))"
proof -
  from command_commits [OF assms, of c] obtain i s' where s': "i < n" "leads_to n s s'" "state (nodes s' i) = StateLeader"
    "\<forall>k < n. currentTerm (nodes s' k) \<le> currentTerm (nodes s' i) \<and>
      take (Suc (length (log (nodes s i)))) (log (nodes s' k)) =
        log (nodes s i) @ [\<lparr>le_Term = currentTerm (nodes s' i), le_Command = Some c\<rparr>] \<and>
      int (length (log (nodes s i))) \<le> commitIndex (nodes s' k)" by blast
  moreover obtain es where "list_all crash_free es" "run n es (map (nodes s) [0..<n]) = Some (map (nodes s') [0..<n])"
    using s'(2) by (auto simp: leads_to_def peer_list_def)
  ultimately show ?thesis by (intro exI [of _ es] exI [of _ "map (nodes s') [0..<n]"] exI [of _ i]) simp
qed

theorem command_can_commit_witness:
  "\<exists>(s :: nat cluster) es ns. rc.reach 3 s \<and> commitIndex (nodes s 2) = 0 \<and> run 3 es (map (nodes s) [0..<3]) = Some ns \<and>
     1 \<le> commitIndex (ns ! 2)"
proof -
  let ?s = "\<lparr>nodes = (\<lambda>i. Make 3 i None), net = {}, calls = {}, votecount = (\<lambda>i t. 0)\<rparr> :: nat cluster"
  have reach: "rc.reach 3 ?s" by (rule rc.reach.start) (simp add: cluster_init_def)
  from command_can_commit [OF this, of 7] obtain es ns i where run: "run 3 es (map (nodes ?s) [0..<3]) = Some ns" "i < 3"
    "int (length (log (nodes ?s i))) \<le> commitIndex (ns ! 2)" by auto
  have "length (log (nodes ?s i)) = 1" by (simp add: Make_def readPersist_def)
  with run(3) have "1 \<le> commitIndex (ns ! 2)" by linarith
  with reach run(1) show ?thesis by (intro exI [of _ ?s] exI [of _ es] exI [of _ ns]) simp
qed

text \<open>C17. A peer that saved its state to its file and starts again from that file, whatever write
  faults other calls had, is the peer that \<^verbatim>\<open>Make\<close> builds from the saved term, vote and
  log. Decoding must read back what was encoded, and the encoding is not empty.\<close>

theorem persist_then_restart:
  assumes "dec (enc (currentTerm rf, votedFor rf, log rf)) = Some (currentTerm rf, votedFor rf, log rf)"
    and "enc (currentTerm rf, votedFor rf, log rf) \<noteq> []" and "persist_file enc rf ps d = (None, ps', d')"
  shows "readPersist_file dec (fst (ReadRaftState (MakePersister (filepath ps)) d')) (Make n i None) =
    (Make n i (Some (currentTerm rf, votedFor rf, log rf)))\<lparr>persister := None\<rparr>"
  using persist_refines(1) [of dec enc, OF assms] by (simp add: readPersist_refines MakePersister_def persist_def)
    (simp add: Make_def readPersist_def)

theorem persist_then_restart_witness:
  "\<exists>ps' d'. persist_file (\<lambda>(t, v, l). [1, 2, 3]) rf_voter (MakePersister (DataDir, ''raft'')) \<lparr>files = [], faults = []\<rparr> = (None, ps', d') \<and>
     log (readPersist_file (\<lambda>bs. if bs = [1, 2, 3] then Some (currentTerm rf_voter, votedFor rf_voter, log rf_voter) else None)
       (fst (ReadRaftState (MakePersister (DataDir, ''raft'')) d')) (Make 3 1 None)) = log rf_voter"
proof -
  let ?enc = "\<lambda>(t, v, l). [1, 2, 3]"
  let ?dec = "\<lambda>bs. if bs = [1, 2, 3] then Some (currentTerm rf_voter, votedFor rf_voter, log rf_voter) else None"
  obtain ps' d' where run: "persist_file ?enc rf_voter (MakePersister (DataDir, ''raft'')) \<lparr>files = [], faults = []\<rparr> = (None, ps', d')"
    by (simp add: persist_file_def Save_def os_WriteFile_def MakePersister_def)
  from persist_then_restart [OF _ _ run, of ?dec 3 1] run show ?thesis
    by (intro exI [of _ ps'] exI [of _ d']) (simp add: MakePersister_def Make_def readPersist_def)
qed

text \<open>C39. The state file is truncated before it is written. A peer that dies in between starts again as if it had
  never run, and grants a second vote in the term in which it has already voted, to any candidate.\<close>

theorem torn_save_votes_twice:
  fixes rf :: "'c Raft" and dec :: "bytes \<Rightarrow> 'c raftstate option"
  assumes "currentTerm rf = t" and "votedFor rf = c" and "0 < t" and "faults d = None # Some 0 # fs"
    and "rv_Term args = t" and "0 \<le> rv_LastLogIndex args" and "0 \<le> rv_LastLogTerm args"
  shows "\<exists>ps' d' rf' reply. persist_file enc rf ps d = (Some PathError, ps', d') \<and>
    RequestVote args (readPersist_file dec (fst (ReadRaftState (MakePersister (filepath ps)) d')) (Make n i None)) = Some (rf', reply) \<and>
    rr_VoteGranted reply \<and> rr_Term reply = t \<and> votedFor rf' = int (rv_CandidateId args)"
proof -
  obtain d' where d': "os_WriteFile (filepath ps) (enc (currentTerm rf, votedFor rf, log rf)) d = (Some PathError, d')"
    "disk_file d' (filepath ps) = Some []" using os_WriteFile_torn [OF assms(4)] by blast
  then obtain ps' where run: "persist_file enc rf ps d = (Some PathError, ps', d')"
    by (simp add: persist_file_def Save_def)
  have empty: "file_state dec (filepath ps) d' = None" using d'(2) by (simp add: file_state_def)
  have "RequestVote args (Make n i None) = Some (rf', reply) \<Longrightarrow>
    rr_VoteGranted reply \<and> rr_Term reply = t \<and> votedFor rf' = int (rv_CandidateId args)" for rf' :: "'c Raft" and reply
    using assms(3,5-7)
    by (auto simp: RequestVote_def Make_def readPersist_def Let_def at_def persist_def setTermLocked_def split: if_splits)
  moreover have "RequestVote args (Make n i None :: 'c Raft) \<noteq> None"
    by (rule RequestVote_total) (simp add: Make_def readPersist_def)
  ultimately show ?thesis using run empty by (auto simp: readPersist_refines MakePersister_def readPersist_def)
qed

theorem torn_save_votes_twice_witness:
  "\<exists>d' ps' rf' reply. votedFor rf_voter = 0 \<and> currentTerm rf_voter = 1 \<and>
     persist_file (\<lambda>_. [1, 2, 3]) rf_voter (MakePersister (DataDir, ''raft'')) \<lparr>files = [], faults = [None, Some 0]\<rparr> = (Some PathError, ps', d') \<and>
     RequestVote \<lparr>rv_Term = 1, rv_CandidateId = 2, rv_LastLogIndex = 0, rv_LastLogTerm = 0\<rparr>
       (readPersist_file (\<lambda>bs. None) (fst (ReadRaftState (MakePersister (DataDir, ''raft'')) d')) (Make 3 1 None)) = Some (rf' :: nat Raft, reply) \<and>
     rr_VoteGranted reply"
proof -
  have v: "votedFor rf_voter = 0" "currentTerm rf_voter = 1"
    using RequestVote_cases(8,13) [OF rf_voter_run]
    by (simp_all add: first_ballot_def saved_def restored_def Make_def readPersist_def)
  from torn_save_votes_twice [OF v(2,1), of "\<lparr>files = [], faults = [None, Some 0]\<rparr>" "[]"
      "\<lparr>rv_Term = 1, rv_CandidateId = 2, rv_LastLogIndex = 0, rv_LastLogTerm = 0\<rparr>" "\<lambda>_. [1, 2, 3]"
      "MakePersister (DataDir, ''raft'')" "\<lambda>bs. None" 3 1] v
  show ?thesis by (auto simp: MakePersister_def)
qed

text \<open>C38. Winning an election resets the send cursors but not \<open>matchIndex\<close>, so that the commit rule counts
  acknowledgements of an earlier leadership. This breaks the safety of the log: a cluster of three peers
  reaches, without any crash, a state in which two peers have committed different commands at the same
  index. Peer 0 takes two commands in term 1 that reach nobody; peer 2 takes another in term 2; peer 0, leader
  again in term 3, copies its two entries to peer 1; peer 2, leader in term 4, replaces them on both. Peer 0, elected in
  term 5, counts the old answer of peer 1 for a new entry that only itself holds, and commits it; peers 1 and
  2 commit another one in its place.\<close>

theorem committed_entries_diverge:
  "\<exists>s :: nat cluster. rc.reach 3 s \<and> commitIndex (nodes s 0) = 2 \<and> commitIndex (nodes s 2) = 2 \<and>
     map le_Command (log (nodes s 0)) = [None, Some 20, Some 30] \<and>
     map le_Command (log (nodes s 2)) = [None, Some 20, Some 40]"
proof -
  let ?a = "[None, Some 20, Some 30]" and ?b = "[None, Some 20, Some 40]"
  have "map_option (map (\<lambda>rf. (commitIndex rf, map le_Command (log rf)))) (run 3 diverging_events (boot 3)) =
    Some [(2, ?a), (0, ?b), (2, ?b)]"
    by code_simp
  then obtain ns where run: "run 3 diverging_events (boot 3) = Some ns"
    and ns: "map (\<lambda>rf. (commitIndex rf, map le_Command (log rf))) ns = [(2, ?a), (0, ?b), (2, ?b)]" by auto
  from boot_reach [OF run] obtain s :: "nat cluster" where s: "rc.reach 3 s" "\<forall>i < 3. nodes s i = ns ! i" by blast
  from ns obtain a b c where "ns = [a, b, c]" by (auto simp: map_eq_Cons_conv)
  then have "nodes s 0 = a" "nodes s 2 = c" using s(2) by (simp_all add: numeral_eq_Suc)
  with s(1) ns \<open>ns = [a, b, c]\<close> show ?thesis by (intro exI [of _ s]) simp
qed

end
