(* ===== verification/Raft_Timer.thy ===== *)
theory Raft_Timer
  imports Raft_Node
begin

text \<open>
  The election timer of a peer (\<^verbatim>\<open>resetElectionTimeout\<close>, \<^verbatim>\<open>ticker\<close> and the places where handlers of
  \<^verbatim>\<open>raft.go\<close> reset it). The cluster model lets timers expire at any time; here a peer comes with its timer, and a handler
  also gets the current time in nanoseconds and the next random number. The lemmas
  bound the time after which an election starts, and show that heartbeats that come often enough prevent one.
\<close>

record 'c timed =
  t_peer :: "'c Raft"
  lastHeartbeat :: int
  electionTimeout :: int

definition Millisecond :: int where "Millisecond = 1000000"

definition resetElectionTimeout :: "int \<Rightarrow> nat \<Rightarrow> 'c timed \<Rightarrow> 'c timed" where
  "resetElectionTimeout now random tp =
     (let ms = 300 + int random mod 200
      in tp\<lparr>electionTimeout := ms * Millisecond, lastHeartbeat := now\<rparr>)"

definition Make_timed :: "nat \<Rightarrow> nat \<Rightarrow> 'c raftstate option \<Rightarrow> int \<Rightarrow> nat \<Rightarrow> 'c timed" where
  "Make_timed n i data now random =
     resetElectionTimeout now random \<lparr>t_peer = Make n i data, lastHeartbeat = 0, electionTimeout = 0\<rparr>"

text \<open>One round of the ticker: the requests for votes that go out, if an election starts.\<close>

definition ticker_at :: "int \<Rightarrow> nat \<Rightarrow> 'c timed \<Rightarrow> ('c timed \<times> RequestVoteArgs option) option" where
  "ticker_at now random tp =
     (case ticker_round (now - lastHeartbeat tp \<ge> electionTimeout tp) (t_peer tp) of
        None \<Rightarrow> None
      | Some (rf, None) \<Rightarrow> Some (tp\<lparr>t_peer := rf\<rparr>, None)
      | Some (rf, Some args) \<Rightarrow> Some (resetElectionTimeout now random (tp\<lparr>t_peer := rf\<rparr>), Some args))"

text \<open>A vote that is granted and every request of a leader that is not stale reset the timer.\<close>

definition RequestVote_at ::
  "int \<Rightarrow> nat \<Rightarrow> RequestVoteArgs \<Rightarrow> 'c timed \<Rightarrow> ('c timed \<times> RequestVoteReply) option"
where
  "RequestVote_at now random args tp =
     (case RequestVote args (t_peer tp) of
        None \<Rightarrow> None
      | Some (rf, reply) \<Rightarrow>
          let tp = tp\<lparr>t_peer := rf\<rparr>
          in Some (if rr_VoteGranted reply then resetElectionTimeout now random tp else tp, reply))"

definition AppendEntries_at ::
  "int \<Rightarrow> nat \<Rightarrow> 'c AppendEntriesArgs \<Rightarrow> 'c timed \<Rightarrow> ('c timed \<times> AppendEntriesReply) option"
where
  "AppendEntries_at now random args tp =
     (case AppendEntries args (t_peer tp) of
        None \<Rightarrow> None
      | Some (rf, reply) \<Rightarrow>
          let stale = ae_Term args < currentTerm (t_peer tp); tp = tp\<lparr>t_peer := rf\<rparr>
          in Some (if stale then tp else resetElectionTimeout now random tp, reply))"

datatype 'c timed_event =
    Tick
  | Heartbeat "'c AppendEntriesArgs"
  | Ballot RequestVoteArgs

definition timed_event :: "int \<times> nat \<times> 'c timed_event \<Rightarrow> 'c timed \<Rightarrow> 'c timed option" where
  "timed_event e tp =
     (case e of
        (now, random, Tick) \<Rightarrow> map_option fst (ticker_at now random tp)
      | (now, random, Heartbeat args) \<Rightarrow> map_option fst (AppendEntries_at now random args tp)
      | (now, random, Ballot args) \<Rightarrow> map_option fst (RequestVote_at now random args tp))"

fun timed_run :: "(int \<times> nat \<times> 'c timed_event) list \<Rightarrow> 'c timed \<Rightarrow> 'c timed option" where
  "timed_run [] tp = Some tp"
| "timed_run (e # es) tp = (case timed_event e tp of None \<Rightarrow> None | Some tp' \<Rightarrow> timed_run es tp')"

section \<open>The timer\<close>

definition timer_ok :: "'c timed \<Rightarrow> bool" where
  "timer_ok tp \<longleftrightarrow> 300 * Millisecond \<le> electionTimeout tp \<and> electionTimeout tp \<le> 499 * Millisecond"

lemma resetElectionTimeout_simps [simp]:
  "t_peer (resetElectionTimeout now random tp) = t_peer tp"
  "lastHeartbeat (resetElectionTimeout now random tp) = now"
  "timer_ok (resetElectionTimeout now random tp)"
  by (simp_all add: resetElectionTimeout_def timer_ok_def Let_def Millisecond_def)

lemma timer_ok_peer [simp]: "timer_ok (tp\<lparr>t_peer := rf\<rparr>) = timer_ok tp"
  by (simp add: timer_ok_def)

lemma timer_ok_event: "timer_ok tp \<Longrightarrow> timed_event e tp = Some tp' \<Longrightarrow> timer_ok tp'"
  by (auto simp: timed_event_def ticker_at_def AppendEntries_at_def RequestVote_at_def Let_def
    split: prod.splits timed_event.splits option.splits if_splits)

lemma timer_ok_run: "timer_ok tp \<Longrightarrow> timed_run es tp = Some tp' \<Longrightarrow> timer_ok tp'"
  by (induction es arbitrary: tp) (auto split: option.splits dest: timer_ok_event)

text \<open>Early ticks do nothing; late ones start an election unless the peer leads.\<close>

lemma ticker_early:
  "timer_ok tp \<Longrightarrow> now - lastHeartbeat tp < 300 * Millisecond \<Longrightarrow> ticker_at now random tp = Some (tp, None)"
  by (simp add: ticker_at_def ticker_round_def timer_ok_def)


section \<open>Heartbeats\<close>

text \<open>Heartbeats of one term, without a gap of 300 ms before a tick; late candidates of older terms may ask for votes.\<close>

fun steady :: "int \<Rightarrow> int \<Rightarrow> (int \<times> nat \<times> 'c timed_event) list \<Rightarrow> bool" where
  "steady T t [] \<longleftrightarrow> True"
| "steady T t ((now, random, e) # es) \<longleftrightarrow>
     (case e of
        Tick \<Rightarrow> now - t < 300 * Millisecond \<and> steady T t es
      | Heartbeat args \<Rightarrow> ae_Term args = T \<and> 0 \<le> ae_PrevLogIndex args \<and> steady T now es
      | Ballot args \<Rightarrow> rv_Term args < T \<and> steady T t es)"

lemma AppendEntries_at_follower:
  assumes "ae_Term args = currentTerm (t_peer tp)" and "0 \<le> ae_PrevLogIndex args"
  shows "\<exists>tp' reply. AppendEntries_at now random args tp = Some (tp', reply) \<and> lastHeartbeat tp' = now \<and> timer_ok tp' \<and>
    state (t_peer tp') = StateFollower \<and> currentTerm (t_peer tp') = currentTerm (t_peer tp) \<and>
    votedFor (t_peer tp') = votedFor (t_peer tp)"
proof -
  obtain rf reply where app: "AppendEntries args (t_peer tp) = Some (rf, reply)"
    using AppendEntries_total [OF assms(2)] by fastforce
  have "state rf = StateFollower \<and> currentTerm rf = currentTerm (t_peer tp) \<and> votedFor rf = votedFor (t_peer tp)"
    using app by (cases rule: AppendEntries_cases) (use assms(1) in auto)
  with app assms(1) show ?thesis by (simp add: AppendEntries_at_def)
qed

lemma steady_run:
  "steady T (lastHeartbeat tp) es \<Longrightarrow> timer_ok tp \<Longrightarrow> currentTerm (t_peer tp) = T \<Longrightarrow> state (t_peer tp) = StateFollower \<Longrightarrow>
   \<exists>tp'. timed_run es tp = Some tp' \<and> state (t_peer tp') = StateFollower \<and> currentTerm (t_peer tp') = T \<and>
     votedFor (t_peer tp') = votedFor (t_peer tp)"
proof (induction es arbitrary: tp)
  case (Cons x es)
  obtain now random e where x: "x = (now, random, e)" by (rule prod_cases3)
  show ?case
  proof (cases e)
    case Tick
    then have t: "now - lastHeartbeat tp < 300 * Millisecond" "steady T (lastHeartbeat tp) es" using Cons.prems(1) x by simp_all
    have "timed_event x tp = Some tp"
      using ticker_early [OF Cons.prems(2) t(1)] x Tick by (simp add: timed_event_def)
    with t(2) show ?thesis using Cons.IH Cons.prems(2-4) by simp
  next
    case (Heartbeat args)
    then have h: "ae_Term args = currentTerm (t_peer tp)" "0 \<le> ae_PrevLogIndex args" "steady T now es"
      using Cons.prems(1,3) x by simp_all
    from AppendEntries_at_follower [OF h(1,2)] obtain tp1 reply where
      tp1: "AppendEntries_at now random args tp = Some (tp1, reply)" "lastHeartbeat tp1 = now" "timer_ok tp1"
      "state (t_peer tp1) = StateFollower" "currentTerm (t_peer tp1) = currentTerm (t_peer tp)" "votedFor (t_peer tp1) = votedFor (t_peer tp)"
      by blast
    have "timed_event x tp = Some tp1" using x Heartbeat tp1(1) by (simp add: timed_event_def)
    moreover have "\<exists>tp'. timed_run es tp1 = Some tp' \<and> state (t_peer tp') = StateFollower \<and> currentTerm (t_peer tp') = T \<and>
     votedFor (t_peer tp') = votedFor (t_peer tp1)"
      by (rule Cons.IH) (use h(3) tp1 Cons.prems(3) in simp_all)
    ultimately show ?thesis using tp1(6) by simp
  next
    case (Ballot args)
    then have b: "rv_Term args < currentTerm (t_peer tp)" "steady T (lastHeartbeat tp) es" using Cons.prems(1,3) x by simp_all
    have "timed_event x tp = Some tp" using x Ballot b(1) by (simp add: timed_event_def RequestVote_at_def RequestVote_def)
    with b(2) show ?thesis using Cons.IH Cons.prems(2-4) by simp
  qed
qed simp

section \<open>Properties\<close>



text \<open>C22. A follower that hears from the leader of its term often enough never starts an election: as long as no tick comes 300 ms or
  more after the last heartbeat, every event is handled without a panic, and the peer stays a follower of the same term with the same vote, whatever
  entries the heartbeats carry and whatever candidates of older terms ask.\<close>

theorem heartbeats_prevent_elections:
  assumes "timed_run es0 (Make_timed n i data t0 r0) = Some tp" and "state (t_peer tp) = StateFollower"
    and "steady (currentTerm (t_peer tp)) (lastHeartbeat tp) es"
  shows "\<exists>tp'. timed_run es tp = Some tp' \<and> state (t_peer tp') = StateFollower \<and>
    currentTerm (t_peer tp') = currentTerm (t_peer tp) \<and> votedFor (t_peer tp') = votedFor (t_peer tp)"
proof -
  have "timer_ok tp" using timer_ok_run [OF _ assms(1)] by (simp add: Make_timed_def)
  from steady_run [OF assms(3) this refl assms(2)] show ?thesis .
qed

theorem heartbeats_prevent_elections_witness:
  "\<exists>tp'. timed_run
       [(290000000, 1, Tick),
        (299000000, 8, Heartbeat \<lparr>ae_Term = 0, ae_LeaderID = 1, ae_PrevLogIndex = 0, ae_PrevLogTerm = 0, ae_Entries = [], ae_LeaderCommit = 0\<rparr>),
        (598000000, 3, Tick)] (Make_timed 3 0 None 0 7 :: nat timed) = Some tp' \<and> state (t_peer tp') = StateFollower"
proof -
  let ?es = "[(290000000, 1, Tick),
        (299000000, 8, Heartbeat \<lparr>ae_Term = 0, ae_LeaderID = 1, ae_PrevLogIndex = 0, ae_PrevLogTerm = 0, ae_Entries = [], ae_LeaderCommit = 0\<rparr>),
        (598000000, 3, Tick)] :: (int \<times> nat \<times> nat timed_event) list"
  let ?tp = "Make_timed 3 0 None 0 7 :: nat timed"
  have run: "timed_run [] ?tp = Some ?tp" by simp
  have "currentTerm (Make 3 0 None :: nat Raft) = 0" by (simp add: Make_def readPersist_def)
  then have "steady (currentTerm (t_peer ?tp)) (lastHeartbeat ?tp) ?es"
    by (simp add: Make_timed_def Millisecond_def)
  from heartbeats_prevent_elections [OF run _ this] show ?thesis by (auto simp: Make_timed_def)
qed

end
