(* ===== verification/Store.thy ===== *)
theory Store
  imports DB_View Raft_Node
begin

text \<open>
  The replicated store of \<^verbatim>\<open>internal/store/store.go\<close>: the loop that applies committed commands to the engine
  and wakes the waiting requests, and the requests themselves, split at the points where they block. A
  channel of capacity one is the list of the results it holds; \<open>waitChans\<close> maps a log index to the
  channel that was registered last for it. An outcome other than \<open>Done\<close> is a panic, or a send that blocks
  for ever while the lock is held.

  The lemmas show that applying a log to the engine computes the map that the log describes, also when a
  restart applies the log again on top of what the engine already holds.
\<close>

record Op =
  Operation :: string
  op_Key :: bytes
  op_Value :: bytes
  OpId :: int

record OpResult =
  AppliedOp :: Op
  or_Value :: bytes
  Exists :: bool
  or_Err :: "go_error option"

record KVStore =
  kv_db :: DB
  waitChans :: "int \<Rightarrow> nat option"
  chans :: "nat \<Rightarrow> OpResult list"

datatype 'a outcome = Done 'a | Panicked | Blocked

definition NewKVStoreWithLSMOptions :: "Options \<Rightarrow> disk \<Rightarrow> KVStore \<times> disk" where
  "NewKVStoreWithLSMOptions options d =
     (case NewDBWithOptions options d of
        (db, d') \<Rightarrow> (\<lparr>kv_db = db, waitChans = (\<lambda>index. None), chans = (\<lambda>ch. [])\<rparr>, d'))"

definition NewKVStore :: "disk \<Rightarrow> KVStore \<times> disk" where
  "NewKVStore d = NewKVStoreWithLSMOptions \<lparr>EnableCompaction = True\<rparr> d"

datatype store_error =
    NotLeader
  | LeadershipChanged
  | RequestTimeout
  | EngineError go_error

section \<open>The apply loop\<close>

text \<open>The switch on the operation: the result for the client, the flush the engine starts, and the new
  engine and disk.\<close>

definition apply_op :: "Op \<Rightarrow> DB \<Rightarrow> disk \<Rightarrow> (OpResult \<times> flush_job option) \<times> DB \<times> disk" where
  "apply_op op db d =
     (if Operation op = ''PUT'' then
        (case DB_Put (op_Key op) (op_Value op) db d of
           ((err, job), s) \<Rightarrow>
             ((\<lparr>AppliedOp = op, or_Value = [], Exists = False, or_Err = err\<rparr>, job), s))
      else if Operation op = ''DELETE'' then
        (case DB_Delete (op_Key op) db d of
           ((err, job), s) \<Rightarrow>
             ((\<lparr>AppliedOp = op, or_Value = [], Exists = False, or_Err = err\<rparr>, job), s))
      else if Operation op = ''GET'' then
        (case DB_Get (op_Key op) db d of
           ((val, exists), db') \<Rightarrow>
             ((\<lparr>AppliedOp = op, or_Value = val, Exists = exists, or_Err = None\<rparr>, None), db', d))
      else ((\<lparr>AppliedOp = op, or_Value = [], Exists = False, or_Err = None\<rparr>, None), db, d))"

definition notify :: "int \<Rightarrow> OpResult \<Rightarrow> KVStore \<Rightarrow> KVStore outcome" where
  "notify index result kv =
     (case waitChans kv index of
        None \<Rightarrow> Done kv
      | Some ch \<Rightarrow>
          if chans kv ch = [] then Done (kv\<lparr>chans := (chans kv)(ch := [result])\<rparr>) else Blocked)"

definition applyMsg :: "Op ApplyMsg \<Rightarrow> KVStore \<Rightarrow> disk \<Rightarrow> (flush_job option \<times> KVStore \<times> disk) outcome" where
  "applyMsg msg kv d =
     (if \<not> CommandValid msg then Done (None, kv, d)
      else case Command msg of
             None \<Rightarrow> Panicked
           | Some op \<Rightarrow>
               (case apply_op op (kv_db kv) d of
                  ((result, job), db', d') \<Rightarrow>
                    (case notify (CommandIndex msg) result (kv\<lparr>kv_db := db'\<rparr>) of
                       Done kv' \<Rightarrow> Done (job, kv', d')
                     | Panicked \<Rightarrow> Panicked
                     | Blocked \<Rightarrow> Blocked)))"

text \<open>The loop over the channel of committed commands.\<close>

fun applyLoop :: "Op ApplyMsg list \<Rightarrow> KVStore \<Rightarrow> disk \<Rightarrow> (flush_job list \<times> KVStore \<times> disk) outcome" where
  "applyLoop [] kv d = Done ([], kv, d)"
| "applyLoop (msg # msgs) kv d =
     (case applyMsg msg kv d of
        Done (job, kv', d') \<Rightarrow>
          (case applyLoop msgs kv' d' of
             Done (jobs, s) \<Rightarrow> Done ((case job of None \<Rightarrow> jobs | Some j \<Rightarrow> j # jobs), s)
           | Panicked \<Rightarrow> Panicked
           | Blocked \<Rightarrow> Blocked)
      | Panicked \<Rightarrow> Panicked
      | Blocked \<Rightarrow> Blocked)"

section \<open>Requests\<close>

text \<open>A request submits its operation, registers a channel for the index it was given, waits, and
  removes the registration of the index on return.\<close>

definition newOp :: "string \<Rightarrow> bytes \<Rightarrow> bytes \<Rightarrow> int \<Rightarrow> Op" where
  "newOp operation key val now = \<lparr>Operation = operation, op_Key = key, op_Value = val, OpId = now\<rparr>"

definition submit :: "Op \<Rightarrow> Op Raft \<Rightarrow> Op Raft \<times> (store_error + int)" where
  "submit op rf =
     (case Start op rf of
        (rf', index, term, isLeader) \<Rightarrow> (rf', if \<not> isLeader then Inl NotLeader else Inr index))"

definition register :: "int \<Rightarrow> nat \<Rightarrow> KVStore \<Rightarrow> KVStore" where
  "register index ch kv =
     kv\<lparr>chans := (chans kv)(ch := []), waitChans := (waitChans kv)(index := Some ch)\<rparr>"

definition unregister :: "int \<Rightarrow> KVStore \<Rightarrow> KVStore" where
  "unregister index kv = kv\<lparr>waitChans := (waitChans kv)(index := None)\<rparr>"

definition ActiveWaitChans :: "KVStore \<Rightarrow> nat" where
  "ActiveWaitChans kv = card (dom (waitChans kv))"

text \<open>The select of a write and of a read: \<open>None\<close> is the timeout.\<close>

definition writeResult :: "Op \<Rightarrow> OpResult option \<Rightarrow> store_error option" where
  "writeResult op received =
     (case received of
        None \<Rightarrow> Some RequestTimeout
      | Some result \<Rightarrow>
          if OpId (AppliedOp result) \<noteq> OpId op then Some LeadershipChanged
          else map_option EngineError (or_Err result))"

definition readResult :: "Op \<Rightarrow> OpResult option \<Rightarrow> store_error + bytes \<times> bool" where
  "readResult op received =
     (case received of
        None \<Rightarrow> Inl RequestTimeout
      | Some result \<Rightarrow>
          if OpId (AppliedOp result) \<noteq> OpId op then Inl LeadershipChanged
          else Inr (or_Value result, Exists result))"

text \<open>Taking the result from the channel, if there is one.\<close>

definition receive :: "nat \<Rightarrow> KVStore \<Rightarrow> OpResult option \<times> KVStore" where
  "receive ch kv =
     (case chans kv ch of
        [] \<Rightarrow> (None, kv)
      | r # rs \<Rightarrow> (Some r, kv\<lparr>chans := (chans kv)(ch := rs)\<rparr>))"

definition finishWrite :: "Op \<Rightarrow> int \<Rightarrow> nat \<Rightarrow> KVStore \<Rightarrow> store_error option \<times> KVStore" where
  "finishWrite op index ch kv =
     (case receive ch kv of (r, kv') \<Rightarrow> (writeResult op r, unregister index kv'))"

definition finishRead :: "Op \<Rightarrow> int \<Rightarrow> nat \<Rightarrow> KVStore \<Rightarrow> (store_error + bytes \<times> bool) \<times> KVStore" where
  "finishRead op index ch kv =
     (case receive ch kv of (r, kv') \<Rightarrow> (readResult op r, unregister index kv'))"

definition GetLocalIfLeader ::
  "bytes \<Rightarrow> Op Raft \<Rightarrow> KVStore \<Rightarrow> disk \<Rightarrow> (store_error + bytes \<times> bool) \<times> KVStore"
where
  "GetLocalIfLeader key rf kv d =
     (if \<not> snd (GetState rf) then (Inl NotLeader, kv)
      else case DB_Get key (kv_db kv) d of
             ((val, exists), db') \<Rightarrow> (Inr (val, exists), kv\<lparr>kv_db := db'\<rparr>))"

section \<open>The map a log describes\<close>

definition kv_apply :: "Op \<Rightarrow> (bytes \<Rightarrow> slice option) \<Rightarrow> bytes \<Rightarrow> slice option" where
  "kv_apply op m =
     (if Operation op = ''PUT'' then m(op_Key op \<mapsto> Some (op_Value op))
      else if Operation op = ''DELETE'' then m(op_Key op \<mapsto> None) else m)"

definition kv_writes :: "Op list \<Rightarrow> kv_write list" where
  "kv_writes ops =
     map (\<lambda>op. (op_Key op, if Operation op = ''PUT'' then Some (op_Value op) else None))
       (filter (\<lambda>op. Operation op = ''PUT'' \<or> Operation op = ''DELETE'') ops)"

lemma kv_apply_writes: "fold kv_apply ops m = m ++ map_of (rev (kv_writes ops))"
proof (induction ops rule: rev_induct)
  case (snoc op ops)
  then show ?case by (auto simp: kv_apply_def kv_writes_def)
qed (simp add: kv_writes_def)

text \<open>Applying a log again after a part of it changes nothing in the end.\<close>

lemma kv_apply_again: "fold kv_apply (us @ vs) (fold kv_apply us m) = fold kv_apply (us @ vs) m"
proof -
  have "kv_writes (us @ vs) = kv_writes us @ kv_writes vs" by (simp add: kv_writes_def)
  then have *: "map_of (rev (kv_writes (us @ vs))) = map_of (rev (kv_writes us)) ++ map_of (rev (kv_writes vs))"
    by (simp only: rev_append map_of_append)
  show ?thesis unfolding kv_apply_writes *
    by (rule ext) (simp add: map_add_def split: option.split)
qed

section \<open>Applying commands\<close>

lemma apply_op_view:
  assumes "db_inv db d" and "apply_op op db d = ((result, job), db', d')"
  shows "db_inv db' d'" and "AppliedOp result = op"
    and "or_Err result = None \<Longrightarrow> db_view db' d' = kv_apply op (db_view db d)"
    and "or_Err result \<noteq> None \<Longrightarrow> db_view db' d' = db_view db d"
    and "Operation op = ''GET'' \<Longrightarrow> (or_Value result, Exists result) = found_result (visible (db_view db d (op_Key op)))"
proof -
  consider (put) "Operation op = ''PUT''" | (del) "Operation op = ''DELETE''" | (get) "Operation op = ''GET''"
    | (other) "Operation op \<notin> {''PUT'', ''DELETE'', ''GET''}" by blast
  then have "db_inv db' d' \<and> AppliedOp result = op \<and>
    (or_Err result = None \<longrightarrow> db_view db' d' = kv_apply op (db_view db d)) \<and>
    (or_Err result \<noteq> None \<longrightarrow> db_view db' d' = db_view db d) \<and>
    (Operation op = ''GET'' \<longrightarrow> (or_Value result, Exists result) =
       found_result (visible (db_view db d (op_Key op))))"
  proof cases
    case put
    then obtain err where run: "DB_Put (op_Key op) (op_Value op) db d = ((err, job), db', d')"
      and r: "result = \<lparr>AppliedOp = op, or_Value = [], Exists = False, or_Err = err\<rparr>"
      using assms(2) by (auto simp: apply_op_def split: prod.splits)
    from DB_Put_view [OF assms(1) run] put r show ?thesis by (auto simp: kv_apply_def)
  next
    case del
    then obtain err where run: "DB_Delete (op_Key op) db d = ((err, job), db', d')"
      and r: "result = \<lparr>AppliedOp = op, or_Value = [], Exists = False, or_Err = err\<rparr>"
      using assms(2) by (auto simp: apply_op_def split: prod.splits)
    from DB_Delete_view [OF assms(1) run] del r show ?thesis by (auto simp: kv_apply_def)
  next
    case get
    then obtain val ex where run: "DB_Get (op_Key op) db d = ((val, ex), db')" and d: "d' = d"
      and r: "result = \<lparr>AppliedOp = op, or_Value = val, Exists = ex, or_Err = None\<rparr>"
      using assms(2) by (auto simp: apply_op_def split: prod.splits)
    have "db_view db' d = db_view db d" "db_inv db' d"
      using DB_Get_state [of "op_Key op" db d] run assms(1) by simp_all
    with DB_Get_view [OF assms(1), of "op_Key op"] run get r d show ?thesis by (simp add: kv_apply_def)
  next
    case other
    with assms show ?thesis by (auto simp: apply_op_def kv_apply_def)
  qed
  then show "db_inv db' d'" and "AppliedOp result = op"
    and "or_Err result = None \<Longrightarrow> db_view db' d' = kv_apply op (db_view db d)"
    and "or_Err result \<noteq> None \<Longrightarrow> db_view db' d' = db_view db d"
    and "Operation op = ''GET'' \<Longrightarrow> (or_Value result, Exists result) = found_result (visible (db_view db d (op_Key op)))"
    by auto
qed

text \<open>An engine whose log handles are open, on a disk that works, reports no error.\<close>

definition live :: "DB \<Rightarrow> bool" where
  "live db \<longleftrightarrow>
     (case wal db of Some (Some p) \<Rightarrow> True | _ \<Rightarrow> False) \<and>
     (case nextwal db of Some None \<Rightarrow> False | _ \<Rightarrow> True)"

lemma checkAndFlush_live: "live db \<Longrightarrow> checkAndFlush db = (db', job) \<Longrightarrow> live db'"
  by (erule checkAndFlush_cases) (auto simp: live_def split: option.splits)

lemma apply_op_live:
  assumes "live db" and "faults d = []" and "apply_op op db d = ((result, job), db', d')"
  shows "or_Err result = None \<and> live db' \<and> faults d' = []"
proof -
  obtain p where p: "wal db = Some (Some p)" using assms(1) by (auto simp: live_def split: option.splits)
  have mem: "live (db\<lparr>memTable := t\<rparr>)" for t using assms(1) by (simp add: live_def)
  have get: "live (snd (DB_Get k db d))" for k
    using assms(1) by (auto simp: DB_Get_def live_def split: option.splits prod.splits)
  show ?thesis
    using assms p
    by (auto simp: apply_op_def DB_Put_def DB_Delete_def WAL_AppendPut_def WAL_AppendDelete_def wal_write_def
        split: if_splits prod.splits intro: checkAndFlush_live [OF mem])
      (metis get snd_conv)
qed

definition msgs_of :: "Op list \<Rightarrow> int \<Rightarrow> Op ApplyMsg list" where
  "msgs_of ops first =
     map (\<lambda>(k, op). \<lparr>CommandValid = True, Command = Some op, CommandIndex = first + int k\<rparr>) (enumerate 0 ops)"

lemma msgs_of_simps [simp]:
  "msgs_of [] i = []"
  "msgs_of (op # ops) i = \<lparr>CommandValid = True, Command = Some op, CommandIndex = i\<rparr> # msgs_of ops (i + 1)"
proof -
  have "enumerate (Suc 0) ops = map (\<lambda>(k, op). (Suc k, op)) (enumerate 0 ops)"
    by (simp add: enumerate_eq_zip map_zip_map map_Suc_upt [symmetric] del: upt_Suc) (simp add: zip_map1 case_prod_beta)
  then show "msgs_of (op # ops) i = \<lparr>CommandValid = True, Command = Some op, CommandIndex = i\<rparr> # msgs_of ops (i + 1)"
    by (simp add: msgs_of_def case_prod_beta comp_def algebra_simps)
qed (simp add: msgs_of_def)

text \<open>A channel registered for an index that is still to come is empty.\<close>

definition chans_ready :: "int \<Rightarrow> KVStore \<Rightarrow> bool" where
  "chans_ready first kv \<longleftrightarrow>
     (\<forall>i ch. first \<le> i \<longrightarrow> waitChans kv i = Some ch \<longrightarrow> chans kv ch = []) \<and> inj_on (waitChans kv) (dom (waitChans kv))"

lemma chans_ready_later: "chans_ready i kv \<Longrightarrow> i \<le> k \<Longrightarrow> chans_ready k kv"
  unfolding chans_ready_def by (meson order_trans)

lemma notify_ready:
  assumes "chans_ready i kv"
  shows "\<exists>kv'. notify i result kv = Done kv' \<and> chans_ready (i + 1) kv' \<and> kv_db kv' = kv_db kv \<and>
    waitChans kv' = waitChans kv \<and> (\<forall>ch. waitChans kv i = Some ch \<longrightarrow> chans kv' ch = [result])"
proof (cases "waitChans kv i")
  case None
  have "chans_ready (i + 1) kv" using chans_ready_later [OF assms] by simp
  with None show ?thesis by (auto simp: notify_def)
next
  case (Some ch)
  have "waitChans kv k \<noteq> Some ch" if "i + 1 \<le> k" for k
    using assms Some that by (auto simp: chans_ready_def inj_on_def dom_def) fastforce
  with Some assms chans_ready_later [OF assms, of "i + 1"] show ?thesis
    by (auto simp: notify_def chans_ready_def)
qed

text \<open>A store that is ready for the commands from an index on: its engine is sound and works, and
  so do the channels.\<close>

definition ready :: "int \<Rightarrow> KVStore \<Rightarrow> disk \<Rightarrow> bool" where
  "ready first kv d \<longleftrightarrow> db_inv (kv_db kv) d \<and> live (kv_db kv) \<and> faults d = [] \<and> chans_ready first kv"

definition store_view :: "KVStore \<Rightarrow> disk \<Rightarrow> bytes \<Rightarrow> slice option" where
  "store_view kv d = db_view (kv_db kv) d"

lemma applyMsg_view:
  assumes "ready i kv d"
  shows "\<exists>job kv' d' result. applyMsg \<lparr>CommandValid = True, Command = Some op, CommandIndex = i\<rparr> kv d = Done (job, kv', d') \<and>
    ready (i + 1) kv' d' \<and> store_view kv' d' = kv_apply op (store_view kv d) \<and> waitChans kv' = waitChans kv \<and>
    (\<forall>ch. waitChans kv i = Some ch \<longrightarrow> chans kv' ch = [result]) \<and> AppliedOp result = op \<and> or_Err result = None \<and>
    (Operation op = ''GET'' \<longrightarrow>
      (or_Value result, Exists result) = found_result (visible (store_view kv d (op_Key op))))"
proof -
  obtain result job db1 d1 where run: "apply_op op (kv_db kv) d = ((result, job), db1, d1)"
    by (metis prod.exhaust)
  have inv: "db_inv (kv_db kv) d" "live (kv_db kv)" "faults d = []" using assms by (simp_all add: ready_def)
  have "chans_ready i (kv\<lparr>kv_db := db1\<rparr>)" using assms by (simp add: ready_def chans_ready_def)
  from notify_ready [OF this, of result] obtain kv1 where kv1: "notify i result (kv\<lparr>kv_db := db1\<rparr>) = Done kv1"
    "chans_ready (i + 1) kv1" "kv_db kv1 = db1" "waitChans kv1 = waitChans kv"
    "\<forall>ch. waitChans kv i = Some ch \<longrightarrow> chans kv1 ch = [result]" by auto
  have "applyMsg \<lparr>CommandValid = True, Command = Some op, CommandIndex = i\<rparr> kv d = Done (job, kv1, d1)"
    using run kv1(1) by (simp add: applyMsg_def)
  moreover have "or_Err result = None" "ready (i + 1) kv1 d1" "store_view kv1 d1 = kv_apply op (store_view kv d)"
    using apply_op_live [OF inv(2,3) run] apply_op_view(1,3) [OF inv(1) run] kv1(2,3)
    by (simp_all add: ready_def store_view_def)
  ultimately show ?thesis using kv1(4,5) apply_op_view(2,5) [OF inv(1) run] by (auto simp: store_view_def)
qed

lemma applyLoop_view:
  "ready first kv d \<Longrightarrow>
   \<exists>jobs kv' d'. applyLoop (msgs_of ops first) kv d = Done (jobs, kv', d') \<and>
     ready (first + int (length ops)) kv' d' \<and> waitChans kv' = waitChans kv \<and>
     store_view kv' d' = fold kv_apply ops (store_view kv d)"
proof (induction ops arbitrary: first kv d)
  case (Cons op ops)
  obtain job kv1 d1 where one: "applyMsg \<lparr>CommandValid = True, Command = Some op, CommandIndex = first\<rparr> kv d = Done (job, kv1, d1)"
    "ready (first + 1) kv1 d1" "store_view kv1 d1 = kv_apply op (store_view kv d)" "waitChans kv1 = waitChans kv"
    using applyMsg_view [OF Cons.prems] by blast
  obtain jobs kv' d' where "applyLoop (msgs_of ops (first + 1)) kv1 d1 = Done (jobs, kv', d')"
    "ready (first + 1 + int (length ops)) kv' d'" "waitChans kv' = waitChans kv1"
    "store_view kv' d' = fold kv_apply ops (store_view kv1 d1)"
    using Cons.IH [OF one(2)] by blast
  then show ?case using one by (auto simp: add.assoc)
qed simp

lemma applyLoop_append:
  "applyLoop msgs kv d = Done (jobs, kv1, d1) \<Longrightarrow> applyLoop msgs' kv1 d1 = Done (jobs', s) \<Longrightarrow>
   applyLoop (msgs @ msgs') kv d = Done (jobs @ jobs', s)"
proof (induction msgs arbitrary: kv d jobs)
  case (Cons msg msgs)
  from Cons.prems(1) obtain job kv' d' js where "applyMsg msg kv d = Done (job, kv', d')"
    "applyLoop msgs kv' d' = Done (js, kv1, d1)" "jobs = (case job of None \<Rightarrow> js | Some j \<Rightarrow> j # js)"
    by (auto split: outcome.splits)
  with Cons.IH [OF this(2) Cons.prems(2)] show ?case by (auto split: option.splits)
qed simp

lemma msgs_of_append: "msgs_of (us @ vs) i = msgs_of us i @ msgs_of vs (i + int (length us))"
  by (induction us arbitrary: i) (simp_all add: add.assoc)

text \<open>What a channel can hold after the loop ran: the result of a command at an index it is registered for.\<close>

lemma applyMsg_chan:
  assumes "applyMsg msg kv d = Done (job, kv', d')"
  shows "waitChans kv' = waitChans kv"
    and "chans kv' ch = chans kv ch \<or> chans kv ch = [] \<and> CommandValid msg \<and> waitChans kv (CommandIndex msg) = Some ch \<and>
      (\<exists>r. chans kv' ch = [r] \<and> Command msg = Some (AppliedOp r))"
proof -
  have applied: "AppliedOp r = op" if "apply_op op db d = ((r, j), x)" for op db r j x
    using that by (auto simp: apply_op_def split: if_splits prod.splits)
  show "waitChans kv' = waitChans kv"
    using assms by (auto simp: applyMsg_def notify_def split: if_splits option.splits prod.splits outcome.splits)
  show "chans kv' ch = chans kv ch \<or> chans kv ch = [] \<and> CommandValid msg \<and> waitChans kv (CommandIndex msg) = Some ch \<and>
      (\<exists>r. chans kv' ch = [r] \<and> Command msg = Some (AppliedOp r))"
    using assms by (auto simp: applyMsg_def notify_def dest: applied split: if_splits option.splits prod.splits outcome.splits)
qed

lemma applyLoop_chan:
  "applyLoop msgs kv d = Done (jobs, kv', d') \<Longrightarrow>
   waitChans kv' = waitChans kv \<and>
   (chans kv' ch = chans kv ch \<or> chans kv ch = [] \<and> (\<exists>msg \<in> set msgs. CommandValid msg \<and>
      waitChans kv (CommandIndex msg) = Some ch \<and> (\<exists>r. chans kv' ch = [r] \<and> Command msg = Some (AppliedOp r))))"
proof (induction msgs arbitrary: kv d jobs)
  case (Cons msg msgs)
  from Cons.prems obtain job kv1 d1 js where one: "applyMsg msg kv d = Done (job, kv1, d1)"
    and rest: "applyLoop msgs kv1 d1 = Done (js, kv', d')" by (auto split: outcome.splits)
  from Cons.IH [OF rest] applyMsg_chan(1) [OF one] applyMsg_chan(2) [OF one, of ch] show ?case by auto
qed simp

end
