(* ===== verification/Store_Properties.thy ===== *)
theory Store_Properties
  imports Store Raft_Properties Stored
begin

text \<open>
  The properties of the replicated store: the engine holds the map that the applied log describes, also
  after a restart that applies the log again; a read through the log sees exactly the writes before
  it; a request only succeeds with its own command; and peers whose logs agree end with the same map.
  Two further properties show when a request is not told that its command was applied.
\<close>

section \<open>Commands of a log\<close>

definition commands :: "Op LogEntry list \<Rightarrow> nat \<Rightarrow> Op list" where
  "commands l k = map (the \<circ> le_Command) (take k (tl l))"

lemma commands_cong:
  assumes "take (Suc k) l = take (Suc k) m"
  shows "commands l k = commands m k"
proof -
  have "take k (tl l) = tl (take (Suc k) l)" for l :: "Op LogEntry list" by (cases l) simp_all
  with assms show ?thesis by (simp add: commands_def)
qed

lemma commands_split: "c \<le> k \<Longrightarrow> commands l k = commands l c @ drop c (commands l k)"
  by (metis append_take_drop_id commands_def min.absorb1 take_map take_take)

lemma msgs_of_nth:
  "k < length ops \<Longrightarrow> msgs_of ops i ! k = \<lparr>CommandValid = True, Command = Some (ops ! k), CommandIndex = i + int k\<rparr>"
  by (simp add: msgs_of_def nth_enumerate_eq)

lemma round_msgs:
  assumes "applyLoop_round rf = Some (rf', msgs)" and "0 \<le> lastApplied rf" and "lastApplied rf \<le> commitIndex rf"
    and "log_ok (log rf)"
  shows "msgs = msgs_of (drop (nat (lastApplied rf)) (commands (log rf) (nat (commitIndex rf)))) (lastApplied rf + 1)"
proof (rule nth_equalityI)
  have inside: "nat (commitIndex rf) < length (log rf)" if "lastApplied rf < commitIndex rf"
    using assms(1,2) that by (auto simp: applyLoop_round_def list_all_iff at_def split: if_splits)
  then have len: "length (commands (log rf) (nat (commitIndex rf))) = nat (commitIndex rf)" if "lastApplied rf < commitIndex rf"
    using that by (auto simp: commands_def)
  have msgs: "msgs = map (\<lambda>i. \<lparr>CommandValid = True, Command = le_Command (log rf ! nat i), CommandIndex = i\<rparr>)
      [lastApplied rf + 1..commitIndex rf]"
    using assms(1,3) by (auto simp: applyLoop_round_def split: if_splits)
  show "length msgs = length (msgs_of (drop (nat (lastApplied rf)) (commands (log rf) (nat (commitIndex rf)))) (lastApplied rf + 1))"
    using len assms(2,3) by (cases "lastApplied rf < commitIndex rf") (auto simp: msgs msgs_of_def commands_def)
  fix k assume "k < length msgs"
  then have k: "lastApplied rf < commitIndex rf" "int k < commitIndex rf - lastApplied rf" by (auto simp: msgs)
  let ?j = "nat (lastApplied rf) + k"
  have j: "?j < length (tl (log rf))" "?j < nat (commitIndex rf)" using k inside assms(2) by auto
  then obtain op where op: "le_Command (tl (log rf) ! ?j) = Some op"
    using assms(4) nth_mem [OF j(1)] unfolding log_ok_def by blast
  moreover have "log rf ! nat (lastApplied rf + 1 + int k) = tl (log rf) ! ?j"
    using j(1) assms(2) by (simp add: nth_tl nat_add_distrib)
  moreover have "commands (log rf) (nat (commitIndex rf)) ! ?j = op" using op j by (simp add: commands_def)
  ultimately show "msgs ! k = msgs_of (drop (nat (lastApplied rf)) (commands (log rf) (nat (commitIndex rf)))) (lastApplied rf + 1) ! k"
    using k len j by (simp add: msgs msgs_of_nth)
qed

section \<open>A store to start from\<close>

definition kv_example :: KVStore where
  "kv_example = \<lparr>kv_db = stored_db [], waitChans = (\<lambda>i. None), chans = (\<lambda>ch. [])\<rparr>"

lemma kv_example_ready: "ready i kv_example (stored_disk [])"
  using stored_inv [of "[]"]
  by (simp add: ready_def kv_example_def chans_ready_def live_def stored_disk_def) (simp add: stored_db_def initial_DB_def)

definition op_put :: "bytes \<Rightarrow> bytes \<Rightarrow> Op" where
  "op_put k v = newOp ''PUT'' k v 1"

section \<open>Properties\<close>



text \<open>After a restart Raft delivers the log from its first entry again, on top of an engine that
  already holds the effect of a part of it. The engine ends with the map of the whole log, as if every command
  had been applied once.\<close>

lemma replay_after_restart:
  assumes "ready 1 kv d" and "store_view kv d = fold kv_apply done m"
  shows "\<exists>jobs kv' d'. applyLoop (msgs_of (done @ rest) 1) kv d = Done (jobs, kv', d') \<and>
    store_view kv' d' = fold kv_apply (done @ rest) m"
  using applyLoop_view [OF assms(1), of "done @ rest"] kv_apply_again [of "done" rest m] unfolding assms(2) by metis


lemma ready_register:
  assumes "ready first kv d" and "\<And>i. waitChans kv i \<noteq> Some ch"
  shows "ready first (register i ch kv) d"
proof -
  have "inj_on ((waitChans kv)(i := Some ch)) (dom ((waitChans kv)(i := Some ch)))"
    if "inj_on (waitChans kv) (dom (waitChans kv))"
  proof (rule inj_onI)
    fix x y assume "x \<in> dom ((waitChans kv)(i := Some ch))" "y \<in> dom ((waitChans kv)(i := Some ch))"
      "((waitChans kv)(i := Some ch)) x = ((waitChans kv)(i := Some ch)) y"
    then show "x = y" using assms(2) [of x] assms(2) [of y] inj_onD [OF that, of x y]
      by (cases "x = i"; cases "y = i") (auto simp: dom_def)
  qed
  then show ?thesis using assms by (simp add: ready_def chans_ready_def register_def)
qed


text \<open>A write is acknowledged only if the apply loop applied, at the index the write was given,
  a command that carries its identifier and that the engine accepted.\<close>

theorem acknowledged_write_was_applied:
  assumes "\<And>i. waitChans kv i \<noteq> Some ch"
    and "applyLoop msgs (register index ch kv) d = Done (jobs, kv', d')"
    and "fst (finishWrite op index ch kv') = None"
  shows "\<exists>msg \<in> set msgs. CommandValid msg \<and> CommandIndex msg = index \<and>
    (\<exists>op'. Command msg = Some op' \<and> OpId op' = OpId op)"
proof -
  obtain r where r: "chans kv' ch = r # tl (chans kv' ch)" "OpId (AppliedOp r) = OpId op"
    using assms(3)
    by (auto simp: finishWrite_def receive_def writeResult_def split: list.splits option.splits if_splits prod.splits)
  have empty: "chans (register index ch kv) ch = []" by (simp add: register_def)
  with applyLoop_chan [OF assms(2), of ch] r(1) obtain msg r' where msg: "msg \<in> set msgs" "CommandValid msg"
    "waitChans (register index ch kv) (CommandIndex msg) = Some ch" "chans kv' ch = [r']" "Command msg = Some (AppliedOp r')"
    by auto
  moreover have "CommandIndex msg = index" using msg(3) assms(1) by (simp add: register_def split: if_splits)
  ultimately show ?thesis using r by auto
qed

text \<open>A put that is acknowledged.\<close>

lemma put_acknowledged:
  "\<exists>jobs kv' d'. applyLoop (msgs_of [op_put [1] [2]] 1) (register 1 7 kv_example) (stored_disk []) = Done (jobs, kv', d') \<and>
     fst (finishWrite (op_put [1] [2]) 1 7 kv') = None"
proof -
  have "ready 1 (register 1 7 kv_example) (stored_disk [])"
    by (rule ready_register [OF kv_example_ready]) (simp add: kv_example_def)
  from applyMsg_view [OF this, of "op_put [1] [2]"] obtain job kv' d' r where
    one: "applyMsg \<lparr>CommandValid = True, Command = Some (op_put [1] [2]), CommandIndex = 1\<rparr> (register 1 7 kv_example)
      (stored_disk []) = Done (job, kv', d')" "chans kv' 7 = [r]" "AppliedOp r = op_put [1] [2]" "or_Err r = None"
    by (auto simp: register_def)
  then obtain jobs where "applyLoop (msgs_of [op_put [1] [2]] 1) (register 1 7 kv_example) (stored_disk []) = Done (jobs, kv', d')"
    by simp
  moreover have "fst (finishWrite (op_put [1] [2]) 1 7 kv') = None"
    using one by (simp add: finishWrite_def receive_def writeResult_def)
  ultimately show ?thesis by blast
qed

text \<open>One round of an apply loop takes a store from the map of the applied commands to that of the committed ones.\<close>

lemma applied_round:
  assumes "rc.reach n s" and "2 \<le> n" and p: "i < n" "applyLoop_round (nodes s i) = Some (rf, msgs)"
    "0 \<le> lastApplied (nodes s i)" "lastApplied (nodes s i) \<le> commitIndex (nodes s i)" "ready (lastApplied (nodes s i) + 1) kv d"
    "store_view kv d = fold kv_apply (commands (log (nodes s i)) (nat (lastApplied (nodes s i)))) m"
  shows "\<exists>jobs kv' d'. applyLoop msgs kv d = Done (jobs, kv', d') \<and>
    store_view kv' d' = fold kv_apply (commands (log (nodes s i)) (nat (commitIndex (nodes s i)))) m"
proof -
  let ?c = "nat (lastApplied (nodes s i))" and ?k = "nat (commitIndex (nodes s i))"
  let ?ops = "drop ?c (commands (log (nodes s i)) ?k)"
  have "log_ok (log (nodes s i))" using shape_invD(1) [OF shape_inv_reach [OF assms(1,2)] logs_node [OF p(1)]] .
  from round_msgs [OF p(2-4) this] have "msgs = msgs_of ?ops (lastApplied (nodes s i) + 1)" .
  moreover obtain jobs kv' d' where "applyLoop (msgs_of ?ops (lastApplied (nodes s i) + 1)) kv d = Done (jobs, kv', d')"
    "store_view kv' d' = fold kv_apply ?ops (store_view kv d)" using applyLoop_view [OF p(5)] by blast
  moreover have "fold kv_apply ?ops (store_view kv d) = fold kv_apply (commands (log (nodes s i)) ?k) m"
    unfolding p(6) using p(4) by (subst (2) commands_split [of ?c ?k]) simp_all
  ultimately show ?thesis by auto
qed

text \<open>Two peers whose logs hold an entry of the same term at
  their common commit index, each with a store that holds the map of the commands its peer applied so far, hold the same
  map after one round of their apply loops. This needs no condition on the elections before.\<close>

theorem replicas_agree:
  assumes "rc.reach n s" and "2 \<le> n" and "i < n" and "j < n"
    and "commitIndex (nodes s i) = int k" and "commitIndex (nodes s j) = int k"
    and "k < length (log (nodes s i))" and "k < length (log (nodes s j))"
    and "le_Term (log (nodes s i) ! k) = le_Term (log (nodes s j) ! k)"
    and "applyLoop_round (nodes s i) = Some (rfi, msgsi)" and "applyLoop_round (nodes s j) = Some (rfj, msgsj)"
    and "lastApplied (nodes s i) = int a" and "a \<le> k" and "lastApplied (nodes s j) = int b" and "b \<le> k"
    and "ready (int a + 1) kvi di" and "ready (int b + 1) kvj dj"
    and "store_view kvi di = fold kv_apply (commands (log (nodes s i)) a) m"
    and "store_view kvj dj = fold kv_apply (commands (log (nodes s j)) b) m"
  shows "\<exists>jobsi kvi' di' jobsj kvj' dj'.
    applyLoop msgsi kvi di = Done (jobsi, kvi', di') \<and> applyLoop msgsj kvj dj = Done (jobsj, kvj', dj') \<and>
    store_view kvi' di' = fold kv_apply (commands (log (nodes s i)) k) m \<and> store_view kvj' dj' = store_view kvi' di'"
proof -
  have same: "commands (log (nodes s i)) k = commands (log (nodes s j)) k"
    using log_invD(1) [OF log_inv_reach [OF assms(1,2)] logs_node [OF assms(3)] logs_node [OF assms(4)]]
      assms(7-9) by (intro commands_cong matchingD)
  obtain jobsi kvi' di' where i: "applyLoop msgsi kvi di = Done (jobsi, kvi', di')"
    "store_view kvi' di' = fold kv_apply (commands (log (nodes s i)) k) m"
    using applied_round [OF assms(1-3,10), of kvi di m] assms(5,12,13,16,18) by auto
  obtain jobsj kvj' dj' where j: "applyLoop msgsj kvj dj = Done (jobsj, kvj', dj')"
    "store_view kvj' dj' = fold kv_apply (commands (log (nodes s j)) k) m"
    using applied_round [OF assms(1,2,4,11), of kvj dj m] assms(6,14,15,17,19) by auto
  from i j same show ?thesis by simp
qed



text \<open>Three peers after a write that all of them hold and that two have committed.\<close>

definition write_events :: "Op event list" where
  "write_events = [Campaign 0 [1, 2], Client 0 (op_put [1] [2]), Replicate 0 1 [], Replicate 0 2 [], Replicate 0 1 []]"

lemma write_reachable:
  "\<exists>s. wc.reach 3 unacked s \<and> rc.reach 3 s \<and> (\<forall>i < 2. commitIndex (nodes s i) = 1 \<and> lastApplied (nodes s i) = 0 \<and>
     log (nodes s i) = [\<lparr>le_Term = 0, le_Command = None\<rparr>, \<lparr>le_Term = 1, le_Command = Some (op_put [1] [2])\<rparr>])"
proof -
  let ?l = "[\<lparr>le_Term = 0, le_Command = None\<rparr>, \<lparr>le_Term = 1, le_Command = Some (op_put [1] [2])\<rparr>]"
  have "map_option (map (\<lambda>rf. (commitIndex rf, lastApplied rf, log rf))) (run 3 write_events (boot 3)) =
    Some [(1, 0, ?l), (1, 0, ?l), (1, 0, ?l)]"
    by code_simp
  then obtain ns where run: "run 3 write_events (boot 3) = Some ns"
    and ns: "map (\<lambda>rf. (commitIndex rf, lastApplied rf, log rf)) ns = [(1, 0, ?l), (1, 0, ?l), (1, 0, ?l)]" by auto
  have "all_campaigns unacked 3 write_events (boot 3)" by code_simp
  from boot_able [OF run this] obtain s where s: "wc.reach 3 unacked s" "\<forall>i < 3. nodes s i = ns ! i" by blast
  from ns obtain a b c where "ns = [a, b, c]" by (auto simp: map_eq_Cons_conv)
  with s wc_rc [OF s(1)] ns show ?thesis by (intro exI [of _ s]) (auto simp: less_Suc_eq numeral_eq_Suc)
qed

theorem replicas_agree_witness:
  "\<exists>s rf0 rf1 msgs0 msgs1 jobs kv d jobs' kv' d'. rc.reach 3 s \<and>
     applyLoop_round (nodes s 0) = Some (rf0, msgs0) \<and> applyLoop_round (nodes s 1) = Some (rf1, msgs1) \<and>
     applyLoop msgs0 kv_example (stored_disk []) = Done (jobs, kv, d) \<and>
     applyLoop msgs1 kv_example (stored_disk []) = Done (jobs', kv', d') \<and>
     store_view kv' d' = store_view kv d \<and> store_view kv d [1] = Some (Some [2])"
proof -
  obtain s where s: "rc.reach 3 s" "commitIndex (nodes s 0) = int 1" "commitIndex (nodes s 1) = int 1"
    "lastApplied (nodes s 0) = int 0" "lastApplied (nodes s 1) = int 0" "log (nodes s 1) = log (nodes s 0)"
    "log (nodes s 0) = [\<lparr>le_Term = 0, le_Command = None\<rparr>, \<lparr>le_Term = 1, le_Command = Some (op_put [1] [2])\<rparr>]"
    using write_reachable by (auto simp: numeral_eq_Suc less_Suc_eq)
  obtain rf0 msgs0 where r0: "applyLoop_round (nodes s 0) = Some (rf0, msgs0)"
    using s by (auto simp: applyLoop_round_def at_def)
  obtain rf1 msgs1 where r1: "applyLoop_round (nodes s 1) = Some (rf1, msgs1)"
    using s by (auto simp: applyLoop_round_def at_def)
  have ready: "ready (int 0 + 1) kv_example (stored_disk [])" by (rule kv_example_ready)
  have "\<exists>jobsi kvi' di' jobsj kvj' dj'.
    applyLoop msgs0 kv_example (stored_disk []) = Done (jobsi, kvi', di') \<and>
    applyLoop msgs1 kv_example (stored_disk []) = Done (jobsj, kvj', dj') \<and>
    store_view kvi' di' = fold kv_apply (commands (log (nodes s 0)) 1) (store_view kv_example (stored_disk [])) \<and>
    store_view kvj' dj' = store_view kvi' di'"
    by (rule replicas_agree [OF s(1) _ _ _ s(2,3) _ _ _ r0 r1 s(4) _ s(5) _ ready ready])
      (simp_all add: s(6) [simplified] s(7) commands_def)
  moreover have "fold kv_apply (commands (log (nodes s 0)) 1) m [1] = Some (Some [2])" for m
    by (simp add: s(7) commands_def kv_apply_def op_put_def newOp_def)
  ultimately show ?thesis using s(1) r0 r1 by metis
qed


text \<open>C13. An acknowledged write is never lost by the cluster. If a store reports a write as done after a round of its apply
  loop, then in the same state and in every later one, whatever peers crash or are elected in between, the command with its identifier is at its index in the log of every
  leader whose term is not older, and in the log of every peer that has committed that index. As in state-machine safety, winners of elections have no
  stale acknowledgements.\<close>

theorem acknowledged_write_is_kept:
  assumes "wc.reach n unacked s" and "(win_step unacked n)\<^sup>*\<^sup>* s s'" and "2 \<le> n" and "i < n" and "j < n"
    and "applyLoop_round (nodes s i) = Some (rf, msgs)" and "\<And>k. waitChans kv k \<noteq> Some ch"
    and "applyLoop msgs (register index ch kv) d = Done (jobs, kv', d')" and "fst (finishWrite op index ch kv') = None"
    and "state (nodes s' j) = StateLeader \<and> currentTerm (nodes s i) \<le> currentTerm (nodes s' j) \<or> index \<le> commitIndex (nodes s' j)"
  shows "nat index < length (log (nodes s' j)) \<and>
    (\<exists>op'. le_Command (log (nodes s' j) ! nat index) = Some op' \<and> OpId op' = OpId op)"
proof -
  from acknowledged_write_was_applied [OF assms(7-9)] obtain msg op' where
    msg: "msg \<in> set msgs" "CommandIndex msg = index" "Command msg = Some op'" "OpId op' = OpId op" by blast
  let ?p = "commit_prefix (nodes s i)" and ?q = "commit_prefix (nodes s' j)"
  have at: "nat index < length ?p" "le_Command (?p ! nat index) = Some op'"
    using applyLoop_round_delivers [OF assms(6) msg(1)] msg(2,3) by (cases msg; simp)+
  have kept: ?thesis if "prefix q (log (nodes s' j))" "prefix ?p q \<or> prefix q ?p \<and> nat index < length q" for q
    using that at msg(4) prefix_nth [of q "log (nodes s' j)" "nat index"] prefix_nth [of ?p q "nat index"]
      prefix_nth [of q ?p "nat index"] prefix_length_le [of q "log (nodes s' j)"] prefix_length_le [of ?p q] by auto
  from assms(10) show ?thesis
  proof
    assume "state (nodes s' j) = StateLeader \<and> currentTerm (nodes s i) \<le> currentTerm (nodes s' j)"
    then show ?thesis using commit_prefix_in_leader [OF assms(1-5)] by (intro kept [of "log (nodes s' j)"]) auto
  next
    assume idx: "index \<le> commitIndex (nodes s' j)"
    obtain H where "safe n s' H" using safe_reach [OF wc.reach_steps [OF assms(2,1)] assms(3)] by blast
    from commit_index_bounds(3) [OF this assms(5)] idx have "nat index < length ?q" by (simp add: commit_prefix_def nat_le_iff less_Suc_eq_le)
    then show ?thesis using commit_prefixes_agree [OF assms(1-5)] by (intro kept [of ?q]) (auto simp: commit_prefix_def take_is_prefix)
  qed
qed

theorem acknowledged_write_is_kept_witness:
  "\<exists>(s :: Op cluster) op'. wc.reach 3 unacked s \<and> commitIndex (nodes s 1) = 1 \<and> le_Command (log (nodes s 1) ! 1) = Some op' \<and>
     OpId op' = OpId (op_put [1] [2])"
proof -
  obtain s :: "Op cluster" where s: "wc.reach 3 unacked s" "rc.reach 3 s" "commitIndex (nodes s 0) = 1" "commitIndex (nodes s 1) = 1"
    "lastApplied (nodes s 0) = 0" "log (nodes s 0) = [\<lparr>le_Term = 0, le_Command = None\<rparr>, \<lparr>le_Term = 1, le_Command = Some (op_put [1] [2])\<rparr>]"
    using write_reachable by (auto simp: numeral_eq_Suc less_Suc_eq)
  obtain rf msgs where round: "applyLoop_round (nodes s 0) = Some (rf, msgs)" using s(3,5,6) by (auto simp: applyLoop_round_def at_def)
  have "msgs = msgs_of [op_put [1] [2]] 1"
    using round s(3,5,6) by (auto simp: applyLoop_round_def at_def upto.simps)
  then obtain jobs kv' d' where run: "applyLoop msgs (register 1 7 kv_example) (stored_disk []) = Done (jobs, kv', d')"
    "fst (finishWrite (op_put [1] [2]) 1 7 kv') = None" using put_acknowledged by blast
  have "\<And>k. waitChans kv_example k \<noteq> Some 7" by (simp add: kv_example_def)
  from acknowledged_write_is_kept [OF s(1) rtranclp.rtrancl_refl _ _ _ round this run, of 1] s(4) obtain op'
    where "le_Command (log (nodes s 1) ! 1) = Some op'" "OpId op' = OpId (op_put [1] [2])" by auto
  with s(1,4) show ?thesis by blast
qed

text \<open>C40. The wait channels are keyed by the log index alone, and a request removes the entry of its index when it
  returns. If a second request was given the same index, after a change of leadership, the return
  of the first removes the channel of the second: its command is applied, but it is told that
  the request timed out.\<close>

theorem shared_index_loses_result:
  assumes "a \<noteq> b" and "finishWrite opa index a (register index b (register index a kv)) = (err, kv1)"
    and "applyMsg \<lparr>CommandValid = True, Command = Some opb, CommandIndex = index\<rparr> kv1 d = Done (job, kv2, d2)"
  shows "\<exists>r. apply_op opb (kv_db kv) d = ((r, job), kv_db kv2, d2) \<and>
    err = Some RequestTimeout \<and> fst (finishWrite opb index b kv2) = Some RequestTimeout"
proof -
  have kv1: "waitChans kv1 index = None" "chans kv1 b = []" "kv_db kv1 = kv_db kv" "err = Some RequestTimeout"
    using assms(1,2) by (auto simp: finishWrite_def receive_def register_def unregister_def writeResult_def)
  obtain r j db1 d1 where run: "apply_op opb (kv_db kv) d = ((r, j), db1, d1)" by (metis prod.exhaust)
  have "applyMsg \<lparr>CommandValid = True, Command = Some opb, CommandIndex = index\<rparr> kv1 d =
      Done (j, kv1\<lparr>kv_db := db1\<rparr>, d1)"
    using run kv1(1,3) by (simp add: applyMsg_def notify_def)
  with assms(3) run kv1 show ?thesis by (auto simp: finishWrite_def receive_def writeResult_def)
qed

theorem shared_index_loses_result_witness:
  "\<exists>kv1 job kv2 d2. finishWrite (op_put [1] [2]) 1 7 (register 1 8 (register 1 7 kv_example)) = (Some RequestTimeout, kv1) \<and>
     applyMsg \<lparr>CommandValid = True, Command = Some (op_put [1] [3]), CommandIndex = 1\<rparr> kv1 (stored_disk []) = Done (job, kv2, d2) \<and>
     fst (finishWrite (op_put [1] [3]) 1 8 kv2) = Some RequestTimeout"
proof -
  let ?kv = "register 1 8 (register 1 7 kv_example)"
  define kv1 where "kv1 = snd (finishWrite (op_put [1] [2]) 1 7 ?kv)"
  have fin: "finishWrite (op_put [1] [2]) 1 7 ?kv = (Some RequestTimeout, kv1)"
    by (simp add: kv1_def finishWrite_def receive_def register_def writeResult_def)
  have "ready 1 (kv_example\<lparr>chans := (\<lambda>ch. [])(7 := [], 8 := [])\<rparr>) (stored_disk [])"
    using kv_example_ready [of 1] by (simp add: ready_def chans_ready_def kv_example_def)
  moreover have "kv1 = kv_example\<lparr>chans := (\<lambda>ch. [])(7 := [], 8 := [])\<rparr>"
    by (simp add: kv1_def finishWrite_def receive_def register_def unregister_def kv_example_def fun_eq_iff)
  ultimately obtain job kv2 d2 where run:
    "applyMsg \<lparr>CommandValid = True, Command = Some (op_put [1] [3]), CommandIndex = 1\<rparr> kv1 (stored_disk []) = Done (job, kv2, d2)"
    using applyMsg_view by metis
  from shared_index_loses_result [OF _ fin run] fin run show ?thesis by auto
qed

text \<open>A request registers its channel after Raft has accepted the command. If the command is applied before
  the registration, nothing wakes the request: whatever is applied at later indices while it waits, it
  reports a timeout although its command took effect.\<close>

theorem late_registration_times_out:
  assumes "\<And>i. waitChans kv i \<noteq> Some ch" and "\<forall>msg \<in> set msgs. CommandIndex msg \<noteq> index"
    and "applyLoop msgs (register index ch kv) d = Done (jobs, kv', d')"
  shows "fst (finishWrite op index ch kv') = Some RequestTimeout \<and> fst (finishRead op index ch kv') = Inl RequestTimeout"
proof -
  have "waitChans (register index ch kv) i = Some ch \<longleftrightarrow> i = index" for i
    using assms(1) by (simp add: register_def)
  with applyLoop_chan [OF assms(3), of ch] assms(2) have "chans kv' ch = chans (register index ch kv) ch" by auto
  then have "chans kv' ch = []" by (simp add: register_def)
  then show ?thesis by (simp add: finishWrite_def finishRead_def receive_def writeResult_def readResult_def)
qed

theorem late_registration_times_out_witness:
  "\<exists>job kv1 d1 jobs kv2 d2.
     applyMsg \<lparr>CommandValid = True, Command = Some (op_put [1] [2]), CommandIndex = 1\<rparr> kv_example (stored_disk []) = Done (job, kv1, d1) \<and>
     applyLoop (msgs_of [op_put [4] [5]] 2) (register 1 7 kv1) d1 = Done (jobs, kv2, d2) \<and>
     fst (finishWrite (op_put [1] [2]) 1 7 kv2) = Some RequestTimeout"
proof -
  obtain job kv1 d1 where one: "applyMsg \<lparr>CommandValid = True, Command = Some (op_put [1] [2]), CommandIndex = 1\<rparr> kv_example (stored_disk []) =
      Done (job, kv1, d1)" "ready (1 + 1) kv1 d1" "waitChans kv1 = waitChans kv_example"
    using applyMsg_view [OF kv_example_ready] by blast
  have fresh: "\<And>i. waitChans kv1 i \<noteq> Some 7" by (simp add: one(3) kv_example_def)
  have "ready 2 (register 1 7 kv1) d1" using ready_register [OF one(2) fresh] by simp
  from applyLoop_view [OF this, of "[op_put [4] [5]]"] obtain jobs kv2 d2 where
    two: "applyLoop (msgs_of [op_put [4] [5]] 2) (register 1 7 kv1) d1 = Done (jobs, kv2, d2)" by blast
  from late_registration_times_out [OF fresh _ two] one(1) two show ?thesis by auto
qed

end
