(* ===== verification/Go_Float.thy ===== *)
theory Go_Float
  imports Complex_Main "HOL-Library.Log_Nat" Go_Prelude
begin

text \<open>
  The \<^verbatim>\<open>float64\<close> of Go as far as the metrics need it: a finite number is a rational, and every operation
  rounds its exact result to 53 significant bits, to the nearest and on a tie to the even neighbour. The
  metrics convert, add, divide and compare numbers between 0 and sums of a few 64-bit integers, and no
  positive one is below \<open>2 powi - 64\<close>; so infinities, not-a-number and the numbers with a
  short mantissa below \<open>2 powi - 1022\<close> do not arise and are left out.
  The lemmas show that rounding is monotone, exact on integers up to \<open>2 ^ 53\<close>, and off by at most
  one part in \<open>2 ^ 53\<close>.
\<close>

type_synonym float64 = rat

text \<open>The exponent of a positive number: \<open>2 powi exponent q \<le> q < 2 powi (exponent q + 1)\<close>.\<close>

definition exponent :: "rat \<Rightarrow> int" where
  "exponent q =
     (case quotient_of q of (n, d) \<Rightarrow>
        let e = bitlen n - bitlen d in if 2 powi e \<le> q then e else e - 1)"

definition round_half_even :: "rat \<Rightarrow> int" where
  "round_half_even x =
     (let n = \<lfloor>x\<rfloor>; r = x - of_int n
      in if r < 1 / 2 then n else if 1 / 2 < r then n + 1 else if even n then n else n + 1)"

definition to_float64 :: "rat \<Rightarrow> float64" where
  "to_float64 q = (let u = 2 powi (exponent \<bar>q\<bar> - 52) in of_int (round_half_even (q / u)) * u)"

definition float64_of_uint64 :: "u64 \<Rightarrow> float64" where
  "float64_of_uint64 w = to_float64 (of_int (uint w))"

definition float64_of_int64 :: "64 word \<Rightarrow> float64" where
  "float64_of_int64 w = to_float64 (of_int (sint w))"

definition float64_add :: "float64 \<Rightarrow> float64 \<Rightarrow> float64" where
  "float64_add x y = to_float64 (x + y)"

definition float64_div :: "float64 \<Rightarrow> float64 \<Rightarrow> float64" where
  "float64_div x y = to_float64 (x / y)"

section \<open>The exponent\<close>

lemma bitlen_powi:
  assumes "0 < n"
  shows "2 powi (bitlen n - 1) \<le> (of_int n :: rat)" and "of_int n < (2 powi bitlen n :: rat)"
proof -
  have b: "2 ^ nat (bitlen n - 1) \<le> n" "n < 2 ^ nat (bitlen n)" "0 < bitlen n"
    using bitlen_bounds [OF assms] compute_bitlen [of n] bitlen_nonneg [of "n div 2"] assms by simp_all
  then show "2 powi (bitlen n - 1) \<le> (of_int n :: rat)"
    by (simp add: power_int_def)
  show "of_int n < (2 powi bitlen n :: rat)"
    using b by (simp add: power_int_def)
qed

lemma exponent_bounds:
  assumes "0 < q"
  shows "2 powi exponent q \<le> q" and "q < 2 powi (exponent q + 1)"
proof -
  obtain n d where nd: "quotient_of q = (n, d)" by (cases "quotient_of q")
  have q: "q = of_int n / of_int d" and d: "0 < d"
    using quotient_of_div [OF nd] quotient_of_denom_pos [OF nd] by auto
  then have n: "0 < n" using assms by (simp add: zero_less_divide_iff)
  let ?e = "bitlen n - bitlen d"
  have lower: "2 powi (?e - 1) \<le> q"
  proof -
    have "2 powi (?e - 1) = (2 powi (bitlen n - 1) :: rat) / 2 powi bitlen d"
      by (simp add: power_int_diff)
    also have "\<dots> \<le> of_int n / of_int d"
      using bitlen_powi [OF n] bitlen_powi [OF d] d n by (intro frac_le) auto
    finally show ?thesis using q by simp
  qed
  have upper: "q < 2 powi (?e + 1)"
  proof -
    have "of_int n / of_int d < (2 powi bitlen n :: rat) / 2 powi (bitlen d - 1)"
      using bitlen_powi [OF n] bitlen_powi [OF d] n by (intro frac_less) auto
    also have "\<dots> = 2 powi (?e + 1)" by (simp flip: power_int_diff add: algebra_simps)
    finally show ?thesis using q by simp
  qed
  show "2 powi exponent q \<le> q" "q < 2 powi (exponent q + 1)"
    using lower upper nd by (simp_all add: exponent_def Let_def)
qed

lemma powi_strict: "2 powi a < (2 powi b :: rat) \<longleftrightarrow> a < b"
  using power_int_strict_increasing [of a b "2 :: rat"] power_int_increasing [of b a "2 :: rat"]
  by (auto simp: not_less [symmetric])

lemma exponent_mono:
  assumes "0 < x" "x \<le> y"
  shows "exponent x \<le> exponent y"
proof -
  have "(2 :: rat) powi exponent x < 2 powi (exponent y + 1)"
    using exponent_bounds [of x] exponent_bounds [of y] assms by linarith
  then show ?thesis by (simp add: powi_strict)
qed

section \<open>Rounding to an integer\<close>

lemma round_half_even_of_int [simp]: "round_half_even (of_int i) = i"
  by (simp add: round_half_even_def)

lemma round_half_even_cases: "round_half_even x = \<lfloor>x\<rfloor> \<or> round_half_even x = \<lfloor>x\<rfloor> + 1"
  by (simp add: round_half_even_def Let_def)

lemma round_half_even_error: "\<bar>of_int (round_half_even x) - x\<bar> \<le> 1 / 2"
  using floor_correct [of x] by (auto simp: round_half_even_def Let_def)

lemma round_half_even_mono:
  assumes "x \<le> y"
  shows "round_half_even x \<le> round_half_even y"
proof (cases "\<lfloor>x\<rfloor> = \<lfloor>y\<rfloor>")
  case True
  then show ?thesis using assms by (auto simp: round_half_even_def Let_def)
next
  case False
  then have "\<lfloor>x\<rfloor> + 1 \<le> \<lfloor>y\<rfloor>" using floor_mono [OF assms] by linarith
  then show ?thesis using round_half_even_cases [of x] round_half_even_cases [of y] by linarith
qed

section \<open>Rounding to a float\<close>

lemma to_float64_zero [simp]: "to_float64 0 = 0"
  by (simp add: to_float64_def round_half_even_def)

text \<open>The result of rounding a number stays between the powers of two around it.\<close>

lemma to_float64_binade:
  assumes "0 < q"
  shows "2 powi exponent q \<le> to_float64 q" and "to_float64 q \<le> 2 powi (exponent q + 1)"
proof -
  let ?u = "2 powi (exponent q - 52) :: rat"
  have u: "0 < ?u" by simp
  have "2 powi exponent q = 2 ^ 52 * ?u" and "2 powi (exponent q + 1) = 2 ^ 53 * ?u"
    by (simp_all flip: power_int_add power_int_numeral add: add.commute)
  then have b: "of_int (2 ^ 52) * ?u = 2 powi exponent q" "of_int (2 ^ 53) * ?u = 2 powi (exponent q + 1)" by simp_all
  then have "of_int (2 ^ 52) \<le> q / ?u" "q / ?u \<le> of_int (2 ^ 53)"
    using exponent_bounds [OF assms] u by (simp_all only: pos_le_divide_eq pos_divide_le_eq less_imp_le)
  then have "2 ^ 52 \<le> round_half_even (q / ?u)" "round_half_even (q / ?u) \<le> 2 ^ 53"
    using round_half_even_mono round_half_even_of_int by metis+
  then have "(of_int (2 ^ 52) :: rat) \<le> of_int (round_half_even (q / ?u))"
    "(of_int (round_half_even (q / ?u)) :: rat) \<le> of_int (2 ^ 53)" by (simp_all only: of_int_le_iff)
  then have "of_int (2 ^ 52) * ?u \<le> to_float64 q" "to_float64 q \<le> of_int (2 ^ 53) * ?u"
    using assms u by (simp_all only: to_float64_def Let_def abs_of_pos mult_le_cancel_right_pos)
  then show "2 powi exponent q \<le> to_float64 q" "to_float64 q \<le> 2 powi (exponent q + 1)" by (simp_all only: b)
qed

lemma to_float64_nonneg: "0 \<le> q \<Longrightarrow> 0 \<le> to_float64 q"
  using to_float64_binade(1) [of q] zero_less_power_int [of "2 :: rat" "exponent q"]
  by (cases "q = 0") (simp_all add: less_le [of 0] order_trans [of 0 "2 powi exponent q"])

lemma to_float64_mono:
  assumes "0 \<le> x" "x \<le> y"
  shows "to_float64 x \<le> to_float64 y"
proof (cases "x = 0 \<or> exponent x = exponent y")
  case True
  then show ?thesis
  proof
    assume "x = 0"
    then show ?thesis using assms to_float64_nonneg by simp
  next
    assume "exponent x = exponent y"
    then show ?thesis using assms
      by (auto simp: to_float64_def Let_def intro!: mult_right_mono round_half_even_mono divide_right_mono)
  qed
next
  case False
  then have "0 < x" "exponent x + 1 \<le> exponent y" using assms exponent_mono [of x y] by auto
  then have "to_float64 x \<le> 2 powi (exponent x + 1)" "(2 :: rat) powi (exponent x + 1) \<le> 2 powi exponent y"
    "2 powi exponent y \<le> to_float64 y"
    using assms to_float64_binade [of x] to_float64_binade [of y] by (auto intro: power_int_increasing)
  then show ?thesis by linarith
qed

text \<open>A number with at most 53 significant bits is kept as it is.\<close>

lemma to_float64_exact:
  assumes "q = of_int m * 2 powi k" and "\<bar>m\<bar> < 2 ^ 53"
  shows "to_float64 q = q"
proof (cases "m = 0")
  case False
  let ?e = "exponent \<bar>q\<bar>"
  have pos: "0 < \<bar>q\<bar>" using assms(1) False by simp
  have "2 powi ?e \<le> \<bar>q\<bar>" using exponent_bounds(1) [OF pos] .
  also have "\<dots> = of_int \<bar>m\<bar> * 2 powi k" using assms(1) by (simp add: abs_mult)
  also have "\<dots> < of_int (2 ^ 53) * 2 powi k"
    using assms(2) by (intro mult_strict_right_mono) (simp_all only: of_int_less_iff, simp)
  also have "\<dots> = (2 powi (k + 53) :: rat)" by (simp add: power_int_add)
  finally have le: "?e - 52 \<le> k" by (simp add: powi_strict)
  have "q / 2 powi (?e - 52) = of_int m * 2 powi (k - (?e - 52))"
    using assms(1) by (simp add: power_int_diff)
  also have "\<dots> = of_int (m * 2 ^ nat (k - (?e - 52)))" using le by (simp add: power_int_def)
  finally have "round_half_even (q / 2 powi (?e - 52)) = m * 2 ^ nat (k - (?e - 52))"
    by (simp only: round_half_even_of_int)
  then have "to_float64 q = of_int (m * 2 ^ nat (k - (?e - 52))) * 2 powi (?e - 52)"
    by (simp add: to_float64_def Let_def)
  also have "\<dots> = of_int m * (2 powi (k - (?e - 52)) * 2 powi (?e - 52))" using le by (simp add: power_int_def)
  also have "\<dots> = q" using assms(1) by (simp flip: power_int_add)
  finally show ?thesis .
qed (use assms in simp)

lemma to_float64_of_int: "\<bar>m\<bar> < 2 ^ 53 \<Longrightarrow> to_float64 (of_int m) = of_int m"
  using to_float64_exact [of "of_int m" m 0] by simp

text \<open>Rounding is off by at most one part in \<open>2 ^ 53\<close>.\<close>

lemma to_float64_error: "\<bar>to_float64 q - q\<bar> \<le> \<bar>q\<bar> / 2 ^ 53"
proof (cases "q = 0")
  case False
  let ?u = "2 powi (exponent \<bar>q\<bar> - 52) :: rat"
  have "to_float64 q - q = (of_int (round_half_even (q / ?u)) - q / ?u) * ?u"
    by (simp add: to_float64_def Let_def left_diff_distrib)
  then have "\<bar>to_float64 q - q\<bar> = \<bar>of_int (round_half_even (q / ?u)) - q / ?u\<bar> * ?u" by (simp add: abs_mult)
  also have "\<dots> \<le> 1 / 2 * ?u" by (intro mult_right_mono round_half_even_error) simp
  also have "\<dots> = 2 powi exponent \<bar>q\<bar> / 2 ^ 53" by (simp add: power_int_diff)
  also have "\<dots> \<le> \<bar>q\<bar> / 2 ^ 53" using exponent_bounds(1) [of "\<bar>q\<bar>"] False by (intro divide_right_mono) auto
  finally show ?thesis .
qed simp

lemma float64_of_uint64_mono: "x \<le> y \<Longrightarrow> float64_of_uint64 x \<le> float64_of_uint64 y"
  unfolding float64_of_uint64_def by (intro to_float64_mono) (simp_all only: word_le_def of_int_le_iff of_int_0_le_iff uint_ge_0)

lemma float64_of_uint64_nonneg [simp]: "0 \<le> float64_of_uint64 x"
  unfolding float64_of_uint64_def by (intro to_float64_nonneg) (simp only: of_int_0_le_iff uint_ge_0)

lemma float64_div_mono: "0 \<le> x \<Longrightarrow> x \<le> y \<Longrightarrow> 0 < z \<Longrightarrow> float64_div x z \<le> float64_div y z"
  by (simp add: float64_div_def to_float64_mono divide_right_mono)

lemma float64_div_nonneg: "0 \<le> x \<Longrightarrow> 0 \<le> z \<Longrightarrow> 0 \<le> float64_div x z"
  by (simp add: float64_div_def to_float64_nonneg)

lemma float64_add_ge: "0 \<le> x \<Longrightarrow> 0 \<le> y \<Longrightarrow> to_float64 x = x \<Longrightarrow> x \<le> float64_add x y"
  using to_float64_mono [of x "x + y"] by (simp add: float64_add_def)

end
