(* ===== verification/Requests.thy ===== *)
theory Requests
  imports Store
begin

text \<open>
  The requests of \<^verbatim>\<open>internal/store/store.go\<close> from their call to their return, on the nodes of one
  process. A node is a peer, its store and its disk. While a request waits, the rest of the process
  runs; what it does is the argument \<open>env\<close> of a call, once between the acceptance of the command and the
  registration of the channel, and once until the request wakes up or gives up. The lemmas show what the
  requests return on every path, and that a node that is not leader refuses a request without any effect.
\<close>

record Node =
  n_rf :: "Op Raft"
  n_kv :: KVStore
  n_disk :: disk

datatype moment = BeforeRegister | WhileWaiting

record call =
  c_now :: int
  c_chan :: nat
  c_env :: "moment \<Rightarrow> int \<Rightarrow> Node list \<Rightarrow> Node list"

definition with_kv :: "nat \<Rightarrow> (KVStore \<Rightarrow> KVStore) \<Rightarrow> Node list \<Rightarrow> Node list" where
  "with_kv i f nds = nds[i := (nds ! i)\<lparr>n_kv := f (n_kv (nds ! i))\<rparr>]"

text \<open>The part the three requests share: submit, register, wait.\<close>

definition await :: "Op \<Rightarrow> nat \<Rightarrow> call \<Rightarrow> Node list \<Rightarrow> (store_error + int) \<times> Node list" where
  "await op i c nds =
     (case submit op (n_rf (nds ! i)) of
        (rf, Inl e) \<Rightarrow> (Inl e, nds[i := (nds ! i)\<lparr>n_rf := rf\<rparr>])
      | (rf, Inr index) \<Rightarrow>
          (Inr index,
           c_env c WhileWaiting index
             (with_kv i (register index (c_chan c))
               (c_env c BeforeRegister index (nds[i := (nds ! i)\<lparr>n_rf := rf\<rparr>])))))"

definition KVStore_Put :: "nat \<Rightarrow> bytes \<Rightarrow> bytes \<Rightarrow> call \<Rightarrow> Node list \<Rightarrow> store_error option \<times> Node list" where
  "KVStore_Put i key val c nds =
     (let op = newOp ''PUT'' key val (c_now c)
      in case await op i c nds of
           (Inl e, nds1) \<Rightarrow> (Some e, nds1)
         | (Inr index, nds1) \<Rightarrow>
             (case finishWrite op index (c_chan c) (n_kv (nds1 ! i)) of
                (err, kv) \<Rightarrow> (err, with_kv i (\<lambda>_. kv) nds1)))"

definition KVStore_Delete :: "nat \<Rightarrow> bytes \<Rightarrow> call \<Rightarrow> Node list \<Rightarrow> store_error option \<times> Node list" where
  "KVStore_Delete i key c nds =
     (let op = newOp ''DELETE'' key [] (c_now c)
      in case await op i c nds of
           (Inl e, nds1) \<Rightarrow> (Some e, nds1)
         | (Inr index, nds1) \<Rightarrow>
             (case finishWrite op index (c_chan c) (n_kv (nds1 ! i)) of
                (err, kv) \<Rightarrow> (err, with_kv i (\<lambda>_. kv) nds1)))"

definition KVStore_Get :: "nat \<Rightarrow> bytes \<Rightarrow> call \<Rightarrow> Node list \<Rightarrow> (store_error + bytes \<times> bool) \<times> Node list" where
  "KVStore_Get i key c nds =
     (let op = newOp ''GET'' key [] (c_now c)
      in case await op i c nds of
           (Inl e, nds1) \<Rightarrow> (Inl e, nds1)
         | (Inr index, nds1) \<Rightarrow>
             (case finishRead op index (c_chan c) (n_kv (nds1 ! i)) of
                (r, kv) \<Rightarrow> (r, with_kv i (\<lambda>_. kv) nds1)))"

definition KVStore_GetLocal :: "nat \<Rightarrow> bytes \<Rightarrow> Node list \<Rightarrow> (store_error + bytes \<times> bool) \<times> Node list" where
  "KVStore_GetLocal i key nds =
     (case GetLocalIfLeader key (n_rf (nds ! i)) (n_kv (nds ! i)) (n_disk (nds ! i)) of
        (r, kv) \<Rightarrow> (r, with_kv i (\<lambda>_. kv) nds))"

section \<open>Lemmas\<close>

definition leads :: "Node \<Rightarrow> bool" where
  "leads nd \<longleftrightarrow> state (n_rf nd) = StateLeader"

lemma submit_refused [simp]: "state rf \<noteq> StateLeader \<Longrightarrow> submit op rf = (rf, Inl NotLeader)"
  by (simp add: submit_def Start_def)

lemma submit_accepted: "state rf = StateLeader \<Longrightarrow> \<exists>rf' index. submit op rf = (rf', Inr index)"
  by (simp add: submit_def Start_def Let_def)

lemma same_node [simp]:
  "nds[i := (nds ! i)\<lparr>n_rf := n_rf (nds ! i)\<rparr>] = nds" "with_kv i (\<lambda>_. n_kv (nds ! i)) nds = nds"
  by (simp_all add: with_kv_def)

text \<open>A node that is not leader refuses and nothing changes.\<close>

lemma refused:
  assumes "\<not> leads (nds ! i)"
  shows "KVStore_Put i key val c nds = (Some NotLeader, nds)"
    and "KVStore_Delete i key c nds = (Some NotLeader, nds)"
    and "KVStore_Get i key c nds = (Inl NotLeader, nds)"
    and "KVStore_GetLocal i key nds = (Inl NotLeader, nds)"
  using assms
  by (simp_all add: leads_def KVStore_Put_def KVStore_Delete_def KVStore_Get_def KVStore_GetLocal_def
      await_def GetLocalIfLeader_def GetState_def Let_def)

text \<open>A node that is leader never answers that it is not.\<close>

lemma writeResult_leader: "writeResult op r \<noteq> Some NotLeader"
  by (auto simp: writeResult_def split: option.splits if_splits)

lemma readResult_leader: "readResult op r \<noteq> Inl NotLeader"
  by (auto simp: readResult_def split: option.splits if_splits)

lemma await_accepted: "leads (nds ! i) \<Longrightarrow> \<exists>index nds1. await op i c nds = (Inr index, nds1)"
  using submit_accepted [of "n_rf (nds ! i)" op] by (auto simp: leads_def await_def)

lemma accepted:
  assumes "leads (nds ! i)"
  shows "fst (KVStore_Put i key val c nds) \<noteq> Some NotLeader"
    and "fst (KVStore_Delete i key c nds) \<noteq> Some NotLeader"
    and "fst (KVStore_Get i key c nds) \<noteq> Inl NotLeader"
    and "fst (KVStore_GetLocal i key nds) \<noteq> Inl NotLeader"
proof -
  have w: "fst (finishWrite op index ch kv) \<noteq> Some NotLeader" for op index ch kv
    using writeResult_leader by (simp add: finishWrite_def split: prod.splits)
  have r: "fst (finishRead op index ch kv) \<noteq> Inl NotLeader" for op index ch kv
    using readResult_leader by (simp add: finishRead_def split: prod.splits)
  have put: "\<exists>index nds1. await (newOp ''PUT'' key val (c_now c)) i c nds = (Inr index, nds1)"
    and del: "\<exists>index nds1. await (newOp ''DELETE'' key [] (c_now c)) i c nds = (Inr index, nds1)"
    and get: "\<exists>index nds1. await (newOp ''GET'' key [] (c_now c)) i c nds = (Inr index, nds1)"
    using await_accepted [OF assms] by blast+
  show "fst (KVStore_Put i key val c nds) \<noteq> Some NotLeader"
    using put w by (auto simp: KVStore_Put_def Let_def split: prod.splits) (metis fst_conv)
  show "fst (KVStore_Delete i key c nds) \<noteq> Some NotLeader"
    using del w by (auto simp: KVStore_Delete_def Let_def split: prod.splits) (metis fst_conv)
  show "fst (KVStore_Get i key c nds) \<noteq> Inl NotLeader"
    using get r by (auto simp: KVStore_Get_def Let_def split: prod.splits) (metis fst_conv)
  show "fst (KVStore_GetLocal i key nds) \<noteq> Inl NotLeader"
    using assms by (simp add: KVStore_GetLocal_def GetLocalIfLeader_def GetState_def leads_def split: prod.splits)
qed

end
