(* ===== verification/Gateway.thy ===== *)
theory Gateway
  imports Requests Go_Strings
begin

text \<open>
  The HTTP gateway of \<^verbatim>\<open>internal/api/server.go\<close>: the handlers of the three key-value routes, which ask the
  nodes in turn until one accepts the request, the counters, and the choice of the node for a forced election.
  The body of a \<^verbatim>\<open>PUT\<close> arrives as the JSON binding of the web framework leaves it, an error text or a key
  and a value; \<open>engine_msg\<close> gives the text of an engine error. Texts are ASCII. Console output is left out.

  The lemmas show that a handler has the effect of one request to the first node that believes to
  be leader, and of none if there is no such node.
\<close>

fun strings_Contains :: "string \<Rightarrow> string \<Rightarrow> bool" where
  "strings_Contains [] sub \<longleftrightarrow> sub = []"
| "strings_Contains (c # cs) sub \<longleftrightarrow> take (length sub) (c # cs) = sub \<or> strings_Contains cs sub"

definition lower_char :: "char \<Rightarrow> char" where
  "lower_char c =
     (if 65 \<le> (of_char c :: nat) \<and> (of_char c :: nat) \<le> 90 then char_of ((of_char c :: nat) + 32) else c)"

definition strings_ToLower :: "string \<Rightarrow> string" where
  "strings_ToLower s = map lower_char s"

record gatewayMetrics =
  requestTotal :: u64
  putTotal :: u64
  gw_getTotal :: u64
  deleteTotal :: u64
  http500Total :: u64
  http503Total :: u64
  requestTimeoutTotal :: u64
  leadershipChangedBeforeCommitTotal :: u64
  notLeaderTotal :: u64

datatype json = JText string | JBytes bytes | JInt int | JBool bool

record response =
  status :: nat
  body :: "(string \<times> json) list"

definition readModeRaft :: string where "readModeRaft = ''raft''"

definition readModeLocal :: string where "readModeLocal = ''local''"

definition error_text :: "(go_error \<Rightarrow> string) \<Rightarrow> store_error \<Rightarrow> string" where
  "error_text engine_msg e =
     (case e of
        NotLeader \<Rightarrow> ''not leader''
      | LeadershipChanged \<Rightarrow> ''leadership changed before commit''
      | RequestTimeout \<Rightarrow> ''request timeout''
      | EngineError ge \<Rightarrow> engine_msg ge)"

definition observeStoreError :: "string \<Rightarrow> gatewayMetrics \<Rightarrow> gatewayMetrics" where
  "observeStoreError err m =
     (let msg = strings_ToLower err;
          m = (if strings_Contains msg ''not leader'' then m\<lparr>notLeaderTotal := notLeaderTotal m + 1\<rparr> else m);
          m = (if strings_Contains msg ''request timeout''
               then m\<lparr>requestTimeoutTotal := requestTimeoutTotal m + 1\<rparr> else m)
      in if strings_Contains msg ''leadership changed before commit''
         then m\<lparr>leadershipChangedBeforeCommitTotal := leadershipChangedBeforeCommitTotal m + 1\<rparr> else m)"

text \<open>The loop over the nodes that the handlers share. \<open>ask\<close> is the request to one node, \<open>answer\<close> the response to
  its success.\<close>

fun poll ::
  "(go_error \<Rightarrow> string) \<Rightarrow> (nat \<Rightarrow> Node list \<Rightarrow> (store_error + 'a) \<times> Node list) \<Rightarrow> (nat \<Rightarrow> 'a \<Rightarrow> response) \<Rightarrow>
   nat list \<Rightarrow> gatewayMetrics \<Rightarrow> Node list \<Rightarrow> response \<times> gatewayMetrics \<times> Node list"
where
  "poll em ask answer [] m nds =
     (\<lparr>status = 503, body = [(''error'', JText ''Cluster has no leader right now'')]\<rparr>, m, nds)"
| "poll em ask answer (i # is) m nds =
     (case ask i nds of
        (Inr r, nds') \<Rightarrow> (answer i r, m, nds')
      | (Inl e, nds') \<Rightarrow>
          if strings_Contains (error_text em e) ''not leader''
          then poll em ask answer is (observeStoreError (error_text em e) m) nds'
          else (\<lparr>status = 500, body = [(''error'', JText (error_text em e))]\<rparr>,
                observeStoreError (error_text em e) m, nds'))"

definition ask_write :: "store_error option \<times> Node list \<Rightarrow> (store_error + unit) \<times> Node list" where
  "ask_write r = (case r of (None, nds) \<Rightarrow> (Inr (), nds) | (Some e, nds) \<Rightarrow> (Inl e, nds))"

definition handlePut ::
  "(go_error \<Rightarrow> string) \<Rightarrow> (nat \<Rightarrow> call) \<Rightarrow> string + bytes \<times> bytes \<Rightarrow> gatewayMetrics \<Rightarrow> Node list \<Rightarrow>
   response \<times> gatewayMetrics \<times> Node list"
where
  "handlePut em c bound m nds =
     (let m = m\<lparr>requestTotal := requestTotal m + 1, putTotal := putTotal m + 1\<rparr>
      in case bound of
           Inl err \<Rightarrow> (\<lparr>status = 400, body = [(''error'', JText err)]\<rparr>, m, nds)
         | Inr (key, val) \<Rightarrow>
             poll em (\<lambda>i nds. ask_write (KVStore_Put i key val (c i) nds))
               (\<lambda>i _. \<lparr>status = 200, body = [(''status'', JText ''success''), (''leader'', JInt (int i))]\<rparr>)
               [0..<length nds] m nds)"

definition getByReadMode :: "nat \<Rightarrow> bytes \<Rightarrow> string \<Rightarrow> call \<Rightarrow> Node list \<Rightarrow> (store_error + bytes \<times> bool) \<times> Node list" where
  "getByReadMode i key readMode c nds =
     (if readMode = readModeLocal then KVStore_GetLocal i key nds else KVStore_Get i key c nds)"

definition get_answer :: "string \<Rightarrow> nat \<Rightarrow> bytes \<times> bool \<Rightarrow> response" where
  "get_answer readMode i r =
     (case r of (val, exists) \<Rightarrow>
        if \<not> exists
        then \<lparr>status = 404, body = [(''error'', JText ''key not found''), (''leader'', JInt (int i)),
                                    (''read_mode'', JText readMode)]\<rparr>
        else \<lparr>status = 200, body = [(''value'', JBytes val), (''leader'', JInt (int i)),
                                    (''read_mode'', JText readMode)]\<rparr>)"

definition handleGet ::
  "(go_error \<Rightarrow> string) \<Rightarrow> (nat \<Rightarrow> call) \<Rightarrow> bytes \<Rightarrow> string \<Rightarrow> gatewayMetrics \<Rightarrow> Node list \<Rightarrow>
   response \<times> gatewayMetrics \<times> Node list"
where
  "handleGet em c key readMode m nds =
     (let m = m\<lparr>requestTotal := requestTotal m + 1, gw_getTotal := gw_getTotal m + 1\<rparr>
      in if readMode \<noteq> readModeRaft \<and> readMode \<noteq> readModeLocal
         then (\<lparr>status = 400, body = [(''error'', JText ''invalid readMode, expected raft or local'')]\<rparr>, m, nds)
         else poll em (\<lambda>i. getByReadMode i key readMode (c i)) (get_answer readMode) [0..<length nds] m nds)"

definition handleDelete ::
  "(go_error \<Rightarrow> string) \<Rightarrow> (nat \<Rightarrow> call) \<Rightarrow> bytes \<Rightarrow> gatewayMetrics \<Rightarrow> Node list \<Rightarrow> response \<times> gatewayMetrics \<times> Node list"
where
  "handleDelete em c key m nds =
     (let m = m\<lparr>requestTotal := requestTotal m + 1, deleteTotal := deleteTotal m + 1\<rparr>
      in poll em (\<lambda>i nds. ask_write (KVStore_Delete i key (c i) nds))
           (\<lambda>i _. \<lparr>status = 200, body = [(''status'', JText ''deleted''), (''leader'', JInt (int i))]\<rparr>)
           [0..<length nds] m nds)"

text \<open>The middleware that counts the failures after the handler.\<close>

definition count_status :: "response \<times> gatewayMetrics \<times> Node list \<Rightarrow> response \<times> gatewayMetrics \<times> Node list" where
  "count_status r =
     (case r of (resp, m, nds) \<Rightarrow>
        let m = (if status resp = 500 then m\<lparr>http500Total := http500Total m + 1\<rparr> else m);
            m = (if status resp = 503 then m\<lparr>http503Total := http503Total m + 1\<rparr> else m)
        in (resp, m, nds))"

section \<open>Forced elections\<close>

text \<open>\<^verbatim>\<open>strconv.Atoi\<close>: a sign and decimal digits within 64 bits.\<close>

definition Atoi :: "string \<Rightarrow> int option" where
  "Atoi s =
     (let neg = (s \<noteq> [] \<and> hd s = CHR ''-'');
          ds = (if s \<noteq> [] \<and> (hd s = CHR ''-'' \<or> hd s = CHR ''+'') then tl s else s)
      in if ds = [] \<or> \<not> list_all is_digit ds then None
         else let v = (if neg then - int (dec_val ds) else int (dec_val ds))
              in if - (2 ^ 63) \<le> v \<and> v < 2 ^ 63 then Some v else None)"

definition FormatInt :: "int \<Rightarrow> string" where
  "FormatInt v = (if v < 0 then CHR ''-'' # FormatUint (nat (- v)) else FormatUint (nat v))"

definition chooseForceElectionTarget :: "string \<Rightarrow> Node list \<Rightarrow> string + nat" where
  "chooseForceElectionTarget rawNode nds =
     (if rawNode \<noteq> [] then
        (case Atoi rawNode of
           None \<Rightarrow> Inl (''invalid node: '' @ rawNode)
         | Some node \<Rightarrow>
             if node < 0 \<or> node \<ge> int (length nds) then Inl (''node out of range: '' @ FormatInt node) else Inr (nat node))
      else case filter (\<lambda>i. state (n_rf (nds ! i)) \<noteq> StateLeader) [0..<length nds] of
             i # _ \<Rightarrow> Inr i
           | [] \<Rightarrow> if length nds = 0 then Inl ''no raft nodes available'' else Inr 0)"

section \<open>What a poll does\<close>

lemma text_not_leader:
  assumes "\<And>ge. \<not> strings_Contains (em ge) ''not leader''"
  shows "strings_Contains (error_text em e) ''not leader'' \<longleftrightarrow> e = NotLeader"
  using assms by (cases e) (simp_all add: error_text_def)

definition first_leader :: "nat list \<Rightarrow> Node list \<Rightarrow> nat option" where
  "first_leader is nds = List.find (\<lambda>i. leads (nds ! i)) is"

text \<open>The number of nodes that refuse before the first leader.\<close>

definition refusals :: "nat list \<Rightarrow> Node list \<Rightarrow> nat" where
  "refusals is nds = length (takeWhile (\<lambda>i. \<not> leads (nds ! i)) is)"

lemma observe_not_leader: "observeStoreError ''not leader'' m = m\<lparr>notLeaderTotal := notLeaderTotal m + 1\<rparr>"
  by (simp add: observeStoreError_def strings_ToLower_def lower_char_def)

text \<open>One request to the first leader.\<close>

definition ask_leader ::
  "(go_error \<Rightarrow> string) \<Rightarrow> (nat \<Rightarrow> Node list \<Rightarrow> (store_error + 'a) \<times> Node list) \<Rightarrow> (nat \<Rightarrow> 'a \<Rightarrow> response) \<Rightarrow>
   nat option \<Rightarrow> gatewayMetrics \<Rightarrow> Node list \<Rightarrow> response \<times> gatewayMetrics \<times> Node list"
where
  "ask_leader em ask answer leader m nds =
     (case leader of
        None \<Rightarrow> (\<lparr>status = 503, body = [(''error'', JText ''Cluster has no leader right now'')]\<rparr>, m, nds)
      | Some i \<Rightarrow>
          (case ask i nds of
             (Inr r, nds') \<Rightarrow> (answer i r, m, nds')
           | (Inl e, nds') \<Rightarrow> (\<lparr>status = 500, body = [(''error'', JText (error_text em e))]\<rparr>,
                             observeStoreError (error_text em e) m, nds')))"

lemma poll_ask_leader:
  assumes em: "\<And>ge. \<not> strings_Contains (em ge) ''not leader''"
    and refuse: "\<And>i. \<not> leads (nds ! i) \<Longrightarrow> ask i nds = (Inl NotLeader, nds)"
    and accept: "\<And>i. leads (nds ! i) \<Longrightarrow> fst (ask i nds) \<noteq> Inl NotLeader"
  shows "poll em ask answer is m nds =
    ask_leader em ask answer (first_leader is nds)
      (m\<lparr>notLeaderTotal := notLeaderTotal m + of_nat (refusals is nds)\<rparr>) nds"
proof (induction "is" arbitrary: m)
  case Nil
  then show ?case by (simp add: ask_leader_def first_leader_def refusals_def)
next
  case (Cons i "is")
  show ?case
  proof (cases "leads (nds ! i)")
    case True
    obtain r nds' where ask: "ask i nds = (r, nds')" by (rule prod.exhaust)
    then have "r \<noteq> Inl NotLeader" using accept [OF True] by simp
    then show ?thesis using True ask text_not_leader [of em, OF em]
      by (cases r) (simp_all add: ask_leader_def first_leader_def refusals_def)
  next
    case False
    have "error_text em NotLeader = ''not leader''" by (simp add: error_text_def)
    then have "poll em ask answer (i # is) m nds = poll em ask answer is (m\<lparr>notLeaderTotal := notLeaderTotal m + 1\<rparr>) nds"
      using refuse [OF False] text_not_leader [of em NotLeader, OF em] by (simp add: observe_not_leader)
    also have "\<dots> = ask_leader em ask answer (first_leader (i # is) nds)
        (m\<lparr>notLeaderTotal := notLeaderTotal m + of_nat (refusals (i # is) nds)\<rparr>) nds"
      using False by (simp add: Cons.IH first_leader_def refusals_def add.assoc)
    finally show ?thesis .
  qed
qed

lemma ask_write_refused: "\<not> leads (nds ! i) \<Longrightarrow> ask_write (KVStore_Put i key val c nds) = (Inl NotLeader, nds)"
  "\<not> leads (nds ! i) \<Longrightarrow> ask_write (KVStore_Delete i key c nds) = (Inl NotLeader, nds)"
  by (simp_all add: refused ask_write_def)

lemma ask_write_accepted: "fst r \<noteq> Some NotLeader \<Longrightarrow> fst (ask_write r) \<noteq> Inl NotLeader"
  by (auto simp: ask_write_def split: option.splits prod.splits)

section \<open>Counters\<close>

definition counts_add_up :: "gatewayMetrics \<Rightarrow> bool" where
  "counts_add_up m \<longleftrightarrow> requestTotal m = putTotal m + gw_getTotal m + deleteTotal m"

lemma observe_keeps [simp]: "counts_add_up (observeStoreError err m) \<longleftrightarrow> counts_add_up m"
  by (simp add: observeStoreError_def counts_add_up_def Let_def)

lemma poll_keeps: "counts_add_up (fst (snd (poll em ask answer is m nds))) \<longleftrightarrow> counts_add_up m"
  by (induction em ask answer "is" m nds rule: poll.induct) (auto split: prod.splits sum.splits)

lemma count_status_keeps: "counts_add_up (fst (snd (count_status r))) \<longleftrightarrow> counts_add_up (fst (snd r))"
  by (simp add: count_status_def counts_add_up_def Let_def split: prod.splits)

end
