(* ===== verification/Diagnostics.thy ===== *)
theory Diagnostics
  imports Go_Float Gateway
begin

text \<open>
  The diagnostic routes of the gateway: the metrics of one peer (\<^verbatim>\<open>DebugMetrics\<close> of
  \<^verbatim>\<open>raft.go\<close> and of \<^verbatim>\<open>metrics.go\<close>), their aggregation over the nodes (\<^verbatim>\<open>buildDebugMetrics\<close>), the forced
  election, and the dispatch of requests to the handlers. Averages and milliseconds are \<open>float64\<close>. The clock, the memory
  statistics of the runtime and the time that each write of a peer's state took are an \<open>environment\<close>.
\<close>

section \<open>Durations\<close>

text \<open>The constant \<^verbatim>\<open>time.Millisecond\<close> is \<open>10 ^ 6\<close> and exact as a float.\<close>

definition nsToMS :: "u64 \<Rightarrow> float64" where
  "nsToMS ns = float64_div (float64_of_uint64 ns) 1000000"

text \<open>The end of \<^verbatim>\<open>persist\<close>: the total and the maximum of the times that writes took, in signed 64-bit nanoseconds.
  \<open>elapsed k\<close> is the time of the \<open>k\<close>-th write of this process. The other fields of a peer do not
  depend on these two, so they are computed from the number of writes and not kept with the peer.\<close>

definition persist_time :: "64 word \<Rightarrow> 64 word \<times> 64 word \<Rightarrow> 64 word \<times> 64 word" where
  "persist_time elapsed t =
     (case t of (sumNs, longest) \<Rightarrow> (sumNs + elapsed, if sint elapsed > sint longest then elapsed else longest))"

definition persist_times :: "(nat \<Rightarrow> 64 word) \<Rightarrow> 'c Raft \<Rightarrow> 64 word \<times> 64 word" where
  "persist_times elapsed rf = fold (\<lambda>k. persist_time (elapsed k)) [0..<unat (raftPersistCount rf)] (0, 0)"

section \<open>Metrics of one node\<close>

record RaftMetrics =
  NodeID :: nat
  IsLeader :: bool
  CurrentTerm :: int
  LeaderChangeTotal :: u64
  ElectionStartedTotal :: u64
  TermChangeTotal :: u64
  AppendEntriesFailedTotal :: u64
  RaftPersistCount :: u64
  RaftPersistTotalMS :: float64
  RaftPersistMaxMS :: float64
  CommitIndex :: int
  LastApplied :: int
  LogLength :: nat

text \<open>What the library reports on the runtime; \<^verbatim>\<open>PauseNs\<close> is a ring of the last 256 pauses.\<close>

record MemStats =
  ms_HeapAlloc :: u64
  ms_NumGC :: "32 word"
  ms_PauseTotalNs :: u64
  ms_PauseNs :: "u64 list"

record runtimeMetricsSnapshot =
  GoroutineNum :: nat
  HeapAlloc :: u64
  NumGC :: "32 word"
  PauseTotalNS :: u64
  LastGCPauseNS :: u64

definition readRuntimeMetrics :: "MemStats \<Rightarrow> nat \<Rightarrow> runtimeMetricsSnapshot" where
  "readRuntimeMetrics mem goroutines =
     \<lparr>GoroutineNum = goroutines, HeapAlloc = ms_HeapAlloc mem, NumGC = ms_NumGC mem,
      PauseTotalNS = ms_PauseTotalNs mem,
      LastGCPauseNS = (if ms_NumGC mem > 0 then ms_PauseNs mem ! unat ((ms_NumGC mem + 255) mod 256) else 0)\<rparr>"

definition Raft_DebugMetrics :: "(nat \<Rightarrow> 64 word) \<Rightarrow> 'c Raft \<Rightarrow> RaftMetrics" where
  "Raft_DebugMetrics elapsed rf =
     \<lparr>NodeID = me rf, IsLeader = (state rf = StateLeader), CurrentTerm = currentTerm rf,
      LeaderChangeTotal = leaderChangeTotal rf, ElectionStartedTotal = electionStartedTotal rf,
      TermChangeTotal = termChangeTotal rf, AppendEntriesFailedTotal = appendEntriesFailedTotal rf,
      RaftPersistCount = raftPersistCount rf,
      RaftPersistTotalMS = float64_div (float64_of_int64 (fst (persist_times elapsed rf))) 1000000,
      RaftPersistMaxMS = float64_div (float64_of_int64 (snd (persist_times elapsed rf))) 1000000,
      CommitIndex = commitIndex rf, LastApplied = lastApplied rf,
      LogLength = length (log rf)\<rparr>"

record DebugMetrics =
  CompactionEnabled :: bool
  GetTotal :: u64
  GetSSTableFilesTouchedTotal :: u64
  GetSSTableFilesTouchedAvg :: float64
  GetSSTableFilesTouchedMax :: u64
  CompactionTotal :: u64
  CompactionInputFilesTotal :: u64
  CompactionOutputFilesTotal :: u64
  CompactionTotalMS :: float64
  CompactionMaxMS :: float64
  CompactionLastMS :: float64
  CompactionFailedTotal :: u64
  SSTableCount :: nat

text \<open>The average of a total over a count; without this guard the quotient would be not a number.\<close>

definition touched_avg :: "u64 \<Rightarrow> u64 \<Rightarrow> float64" where
  "touched_avg touched gets =
     (if gets > 0 then float64_div (float64_of_uint64 touched) (float64_of_uint64 gets) else 0)"

definition DB_DebugMetrics :: "DB \<Rightarrow> DebugMetrics" where
  "DB_DebugMetrics db =
     \<lparr>CompactionEnabled = enableCompaction db, GetTotal = getTotal (metrics db),
      GetSSTableFilesTouchedTotal = getSSTableFilesTouchedTotal (metrics db),
      GetSSTableFilesTouchedAvg = touched_avg (getSSTableFilesTouchedTotal (metrics db)) (getTotal (metrics db)),
      GetSSTableFilesTouchedMax = getSSTableFilesTouchedMax (metrics db),
      CompactionTotal = compactionTotal (metrics db),
      CompactionInputFilesTotal = compactionInputFilesTotal (metrics db),
      CompactionOutputFilesTotal = compactionOutputFilesTotal (metrics db),
      CompactionTotalMS = nsToMS (compactionTotalNS (metrics db)),
      CompactionMaxMS = nsToMS (compactionMaxNS (metrics db)),
      CompactionLastMS = nsToMS (compactionLastNS (metrics db)),
      CompactionFailedTotal = compactionFailedTotal (metrics db), SSTableCount = length (sstables db)\<rparr>"

text \<open>The store as the gateway sees it.\<close>

definition KVStore_RaftMetrics :: "(nat \<Rightarrow> 64 word) \<Rightarrow> Node \<Rightarrow> RaftMetrics" where
  "KVStore_RaftMetrics elapsed nd = Raft_DebugMetrics elapsed (n_rf nd)"

definition KVStore_LSMMetrics :: "Node \<Rightarrow> DebugMetrics" where
  "KVStore_LSMMetrics nd = DB_DebugMetrics (kv_db (n_kv nd))"

definition KVStore_DebugForceElection :: "Node \<Rightarrow> (Node \<times> RequestVoteArgs) option" where
  "KVStore_DebugForceElection nd =
     (case DebugForceElection (n_rf nd) of
        None \<Rightarrow> None
      | Some (rf, args) \<Rightarrow> Some (nd\<lparr>n_rf := rf\<rparr>, args))"

section \<open>The aggregate over the nodes\<close>

record nodeDebugMetrics =
  nd_NodeID :: nat
  nd_ActiveWaitChans :: nat
  nd_Raft :: RaftMetrics
  nd_LSM :: DebugMetrics

record storeAPIMetricsSnapshot =
  sa_RequestTotal :: u64
  sa_PutTotal :: u64
  sa_GetTotal :: u64
  sa_DeleteTotal :: u64
  sa_HTTP500Total :: u64
  sa_HTTP503Total :: u64
  sa_RequestTimeoutTotal :: u64
  sa_LeadershipChangedBeforeCommitTotal :: u64
  sa_NotLeaderTotal :: u64
  sa_ActiveWaitChans :: nat

text \<open>What the route reads from outside: the formatted time, the statistics of the runtime, and for each node the
  time of each write of its state.\<close>

record environment =
  now_RFC3339Nano :: string
  memStats :: MemStats
  numGoroutine :: nat
  persistNs :: "nat \<Rightarrow> nat \<Rightarrow> 64 word"

record debugMetricsResponse =
  r_Timestamp :: string
  r_CurrentLeader :: int
  r_CurrentTerm :: int
  r_LeaderChangeTotal :: u64
  r_ElectionStartedTotal :: u64
  r_TermChangeTotal :: u64
  r_AppendEntriesFailedTotal :: u64
  r_RaftPersistCount :: u64
  r_RaftPersistTotalMS :: float64
  r_RaftPersistMaxMS :: float64
  r_CommitIndex :: int
  r_LastApplied :: int
  r_LogLength :: nat
  r_RequestTotal :: u64
  r_PutTotal :: u64
  r_GetTotal :: u64
  r_DeleteTotal :: u64
  r_HTTP500Total :: u64
  r_HTTP503Total :: u64
  r_RequestTimeoutTotal :: u64
  r_LeadershipChangedBeforeCommitTotal :: u64
  r_NotLeaderTotal :: u64
  r_ActiveWaitChans :: nat
  r_GoroutineNum :: nat
  r_HeapAlloc :: u64
  r_NumGC :: "32 word"
  r_PauseTotalNS :: u64
  r_LastGCPauseNS :: u64
  r_StoreAPI :: storeAPIMetricsSnapshot
  r_Runtime :: runtimeMetricsSnapshot
  r_LSM :: DebugMetrics
  r_Nodes :: "nodeDebugMetrics list"

definition float64_max :: "float64 \<Rightarrow> float64 \<Rightarrow> float64" where
  "float64_max a x = (if x > a then x else a)"

definition add_lsm :: "nat \<Rightarrow> DebugMetrics \<Rightarrow> DebugMetrics \<Rightarrow> DebugMetrics" where
  "add_lsm i m a =
     \<lparr>CompactionEnabled = (if i = 0 then CompactionEnabled m else CompactionEnabled a \<and> CompactionEnabled m),
      GetTotal = GetTotal a + GetTotal m,
      GetSSTableFilesTouchedTotal = GetSSTableFilesTouchedTotal a + GetSSTableFilesTouchedTotal m,
      GetSSTableFilesTouchedAvg = GetSSTableFilesTouchedAvg a,
      GetSSTableFilesTouchedMax =
        (if GetSSTableFilesTouchedMax m > GetSSTableFilesTouchedMax a then GetSSTableFilesTouchedMax m
         else GetSSTableFilesTouchedMax a),
      CompactionTotal = CompactionTotal a + CompactionTotal m,
      CompactionInputFilesTotal = CompactionInputFilesTotal a + CompactionInputFilesTotal m,
      CompactionOutputFilesTotal = CompactionOutputFilesTotal a + CompactionOutputFilesTotal m,
      CompactionTotalMS = float64_add (CompactionTotalMS a) (CompactionTotalMS m),
      CompactionMaxMS = float64_max (CompactionMaxMS a) (CompactionMaxMS m),
      CompactionLastMS = float64_max (CompactionLastMS a) (CompactionLastMS m),
      CompactionFailedTotal = CompactionFailedTotal a + CompactionFailedTotal m,
      SSTableCount = SSTableCount a + SSTableCount m\<rparr>"

text \<open>The body of the loop over the nodes.\<close>

definition add_node :: "environment \<Rightarrow> nat \<times> Node \<Rightarrow> debugMetricsResponse \<Rightarrow> debugMetricsResponse" where
  "add_node env x a =
     (case x of (i, nd) \<Rightarrow>
        let r = KVStore_RaftMetrics (persistNs env i) nd; l = KVStore_LSMMetrics nd; w = ActiveWaitChans (n_kv nd)
        in a\<lparr>r_Nodes := r_Nodes a @ [\<lparr>nd_NodeID = i, nd_ActiveWaitChans = w, nd_Raft = r, nd_LSM = l\<rparr>],
             r_ActiveWaitChans := r_ActiveWaitChans a + w, r_LSM := add_lsm i l (r_LSM a),
             r_LeaderChangeTotal := r_LeaderChangeTotal a + LeaderChangeTotal r,
             r_ElectionStartedTotal := r_ElectionStartedTotal a + ElectionStartedTotal r,
             r_TermChangeTotal := r_TermChangeTotal a + TermChangeTotal r,
             r_AppendEntriesFailedTotal := r_AppendEntriesFailedTotal a + AppendEntriesFailedTotal r,
             r_RaftPersistCount := r_RaftPersistCount a + RaftPersistCount r,
             r_RaftPersistTotalMS := float64_add (r_RaftPersistTotalMS a) (RaftPersistTotalMS r),
             r_RaftPersistMaxMS := float64_max (r_RaftPersistMaxMS a) (RaftPersistMaxMS r),
             r_CommitIndex := (if CommitIndex r > r_CommitIndex a then CommitIndex r else r_CommitIndex a),
             r_LastApplied := (if LastApplied r > r_LastApplied a then LastApplied r else r_LastApplied a),
             r_LogLength := (if LogLength r > r_LogLength a then LogLength r else r_LogLength a),
             r_CurrentLeader := (if IsLeader r then int i else r_CurrentLeader a),
             r_CurrentTerm :=
               (if IsLeader r then CurrentTerm r
                else if CurrentTerm r > r_CurrentTerm a then CurrentTerm r else r_CurrentTerm a)\<rparr>)"

definition storeAPISnapshot :: "gatewayMetrics \<Rightarrow> nat \<Rightarrow> storeAPIMetricsSnapshot" where
  "storeAPISnapshot m activeWaitChans =
     \<lparr>sa_RequestTotal = requestTotal m, sa_PutTotal = putTotal m, sa_GetTotal = gw_getTotal m,
      sa_DeleteTotal = deleteTotal m, sa_HTTP500Total = http500Total m, sa_HTTP503Total = http503Total m,
      sa_RequestTimeoutTotal = requestTimeoutTotal m,
      sa_LeadershipChangedBeforeCommitTotal = leadershipChangedBeforeCommitTotal m,
      sa_NotLeaderTotal = notLeaderTotal m, sa_ActiveWaitChans = activeWaitChans\<rparr>"

text \<open>The variables that the loop starts from.\<close>

definition no_lsm :: DebugMetrics where
  "no_lsm = \<lparr>CompactionEnabled = True, GetTotal = 0, GetSSTableFilesTouchedTotal = 0, GetSSTableFilesTouchedAvg = 0,
     GetSSTableFilesTouchedMax = 0, CompactionTotal = 0, CompactionInputFilesTotal = 0,
     CompactionOutputFilesTotal = 0, CompactionTotalMS = 0, CompactionMaxMS = 0, CompactionLastMS = 0,
     CompactionFailedTotal = 0, SSTableCount = 0\<rparr>"

definition initial_response :: "environment \<Rightarrow> gatewayMetrics \<Rightarrow> debugMetricsResponse" where
  "initial_response env m =
     (let rt = readRuntimeMetrics (memStats env) (numGoroutine env)
      in \<lparr>r_Timestamp = now_RFC3339Nano env, r_CurrentLeader = - 1, r_CurrentTerm = 0, r_LeaderChangeTotal = 0,
          r_ElectionStartedTotal = 0, r_TermChangeTotal = 0, r_AppendEntriesFailedTotal = 0, r_RaftPersistCount = 0,
          r_RaftPersistTotalMS = 0, r_RaftPersistMaxMS = 0, r_CommitIndex = 0, r_LastApplied = 0, r_LogLength = 0,
          r_RequestTotal = requestTotal m, r_PutTotal = putTotal m, r_GetTotal = gw_getTotal m,
          r_DeleteTotal = deleteTotal m, r_HTTP500Total = http500Total m, r_HTTP503Total = http503Total m,
          r_RequestTimeoutTotal = requestTimeoutTotal m,
          r_LeadershipChangedBeforeCommitTotal = leadershipChangedBeforeCommitTotal m,
          r_NotLeaderTotal = notLeaderTotal m, r_ActiveWaitChans = 0, r_GoroutineNum = GoroutineNum rt,
          r_HeapAlloc = HeapAlloc rt, r_NumGC = NumGC rt, r_PauseTotalNS = PauseTotalNS rt,
          r_LastGCPauseNS = LastGCPauseNS rt, r_StoreAPI = storeAPISnapshot m 0, r_Runtime = rt,
          r_LSM = no_lsm, r_Nodes = []\<rparr>)"

definition buildDebugMetrics :: "environment \<Rightarrow> gatewayMetrics \<Rightarrow> Node list \<Rightarrow> debugMetricsResponse" where
  "buildDebugMetrics env m nds =
    (let a = fold (add_node env) (enumerate 0 nds) (initial_response env m); l = r_LSM a
     in a\<lparr>r_LSM := l\<lparr>GetSSTableFilesTouchedAvg := touched_avg (GetSSTableFilesTouchedTotal l) (GetTotal l)\<rparr>,
          r_StoreAPI := storeAPISnapshot m (r_ActiveWaitChans a)\<rparr>)"

section \<open>Routes\<close>

text \<open>The route that forces an election; \<open>None\<close> is a panic of the peer. The requests for votes go out with the
  returned arguments.\<close>

definition handleForceElection ::
  "string \<Rightarrow> environment \<Rightarrow> gatewayMetrics \<Rightarrow> Node list \<Rightarrow> (response \<times> RequestVoteArgs option \<times> Node list) option"
where
  "handleForceElection rawNode env m nds =
     (case chooseForceElectionTarget rawNode nds of
        Inl err \<Rightarrow> Some (\<lparr>status = 400, body = [(''error'', JText err)]\<rparr>, None, nds)
      | Inr target \<Rightarrow>
          let before = buildDebugMetrics env m nds
          in (case KVStore_DebugForceElection (nds ! target) of
                None \<Rightarrow> None
              | Some (nd, args) \<Rightarrow>
                  Some (\<lparr>status = 200, body = [(''status'', JText ''election_started''),
                          (''target_node'', JInt (int target)), (''leader_before'', JInt (r_CurrentLeader before)),
                          (''term_before'', JInt (r_CurrentTerm before)), (''debug_only_experiment'', JBool True)]\<rparr>,
                        Some args, nds[target := nd])))"

text \<open>The requests of the five routes, as the web framework parses them: the binding of the body, the parameter of the path,
  the parameters of the query if they are there.\<close>

datatype request =
  PutRequest "string + bytes \<times> bytes"
| GetRequest bytes "string option"
| DeleteRequest bytes
| DebugMetricsRequest
| ForceElectionRequest "string option"

datatype reply = JSONReply response | MetricsReply debugMetricsResponse

record served =
  sv_answer :: reply
  sv_votes :: "RequestVoteArgs option"
  sv_metrics :: gatewayMetrics
  sv_nodes :: "Node list"

definition served_of :: "response \<times> gatewayMetrics \<times> Node list \<Rightarrow> served" where
  "served_of r =
     (case count_status r of (resp, m, nds) \<Rightarrow>
        \<lparr>sv_answer = JSONReply resp, sv_votes = None, sv_metrics = m, sv_nodes = nds\<rparr>)"

text \<open>One request: its handler, then the middleware that counts failures. \<open>None\<close> is a panic.\<close>

definition serve ::
  "(go_error \<Rightarrow> string) \<Rightarrow> (nat \<Rightarrow> call) \<Rightarrow> environment \<Rightarrow> request \<Rightarrow> gatewayMetrics \<Rightarrow> Node list \<Rightarrow> served option"
where
  "serve em c env req m nds =
     (case req of
        PutRequest bound \<Rightarrow> Some (served_of (handlePut em c bound m nds))
      | GetRequest key mode \<Rightarrow>
          Some (served_of (handleGet em c key (case mode of None \<Rightarrow> readModeRaft | Some s \<Rightarrow> s) m nds))
      | DeleteRequest key \<Rightarrow> Some (served_of (handleDelete em c key m nds))
      | DebugMetricsRequest \<Rightarrow>
          Some \<lparr>sv_answer = MetricsReply (buildDebugMetrics env m nds), sv_votes = None, sv_metrics = m, sv_nodes = nds\<rparr>
      | ForceElectionRequest node \<Rightarrow>
          (case handleForceElection (case node of None \<Rightarrow> [] | Some s \<Rightarrow> s) env m nds of
             None \<Rightarrow> None
           | Some (resp, args, nds') \<Rightarrow> Some ((served_of (resp, m, nds'))\<lparr>sv_votes := args\<rparr>)))"

section \<open>What the aggregation reports\<close>

lemma add_node_fields [simp]:
  "r_CurrentLeader (add_node env (i, nd) a) = (if leads nd then int i else r_CurrentLeader a)"
  "r_CurrentTerm (add_node env (i, nd) a) =
     (if leads nd then currentTerm (n_rf nd) else max (currentTerm (n_rf nd)) (r_CurrentTerm a))"
  "r_CommitIndex (add_node env (i, nd) a) = max (commitIndex (n_rf nd)) (r_CommitIndex a)"
  "r_StoreAPI (add_node env (i, nd) a) = r_StoreAPI a" "r_Runtime (add_node env (i, nd) a) = r_Runtime a"
  "r_LSM (add_node env (i, nd) a) = add_lsm i (KVStore_LSMMetrics nd) (r_LSM a)"
  "r_ActiveWaitChans (add_node env (i, nd) a) = r_ActiveWaitChans a + ActiveWaitChans (n_kv nd)"
  by (auto simp: add_node_def KVStore_RaftMetrics_def Raft_DebugMetrics_def leads_def Let_def max_def)

text \<open>The reported leader is the last node in the list that believes to be leader.\<close>

lemma fold_add_node_leader:
  "r_CurrentLeader (fold (add_node env) (enumerate k nds) a) =
     (case List.find (\<lambda>(i, nd). leads nd) (rev (enumerate k nds)) of
        None \<Rightarrow> r_CurrentLeader a | Some (i, nd) \<Rightarrow> int i)"
proof (induction nds arbitrary: k a)
  case (Cons nd nds)
  have "List.find P (xs @ [x]) = (case List.find P xs of None \<Rightarrow> if P x then Some x else None | Some y \<Rightarrow> Some y)"
    for P and xs :: "(nat \<times> Node) list" and x by (induction xs) auto
  with Cons show ?case by (auto split: option.splits)
qed simp

lemma buildDebugMetrics_leader:
  "r_CurrentLeader (buildDebugMetrics env m nds) =
     (case List.find (\<lambda>(i, nd). leads nd) (rev (enumerate 0 nds)) of None \<Rightarrow> - 1 | Some (i, nd) \<Rightarrow> int i)"
  by (simp add: buildDebugMetrics_def initial_response_def Let_def fold_add_node_leader split: option.split)

text \<open>The index into the ring of pauses is in range and belongs to the last collection, also when the counter has
  wrapped around: \<open>n\<close> counts the collections without bound, and the pause of the \<open>n\<close>-th one is
  kept at \<open>n - 1\<close> modulo the length of the ring.\<close>

lemma last_pause_index:
  assumes "0 < n"
  shows "unat (((of_nat n :: 32 word) + 255) mod 256) = (n - 1) mod 256"
proof -
  have "unat (((of_nat n :: 32 word) + 255) mod 256) = (n + 255) mod 2 ^ 32 mod 256"
    by (simp add: unat_mod unat_word_ariths unat_of_nat mod_add_left_eq)
  also have "\<dots> = (n + 255) mod 256" by (rule mod_mod_cancel) simp
  also have "\<dots> = (n - 1 + 256) mod 256" using assms by (simp add: algebra_simps)
  finally show ?thesis by simp
qed

lemma active_wait_chans:
  "r_ActiveWaitChans (fold (add_node env) (enumerate k nds) a) = r_ActiveWaitChans a + (\<Sum>nd \<leftarrow> nds. ActiveWaitChans (n_kv nd))"
  by (induction nds arbitrary: k a) simp_all

text \<open>\<open>persist_times\<close> is the pair that the code keeps: each write runs the end of \<^verbatim>\<open>persist\<close> on it once.\<close>

lemma persist_times_persist:
  assumes "raftPersistCount rf \<noteq> - 1"
  shows "persist_times elapsed (persist rf) =
    persist_time (elapsed (unat (raftPersistCount rf))) (persist_times elapsed rf)"
  using unatSuc [of "raftPersistCount rf"] assms
  by (simp add: persist_times_def persist_def add_eq_0_iff add.commute)

section \<open>What the numbers mean\<close>

lemma float64_of_nat: "n < 2 ^ 53 \<Longrightarrow> float64_of_uint64 (of_nat n) = of_nat n"
  using to_float64_of_int [of "int n"] unfolding float64_of_uint64_def by (simp only: uint_nat unat_of_nat) simp

lemma touched_avg_of_nat:
  "t < 2 ^ 53 \<Longrightarrow> g < 2 ^ 53 \<Longrightarrow> touched_avg (of_nat t) (of_nat g) = to_float64 (of_nat t / of_nat g)"
  by (auto simp: touched_avg_def float64_of_nat float64_div_def word_gt_0 simp flip: unat_eq_0 simp: unat_of_nat)

lemma nsToMS_of_nat: "n < 2 ^ 53 \<Longrightarrow> nsToMS (of_nat n) = to_float64 (of_nat n / 10 ^ 6)"
  by (simp add: nsToMS_def float64_of_nat float64_div_def)

lemma nsToMS_mono: "x \<le> y \<Longrightarrow> nsToMS x \<le> nsToMS y"
  unfolding nsToMS_def by (intro float64_div_mono float64_of_uint64_mono) simp_all

lemma nsToMS_nonneg [simp]: "0 \<le> nsToMS x"
  unfolding nsToMS_def by (intro float64_div_nonneg) simp_all

text \<open>The engine reports the mean of the tables that its reads touched and the sum, the maximum and the last of the times of its
  compactions, each the float closest to the exact value, as long as the sums stay below \<open>2 ^ 53\<close>
  (104 days of compaction). So the average is at most the maximum, and the last time at most the longest and this at most the sum.\<close>

theorem engine_metrics_are_exact:
  assumes "metrics db = metrics_of obs"
    and "length (touches obs) < 2 ^ 53" "sum_list (touches obs) < 2 ^ 53" "sum_list (compaction_times obs) < 2 ^ 53"
  shows "GetSSTableFilesTouchedAvg (DB_DebugMetrics db) =
      to_float64 (of_nat (sum_list (touches obs)) / of_nat (length (touches obs)))"
    and "GetSSTableFilesTouchedAvg (DB_DebugMetrics db) \<le> of_nat (unat (GetSSTableFilesTouchedMax (DB_DebugMetrics db)))"
    and "CompactionTotalMS (DB_DebugMetrics db) = to_float64 (of_nat (sum_list (compaction_times obs)) / 10 ^ 6)"
    and "CompactionMaxMS (DB_DebugMetrics db) = to_float64 (of_nat (peak (compaction_times obs)) / 10 ^ 6)"
    and "CompactionLastMS (DB_DebugMetrics db) \<le> CompactionMaxMS (DB_DebugMetrics db)"
    and "CompactionMaxMS (DB_DebugMetrics db) \<le> CompactionTotalMS (DB_DebugMetrics db)"
proof -
  let ?t = "touches obs" and ?c = "compaction_times obs"
  note sums = peak_le_sum [of ?t] peak_le_sum [of ?c]
  have max: "getSSTableFilesTouchedMax (metrics_of obs) = of_nat (peak ?t)"
    "compactionMaxNS (metrics_of obs) = of_nat (peak ?c)"
    by (rule metrics_of_max; use assms in simp)+
  note D = DB_DebugMetrics_def assms(1) metrics_of_sums max metrics_of_last
  show avg: "GetSSTableFilesTouchedAvg (DB_DebugMetrics db) = to_float64 (of_nat (sum_list ?t) / of_nat (length ?t))"
    using assms(2,3) by (simp add: D touched_avg_of_nat)
  have "(of_nat (sum_list ?t) :: rat) \<le> of_nat (peak ?t) * of_nat (length ?t)"
    using sum_le_peak [of ?t] by (simp only: of_nat_le_iff mult.commute flip: of_nat_mult)
  then have "of_nat (sum_list ?t) / of_nat (length ?t) \<le> (of_nat (peak ?t) :: rat)"
    by (cases "?t = []") (simp_all add: pos_divide_le_eq)
  then have "to_float64 (of_nat (sum_list ?t) / of_nat (length ?t)) \<le> to_float64 (of_nat (peak ?t))"
    by (intro to_float64_mono) simp_all
  also have "\<dots> = of_nat (peak ?t)"
    using to_float64_of_int [of "int (peak ?t)"] sums(1) assms(3) by simp
  finally show "GetSSTableFilesTouchedAvg (DB_DebugMetrics db) \<le>
      of_nat (unat (GetSSTableFilesTouchedMax (DB_DebugMetrics db)))"
    unfolding avg using sums(1) assms(3) by (simp add: D unat_of_nat)
  show "CompactionTotalMS (DB_DebugMetrics db) = to_float64 (of_nat (sum_list ?c) / 10 ^ 6)"
    "CompactionMaxMS (DB_DebugMetrics db) = to_float64 (of_nat (peak ?c) / 10 ^ 6)"
    using sums(2) assms(4) by (simp_all add: D nsToMS_of_nat)
  show "CompactionLastMS (DB_DebugMetrics db) \<le> CompactionMaxMS (DB_DebugMetrics db)"
    using sums(2) assms(4) last_le_peak [of ?c] by (auto simp: D word_le_nat_alt unat_of_nat intro!: nsToMS_mono)
  show "CompactionMaxMS (DB_DebugMetrics db) \<le> CompactionTotalMS (DB_DebugMetrics db)"
    using sums(2) assms(4) by (auto simp: D word_le_nat_alt unat_of_nat intro!: nsToMS_mono)
qed

text \<open>The maxima of the response bound those of every node in it.\<close>

lemma float64_max_max: "float64_max a x = max a x"
  by (simp add: float64_max_def max_def)

lemma add_lsm_max [simp]:
  "CompactionMaxMS (add_lsm i m a) = max (CompactionMaxMS a) (CompactionMaxMS m)"
  "CompactionLastMS (add_lsm i m a) = max (CompactionLastMS a) (CompactionLastMS m)"
  "GetSSTableFilesTouchedMax (add_lsm i m a) = max (GetSSTableFilesTouchedMax a) (GetSSTableFilesTouchedMax m)"
  by (auto simp: add_lsm_def float64_max_max max_def)

lemma fold_add_node_max:
  "CompactionMaxMS (r_LSM (fold (add_node env) (enumerate k nds) a)) =
     fold max (map (\<lambda>nd. CompactionMaxMS (KVStore_LSMMetrics nd)) nds) (CompactionMaxMS (r_LSM a))"
  by (induction nds arbitrary: k a) (simp_all add: max.commute)

end
