(* ===== verification/Network.thy ===== *)
theory Network
  imports Go_Strings "HOL-Library.Sublist"
begin

text \<open>
  The simulated RPC network of \<^verbatim>\<open>internal/raft/labrpc/labrpc.go\<close>. A handler is a function of the
  encoded arguments and the state \<open>'s\<close> of the process, and returns the encoded reply; \<open>None\<close> stands for a panic or a call of
  \<^verbatim>\<open>log.Fatalf\<close>, which ends the process. Servers are compared by address, as the pointers of the source.
  The random numbers of a request, and what other goroutines do to the network while its handler runs, are
  the record \<open>dice\<close>. Delays have no effect of their own. The hooks of \<^verbatim>\<open>SetCall\<close> and
  \<^verbatim>\<open>SetDispatch\<close>, which no code of the repository sets, replace a call and the dispatch of a
  server. The reflection that builds a service reads a table of methods.

  The locale \<open>rpc\<close> is what a caller relies on: a call runs the handler at most once, and an answer is the
  answer of the handler.
\<close>

record reqMsg =
  endname :: string
  svcMeth :: string
  rq_args :: bytes

record replyMsg =
  rp_ok :: bool
  rp_reply :: bytes

type_synonym 's service_method = "bytes \<Rightarrow> 's \<Rightarrow> (bytes \<times> 's) option"

record 's Service =
  svc_name :: string
  methods :: "string \<Rightarrow> 's service_method option"

text \<open>The functions of the hooks: of a server, and of an end point, which also gets the name of the end point.\<close>

type_synonym 's Fdispatch = "string \<Rightarrow> bytes \<Rightarrow> 's \<Rightarrow> ((bytes \<times> bool) \<times> 's) option"
type_synonym 's Fcall = "string \<Rightarrow> string \<Rightarrow> bytes \<Rightarrow> 's \<Rightarrow> ((bytes \<times> bool) \<times> 's) option"

record 's Server =
  services :: "string \<Rightarrow> 's Service option"
  srv_count :: int
  dispatchf :: "'s Fdispatch option"

record 's Network =
  reliable :: bool
  longDelays :: bool
  longReordering :: bool
  ends :: "string \<Rightarrow> string option"
  enabled :: "string \<Rightarrow> bool"
  servers :: "string \<Rightarrow> nat option"
  connections :: "string \<Rightarrow> string option"
  net_done :: bool
  net_count :: "32 word"
  net_bytes :: u64
  heap :: "nat \<Rightarrow> 's Server"

section \<open>Servers and services\<close>

definition MakeServer :: "'s Server" where
  "MakeServer = \<lparr>services = (\<lambda>_. None), srv_count = 0, dispatchf = None\<rparr>"

definition SetDispatch :: "'s Fdispatch \<Rightarrow> 's Server \<Rightarrow> 's Server" where
  "SetDispatch f rs = rs\<lparr>dispatchf := Some f\<rparr>"

definition AddService :: "'s Service \<Rightarrow> 's Server \<Rightarrow> 's Server" where
  "AddService svc rs = rs\<lparr>services := (services rs)(svc_name svc := Some svc)\<rparr>"

text \<open>A method as reflection describes it: the package path of its name, which is empty for exported names, whether the types of
  its parameters (the receiver is the first) are pointers, and the number of its results.\<close>

record 's method_info =
  mt_Name :: string
  mt_PkgPath :: string
  mt_In :: "bool list"
  mt_NumOut :: nat
  mt_Func :: "'s service_method"

definition handler_method :: "'s method_info \<Rightarrow> bool" where
  "handler_method m \<longleftrightarrow>
     \<not> (mt_PkgPath m \<noteq> [] \<or> length (mt_In m) \<noteq> 3 \<or> \<not> mt_In m ! 2 \<or> mt_NumOut m \<noteq> 0)"

definition MakeService :: "string \<Rightarrow> 's method_info list \<Rightarrow> 's Service" where
  "MakeService name ms =
     \<lparr>svc_name = name,
      methods = fold (\<lambda>m tab. if handler_method m then tab(mt_Name m \<mapsto> mt_Func m) else tab) ms (\<lambda>_. None)\<rparr>"

definition Service_dispatch :: "string \<Rightarrow> reqMsg \<Rightarrow> 's Service \<Rightarrow> 's \<Rightarrow> (replyMsg \<times> 's) option" where
  "Service_dispatch methname req svc st =
     (case methods svc methname of
        None \<Rightarrow> None
      | Some f \<Rightarrow>
          (case f (rq_args req) st of
             None \<Rightarrow> None
           | Some (bs, st') \<Rightarrow> Some (\<lparr>rp_ok = True, rp_reply = bs\<rparr>, st')))"

text \<open>Splitting at the last dot; without a dot the slice expression panics.\<close>

definition split_last_dot :: "string \<Rightarrow> (string \<times> string) option" where
  "split_last_dot s =
     (let meth = takeWhile (\<lambda>c. c \<noteq> CHR ''.'') (rev s)
      in if length meth = length s then None
         else Some (take (length s - length meth - 1) s, rev meth))"

definition Server_dispatch :: "reqMsg \<Rightarrow> 's Server \<Rightarrow> 's \<Rightarrow> (replyMsg \<times> 's Server \<times> 's) option" where
  "Server_dispatch req rs st =
     (let rs = rs\<lparr>srv_count := srv_count rs + 1\<rparr>
      in case split_last_dot (svcMeth req) of
           None \<Rightarrow> None
         | Some (serviceName, methodName) \<Rightarrow>
             (case dispatchf rs of
                Some f \<Rightarrow>
                  (case f (svcMeth req) (rq_args req) st of
                     None \<Rightarrow> None
                   | Some ((rep, ok), st') \<Rightarrow> Some (\<lparr>rp_ok = ok, rp_reply = rep\<rparr>, rs, st'))
              | None \<Rightarrow>
                  (case services rs serviceName of
                     None \<Rightarrow> None
                   | Some svc \<Rightarrow>
                       (case Service_dispatch methodName req svc st of
                          None \<Rightarrow> None
                        | Some (rep, st') \<Rightarrow> Some (rep, rs, st')))))"

text \<open>The exported entry to the dispatch of a server, without a network.\<close>

definition Server_Dispatch :: "string \<Rightarrow> string \<Rightarrow> bytes \<Rightarrow> 's Server \<Rightarrow> 's \<Rightarrow> ((bytes \<times> bool) \<times> 's Server \<times> 's) option" where
  "Server_Dispatch meth clnt args rs st =
     (case Server_dispatch \<lparr>endname = clnt, svcMeth = meth, rq_args = args\<rparr> rs st of
        None \<Rightarrow> None
      | Some (rep, rs', st') \<Rightarrow> Some ((rp_reply rep, rp_ok rep), rs', st'))"

definition Server_GetCount :: "'s Server \<Rightarrow> int" where
  "Server_GetCount rs = srv_count rs"

section \<open>The network\<close>

definition MakeNetwork :: "'s Network" where
  "MakeNetwork =
     \<lparr>reliable = True, longDelays = False, longReordering = False, ends = (\<lambda>_. None), enabled = (\<lambda>_. False),
      servers = (\<lambda>_. None), connections = (\<lambda>_. None), net_done = False, net_count = 0, net_bytes = 0,
      heap = (\<lambda>_. MakeServer)\<rparr>"

definition Cleanup :: "'s Network \<Rightarrow> 's Network" where
  "Cleanup rn = rn\<lparr>net_done := True\<rparr>"

definition Reliable :: "bool \<Rightarrow> 's Network \<Rightarrow> 's Network" where
  "Reliable yes rn = rn\<lparr>reliable := yes\<rparr>"

definition IsReliable :: "'s Network \<Rightarrow> bool" where
  "IsReliable rn = reliable rn"

definition LongReordering :: "bool \<Rightarrow> 's Network \<Rightarrow> 's Network" where
  "LongReordering yes rn = rn\<lparr>longReordering := yes\<rparr>"

definition LongDelays :: "bool \<Rightarrow> 's Network \<Rightarrow> 's Network" where
  "LongDelays yes rn = rn\<lparr>longDelays := yes\<rparr>"

definition IsLongDelays :: "'s Network \<Rightarrow> bool" where
  "IsLongDelays rn = longDelays rn"

text \<open>A name that is missing from a map reads as its zero value.\<close>

definition readEndnameInfo :: "string \<Rightarrow> 's Network \<Rightarrow> bool \<times> string option \<times> nat option \<times> bool" where
  "readEndnameInfo e rn =
     (enabled rn e, connections rn e,
      case connections rn e of None \<Rightarrow> None | Some servername \<Rightarrow> servers rn servername, reliable rn)"

definition isServerDead :: "string \<Rightarrow> string \<Rightarrow> nat \<Rightarrow> 's Network \<Rightarrow> bool" where
  "isServerDead e servername server rn \<longleftrightarrow> \<not> enabled rn e \<or> servers rn servername \<noteq> Some server"

record 's dice =
  drop_request :: nat
  drop_reply :: nat
  gave_up :: bool \<comment> \<open>the server was found dead before the handler returned\<close>
  meanwhile :: "'s Network \<Rightarrow> 's Network"

definition no_reply :: replyMsg where
  "no_reply = \<lparr>rp_ok = False, rp_reply = []\<rparr>"

definition processReq :: "'s dice \<Rightarrow> reqMsg \<Rightarrow> 's Network \<Rightarrow> 's \<Rightarrow> (replyMsg \<times> 's Network \<times> 's) option" where
  "processReq r req rn st =
     (case readEndnameInfo (endname req) rn of
        (True, Some servername, Some server, rel) \<Rightarrow>
          if \<not> rel \<and> drop_request r mod 1000 < 100 then Some (no_reply, rn, st)
          else (case Server_dispatch req (heap rn server) st of
                  None \<Rightarrow> None
                | Some (reply, rs, st') \<Rightarrow>
                    let rn = meanwhile r (rn\<lparr>heap := (heap rn)(server := rs)\<rparr>);
                        serverDead = isServerDead (endname req) servername server rn
                    in if gave_up r \<or> serverDead then Some (no_reply, rn, st')
                       else if \<not> rel \<and> drop_reply r mod 1000 < 100 then Some (no_reply, rn, st')
                       else Some (reply, rn\<lparr>net_bytes := net_bytes rn + of_nat (length (rp_reply reply))\<rparr>, st'))
      | _ \<Rightarrow> Some (no_reply, rn, st))"

definition MakeEnd :: "string \<Rightarrow> 's Network \<Rightarrow> 's Network option" where
  "MakeEnd e rn =
     (if ends rn e \<noteq> None then None
      else Some (rn\<lparr>ends := (ends rn)(e := Some e), enabled := (enabled rn)(e := False),
                    connections := (connections rn)(e := None)\<rparr>))"

definition LookupEnd :: "string \<Rightarrow> 's Network \<Rightarrow> string option" where
  "LookupEnd e rn = ends rn e"

definition DeleteEnd :: "string \<Rightarrow> 's Network \<Rightarrow> 's Network option" where
  "DeleteEnd e rn =
     (if ends rn e = None then None
      else Some (rn\<lparr>ends := (ends rn)(e := None), enabled := (enabled rn)(e := False),
                    connections := (connections rn)(e := None)\<rparr>))"

definition AddServer :: "string \<Rightarrow> nat \<Rightarrow> 's Network \<Rightarrow> 's Network" where
  "AddServer servername rs rn = rn\<lparr>servers := (servers rn)(servername := Some rs)\<rparr>"

definition DeleteServer :: "string \<Rightarrow> 's Network \<Rightarrow> 's Network" where
  "DeleteServer servername rn = rn\<lparr>servers := (servers rn)(servername := None)\<rparr>"

definition Connect :: "string \<Rightarrow> string \<Rightarrow> 's Network \<Rightarrow> 's Network" where
  "Connect e servername rn = rn\<lparr>connections := (connections rn)(e := Some servername)\<rparr>"

definition Enable :: "string \<Rightarrow> bool \<Rightarrow> 's Network \<Rightarrow> 's Network" where
  "Enable e yes rn = rn\<lparr>enabled := (enabled rn)(e := yes)\<rparr>"

definition Network_GetCount :: "string \<Rightarrow> 's Network \<Rightarrow> int option" where
  "Network_GetCount servername rn = map_option (\<lambda>a. Server_GetCount (heap rn a)) (servers rn servername)"

definition GetTotalCount :: "'s Network \<Rightarrow> int" where
  "GetTotalCount rn = sint (net_count rn)"

definition GetTotalBytes :: "'s Network \<Rightarrow> int" where
  "GetTotalBytes rn = sint (net_bytes rn)"

text \<open>A request from server to server, whose bytes are passed on as they are.\<close>

definition Forward :: "'s dice \<Rightarrow> string \<Rightarrow> string \<Rightarrow> bytes \<Rightarrow> 's Network \<Rightarrow> 's \<Rightarrow> ((bytes \<times> bool) \<times> 's Network \<times> 's) option" where
  "Forward r e meth args rn st =
     (if net_done rn then Some (([], False), rn, st)
      else let rn = rn\<lparr>net_count := net_count rn + 1, net_bytes := net_bytes rn + of_nat (length args)\<rparr>
           in case processReq r \<lparr>endname = e, svcMeth = meth, rq_args = args\<rparr> rn st of
                None \<Rightarrow> None
              | Some (rep, rn', st') \<Rightarrow> Some ((rp_reply rep, rp_ok rep), rn', st'))"

text \<open>A call of an end point: the reply, or nothing.\<close>

definition Call :: "'s dice \<Rightarrow> string \<Rightarrow> string \<Rightarrow> bytes \<Rightarrow> 's Network \<Rightarrow> 's \<Rightarrow> (bytes option \<times> 's Network \<times> 's) option" where
  "Call r e meth args rn st =
     (if net_done rn then Some (None, rn, st)
      else let rn = rn\<lparr>net_count := net_count rn + 1, net_bytes := net_bytes rn + of_nat (length args)\<rparr>
           in case processReq r \<lparr>endname = e, svcMeth = meth, rq_args = args\<rparr> rn st of
                None \<Rightarrow> None
              | Some (rep, rn', st') \<Rightarrow> Some (if rp_ok rep then Some (rp_reply rep) else None, rn', st'))"

text \<open>A call of an end point that may have a hook.\<close>

record 's ClientEnd =
  ce_endname :: string
  callf :: "'s Fcall option"

definition SetCall :: "'s Fcall \<Rightarrow> 's ClientEnd \<Rightarrow> 's ClientEnd" where
  "SetCall f e = e\<lparr>callf := Some f\<rparr>"

definition ClientEnd_Call ::
  "'s dice \<Rightarrow> 's ClientEnd \<Rightarrow> string \<Rightarrow> bytes \<Rightarrow> 's Network \<Rightarrow> 's \<Rightarrow> (bytes option \<times> 's Network \<times> 's) option"
where
  "ClientEnd_Call r e meth args rn st =
     (case callf e of
        Some f \<Rightarrow>
          (case f (ce_endname e) meth args st of
             None \<Rightarrow> None
           | Some ((rep, ok), st') \<Rightarrow> Some (if \<not> ok then None else Some rep, rn, st'))
      | None \<Rightarrow> Call r (ce_endname e) meth args rn st)"

section \<open>What a caller relies on\<close>

text \<open>A remote call as the caller sees it: with some randomness \<open>'d\<close>, under circumstances that are \<open>ok\<close>, it returns
  an answer or nothing.\<close>

locale rpc =
  fixes call :: "'d \<Rightarrow> 'a \<Rightarrow> 's \<Rightarrow> 'b option \<times> 's"
    and handler :: "'a \<Rightarrow> 's \<Rightarrow> 'b \<times> 's"
    and ok :: "'d \<Rightarrow> bool"
  assumes at_most_once: "ok d \<Longrightarrow> call d a s = (r, s') \<Longrightarrow>
    r = None \<and> s' = s \<or> (r = None \<or> r = Some (fst (handler a s))) \<and> s' = snd (handler a s)"
begin

lemma answer_means_executed:
  "ok d \<Longrightarrow> call d a s = (Some b, s') \<Longrightarrow> handler a s = (b, s')"
  using at_most_once [of d a s "Some b" s'] by auto

lemma call_cases:
  assumes "ok d"
  obtains "snd (call d a s) = s" | "snd (call d a s) = snd (handler a s)"
  using at_most_once [OF assms, of a s] by (metis prod.collapse)

text \<open>A sequence of calls runs the handler on some of the arguments, in their order.\<close>

lemma calls_run_subsequence:
  "\<forall>(d, a) \<in> set das. ok d \<Longrightarrow> \<exists>as'. subseq as' (map snd das) \<and>
     fold (\<lambda>(d, a) s. snd (call d a s)) das s = fold (\<lambda>a s. snd (handler a s)) as' s"
proof (induction das arbitrary: s)
  case (Cons da das)
  obtain d a where da: "da = (d, a)" by (rule prod.exhaust)
  have "\<forall>(d, a) \<in> set das. ok d" using Cons.prems by simp
  from Cons.IH [OF this] obtain as' where as': "subseq as' (map snd das)"
    "fold (\<lambda>(d, a) s. snd (call d a s)) das (snd (call d a s)) = fold (\<lambda>a s. snd (handler a s)) as' (snd (call d a s))"
    by blast
  have "ok d" using Cons.prems da by simp
  then show ?case
  proof (cases rule: call_cases [of d a s])
    case 1
    with as' show ?thesis by (intro exI [of _ as']) (simp add: da list_emb_Cons)
  next
    case 2
    with as' show ?thesis by (intro exI [of _ "a # as'"]) (simp add: da)
  qed
qed (simp add: exI [of _ "[]"])

end

text \<open>The calls of an end point that is connected, if at all, to a server that runs the handler \<open>h\<close> under the
  given name.\<close>

definition runs :: "string \<Rightarrow> (bytes \<Rightarrow> 's \<Rightarrow> bytes \<times> 's) \<Rightarrow> 's Server \<Rightarrow> bool" where
  "runs meth h rs \<longleftrightarrow>
     dispatchf rs = None \<and>
     (\<exists>serviceName methodName svc f. split_last_dot meth = Some (serviceName, methodName) \<and>
        services rs serviceName = Some svc \<and> methods svc methodName = Some f \<and>
        (\<forall>a st r. f a st = Some r \<longrightarrow> r = h a st))"

definition routes :: "string \<Rightarrow> string \<Rightarrow> (bytes \<Rightarrow> 's \<Rightarrow> bytes \<times> 's) \<Rightarrow> 's Network \<Rightarrow> bool" where
  "routes e meth h rn \<longleftrightarrow>
     (\<forall>servername server. connections rn e = Some servername \<longrightarrow> servers rn servername = Some server \<longrightarrow>
        runs meth h (heap rn server))"

definition call_of :: "string \<Rightarrow> string \<Rightarrow> 's dice \<times> 's Network \<Rightarrow> bytes \<Rightarrow> 's \<Rightarrow> bytes option \<times> 's" where
  "call_of e meth d args st =
     (case Call (fst d) e meth args (snd d) st of
        Some (b, rn, st') \<Rightarrow> (b, st')
      | None \<Rightarrow> (None, st))"

lemma Server_dispatch_runs:
  assumes "runs (svcMeth req) h rs" and "Server_dispatch req rs st = Some (rep, rs', st')"
  shows "rep = \<lparr>rp_ok = True, rp_reply = fst (h (rq_args req) st)\<rparr> \<and> st' = snd (h (rq_args req) st)"
  using assms by (auto simp: runs_def Server_dispatch_def Service_dispatch_def Let_def split: prod.splits option.splits)

lemma processReq_once:
  assumes "routes (endname req) (svcMeth req) h rn" and "processReq r req rn st = Some (rep, rn', st')"
  shows "\<not> rp_ok rep \<and> st' = st \<or>
    (\<not> rp_ok rep \<or> rp_ok rep \<and> rp_reply rep = fst (h (rq_args req) st)) \<and> st' = snd (h (rq_args req) st)"
proof (cases "\<exists>servername server. enabled rn (endname req) \<and> connections rn (endname req) = Some servername \<and>
    servers rn servername = Some server \<and> \<not> (\<not> reliable rn \<and> drop_request r mod 1000 < 100)")
  case True
  then obtain servername server where info: "enabled rn (endname req)" "connections rn (endname req) = Some servername"
    "servers rn servername = Some server" "\<not> (\<not> reliable rn \<and> drop_request r mod 1000 < 100)" by blast
  then have "runs (svcMeth req) h (heap rn server)" using assms(1) by (simp add: routes_def)
  note run = Server_dispatch_runs [OF this]
  show ?thesis
    using assms(2) info
    by (auto simp: processReq_def readEndnameInfo_def no_reply_def Let_def dest!: run split: if_splits option.splits)
next
  case False
  then have "processReq r req rn st = Some (no_reply, rn, st)"
    by (auto simp: processReq_def readEndnameInfo_def split: option.splits bool.splits)
  then show ?thesis using assms(2) by (simp add: no_reply_def)
qed

interpretation net: rpc "call_of e meth" h "\<lambda>d. routes e meth h (snd d)" for e meth h
proof
  fix d :: "'a dice \<times> 'a Network" and a s r s'
  assume ok: "routes e meth h (snd d)" and call: "call_of e meth d a s = (r, s')"
  let ?req = "\<lparr>endname = e, svcMeth = meth, rq_args = a\<rparr>"
  let ?rn = "(snd d)\<lparr>net_count := net_count (snd d) + 1, net_bytes := net_bytes (snd d) + of_nat (length a)\<rparr>"
  have routes: "routes (endname ?req) (svcMeth ?req) h ?rn" using ok by (simp add: routes_def)
  show "r = None \<and> s' = s \<or> (r = None \<or> r = Some (fst (h a s))) \<and> s' = snd (h a s)"
  proof (cases "net_done (snd d)")
    case True
    then show ?thesis using call by (simp add: call_of_def Call_def)
  next
    case False
    show ?thesis
    proof (cases "processReq (fst d) ?req ?rn s")
      case None
      with False call show ?thesis by (simp add: call_of_def Call_def Let_def)
    next
      case (Some p)
      obtain rep rn' st' where p: "p = (rep, rn', st')" by (rule prod_cases3)
      from processReq_once [OF routes Some [unfolded p]] False call Some p show ?thesis
        by (auto simp: call_of_def Call_def Let_def split: if_splits)
    qed
  qed
qed

text \<open>On a reliable network that nobody touches a call always gets the answer of the handler.\<close>

lemma Call_reliable:
  assumes "connections rn e = Some servername" and "servers rn servername = Some server" and "enabled rn e"
    and "reliable rn" and "\<not> net_done rn" and "split_last_dot meth = Some (serviceName, methodName)"
    and "dispatchf (heap rn server) = None" and "services (heap rn server) serviceName = Some svc" and "methods svc methodName = Some f"
    and "f args st = Some (b, st')" and "meanwhile r = (\<lambda>rn. rn)" and "\<not> gave_up r"
  shows "\<exists>rn'. Call r e meth args rn st = Some (Some b, rn', st')"
  using assms
  by (simp add: Call_def processReq_def readEndnameInfo_def isServerDead_def Server_dispatch_def Service_dispatch_def Let_def)

end
