(* ===== verification/Wiring.thy ===== *)
theory Wiring
  imports Network Raft_Node
begin

text \<open>
  How \<^verbatim>\<open>cmd/kvnode/main.go\<close> wires the peers of a process: a server per peer, an end point for every
  ordered pair, each connected to the server of its target and enabled, and the peer registered as the
  service \<^verbatim>\<open>Raft\<close> of its server. The codec of arguments and replies is a parameter. The lemmas show that
  the wiring succeeds and routes every end point to the handlers of its target.
\<close>

definition server_name :: "nat \<Rightarrow> string" where
  "server_name i = ''server-'' @ FormatUint i"

definition client_name :: "nat \<Rightarrow> nat \<Rightarrow> string" where
  "client_name i j = ''client-'' @ FormatUint i @ ''-to-'' @ FormatUint j"

record 'c codec =
  enc_vote :: "RequestVoteArgs \<Rightarrow> bytes"
  dec_vote :: "bytes \<Rightarrow> RequestVoteArgs option"
  enc_vote_reply :: "RequestVoteReply \<Rightarrow> bytes"
  dec_vote_reply :: "bytes \<Rightarrow> RequestVoteReply option"
  enc_append :: "'c AppendEntriesArgs \<Rightarrow> bytes"
  dec_append :: "bytes \<Rightarrow> 'c AppendEntriesArgs option"
  enc_append_reply :: "AppendEntriesReply \<Rightarrow> bytes"
  dec_append_reply :: "bytes \<Rightarrow> AppendEntriesReply option"

text \<open>Decoding reads back what was encoded.\<close>

definition codec_ok :: "'c codec \<Rightarrow> bool" where
  "codec_ok k \<longleftrightarrow>
     (\<forall>a. dec_vote k (enc_vote k a) = Some a) \<and> (\<forall>r. dec_vote_reply k (enc_vote_reply k r) = Some r) \<and>
     (\<forall>a. dec_append k (enc_append k a) = Some a) \<and> (\<forall>r. dec_append_reply k (enc_append_reply k r) = Some r)"

text \<open>The two handlers of a peer as methods on encoded arguments; the state is the peers of the
  process.\<close>

definition vote_method :: "'c codec \<Rightarrow> nat \<Rightarrow> (nat \<Rightarrow> 'c Raft) service_method" where
  "vote_method k j bs st =
     (case dec_vote k bs of
        None \<Rightarrow> None
      | Some args \<Rightarrow>
          (case RequestVote args (st j) of
             None \<Rightarrow> None
           | Some (rf, reply) \<Rightarrow> Some (enc_vote_reply k reply, st(j := rf))))"

definition append_method :: "'c codec \<Rightarrow> nat \<Rightarrow> (nat \<Rightarrow> 'c Raft) service_method" where
  "append_method k j bs st =
     (case dec_append k bs of
        None \<Rightarrow> None
      | Some args \<Rightarrow>
          (case AppendEntries args (st j) of
             None \<Rightarrow> None
           | Some (rf, reply) \<Rightarrow> Some (enc_append_reply k reply, st(j := rf))))"

text \<open>The exported methods of a peer in the order of their names, as reflection lists them. \<^verbatim>\<open>Snapshot\<close> has two
  parameters too, but the second is no pointer. Only the handlers are ever called by a service; for the other methods the
  function on encoded arguments stands for nothing.\<close>

definition plain_method :: "string \<Rightarrow> bool list \<Rightarrow> nat \<Rightarrow> 's method_info" where
  "plain_method name ins outs =
     \<lparr>mt_Name = name, mt_PkgPath = [], mt_In = ins, mt_NumOut = outs, mt_Func = (\<lambda>_ _. None)\<rparr>"

definition raft_methods :: "'c codec \<Rightarrow> nat \<Rightarrow> (nat \<Rightarrow> 'c Raft) method_info list" where
  "raft_methods k j =
     [(plain_method ''AppendEntries'' [True, True, True] 0)\<lparr>mt_Func := append_method k j\<rparr>,
      plain_method ''DebugForceElection'' [True] 0,
      plain_method ''DebugMetrics'' [True] 1,
      plain_method ''GetState'' [True] 2,
      plain_method ''PersistBytes'' [True] 1,
      (plain_method ''RequestVote'' [True, True, True] 0)\<lparr>mt_Func := vote_method k j\<rparr>,
      plain_method ''Snapshot'' [True, False, False] 0,
      plain_method ''Start'' [True, False] 3]"

definition raft_service :: "'c codec \<Rightarrow> nat \<Rightarrow> (nat \<Rightarrow> 'c Raft) Service" where
  "raft_service k j = MakeService ''Raft'' (raft_methods k j)"

text \<open>The two calls of a peer: a reply, or nothing if the call failed. A reply that cannot be decoded ends the
  process.\<close>

definition sendRequestVote ::
  "'s dice \<Rightarrow> 'c codec \<Rightarrow> nat \<Rightarrow> nat \<Rightarrow> RequestVoteArgs \<Rightarrow> 's Network \<Rightarrow> 's \<Rightarrow> (RequestVoteReply option \<times> 's Network \<times> 's) option"
where
  "sendRequestVote r k self server args rn st =
     (case Call r (client_name self server) ''Raft.RequestVote'' (enc_vote k args) rn st of
        None \<Rightarrow> None
      | Some (None, rn', st') \<Rightarrow> Some (None, rn', st')
      | Some (Some bs, rn', st') \<Rightarrow>
          (case dec_vote_reply k bs of None \<Rightarrow> None | Some reply \<Rightarrow> Some (Some reply, rn', st')))"

definition sendAppendEntries ::
  "'s dice \<Rightarrow> 'c codec \<Rightarrow> nat \<Rightarrow> nat \<Rightarrow> 'c AppendEntriesArgs \<Rightarrow> 's Network \<Rightarrow> 's \<Rightarrow>
   (AppendEntriesReply option \<times> 's Network \<times> 's) option"
where
  "sendAppendEntries r k self server args rn st =
     (case Call r (client_name self server) ''Raft.AppendEntries'' (enc_append k args) rn st of
        None \<Rightarrow> None
      | Some (None, rn', st') \<Rightarrow> Some (None, rn', st')
      | Some (Some bs, rn', st') \<Rightarrow>
          (case dec_append_reply k bs of None \<Rightarrow> None | Some reply \<Rightarrow> Some (Some reply, rn', st')))"

definition wire_end :: "nat \<Rightarrow> nat \<Rightarrow> 's Network \<Rightarrow> 's Network option" where
  "wire_end i j rn =
     (case MakeEnd (client_name i j) rn of
        None \<Rightarrow> None
      | Some rn1 \<Rightarrow> Some (Enable (client_name i j) True (Connect (client_name i j) (server_name j) rn1)))"

fun wire_ends :: "nat \<Rightarrow> nat list \<Rightarrow> 's Network \<Rightarrow> 's Network option" where
  "wire_ends i [] rn = Some rn"
| "wire_ends i (j # js) rn =
     (if j \<noteq> i
      then case wire_end i j rn of None \<Rightarrow> None | Some rn' \<Rightarrow> wire_ends i js rn'
      else wire_ends i js rn)"

definition add_service :: "nat \<Rightarrow> 's Service \<Rightarrow> 's Network \<Rightarrow> 's Network" where
  "add_service i svc rn = rn\<lparr>heap := (heap rn)(i := AddService svc (heap rn i))\<rparr>"

fun wire_nodes :: "nat \<Rightarrow> (nat \<Rightarrow> 's Service) \<Rightarrow> nat list \<Rightarrow> 's Network \<Rightarrow> 's Network option" where
  "wire_nodes n svc [] rn = Some rn"
| "wire_nodes n svc (i # is) rn =
     (case wire_ends i [0..<n] rn of
        None \<Rightarrow> None
      | Some rn' \<Rightarrow> wire_nodes n svc is (add_service i (svc i) rn'))"

definition wire :: "nat \<Rightarrow> (nat \<Rightarrow> 's Service) \<Rightarrow> 's Network option" where
  "wire n svc =
     wire_nodes n svc [0..<n] (fold (\<lambda>i. AddServer (server_name i) i) [0..<n] MakeNetwork)"

text \<open>The environment variable that turns compaction off (\<^verbatim>\<open>strconv.ParseBool\<close>).\<close>

definition ParseBool :: "string \<Rightarrow> bool option" where
  "ParseBool s =
     (if s \<in> {''1'', ''t'', ''T'', ''true'', ''TRUE'', ''True''} then Some True
      else if s \<in> {''0'', ''f'', ''F'', ''false'', ''FALSE'', ''False''} then Some False
      else None)"

definition enableCompactionFromEnv :: "string \<Rightarrow> bool" where
  "enableCompactionFromEnv raw =
     (if raw = [] then True else case ParseBool raw of None \<Rightarrow> True | Some on \<Rightarrow> on)"

section \<open>The service of a peer\<close>

lemma raft_service_methods:
  "raft_service k j =
     \<lparr>svc_name = ''Raft'', methods = [''AppendEntries'' \<mapsto> append_method k j, ''RequestVote'' \<mapsto> vote_method k j]\<rparr>"
  by (simp add: raft_service_def MakeService_def raft_methods_def plain_method_def handler_method_def)

section \<open>Names\<close>

lemma FormatUint_inject [simp]: "FormatUint m = FormatUint n \<longleftrightarrow> m = n"
  by (metis dec_val_FormatUint)

lemma server_name_inject [simp]: "server_name i = server_name j \<longleftrightarrow> i = j"
  by (simp add: server_name_def)

lemma dash_no_digit [simp]: "\<not> is_digit CHR ''-''"
  by (simp add: is_digit_def)

lemma takeWhile_FormatUint: "takeWhile is_digit (FormatUint n @ CHR ''-'' # s) = FormatUint n"
  using FormatUint_digits [of n] by (simp add: list_all_iff takeWhile_append)

lemma client_name_inject [simp]: "client_name i j = client_name k l \<longleftrightarrow> i = k \<and> j = l"
proof
  assume "client_name i j = client_name k l"
  then have eq: "FormatUint i @ ''-to-'' @ FormatUint j = FormatUint k @ ''-to-'' @ FormatUint l"
    by (simp add: client_name_def)
  then have "takeWhile is_digit (FormatUint i @ ''-to-'' @ FormatUint j) = takeWhile is_digit (FormatUint k @ ''-to-'' @ FormatUint l)"
    by (rule arg_cong)
  then have "i = k" by (simp add: takeWhile_FormatUint)
  with eq show "i = k \<and> j = l" by simp
qed simp

section \<open>The wired network\<close>

text \<open>The end points of the given pairs are in place, and no others exist.\<close>

definition wired :: "(nat \<times> nat) set \<Rightarrow> 's Network \<Rightarrow> bool" where
  "wired E rn \<longleftrightarrow>
     (\<forall>i j. (i, j) \<in> E \<longrightarrow> enabled rn (client_name i j) \<and> connections rn (client_name i j) = Some (server_name j)) \<and>
     (\<forall>i j. (i, j) \<notin> E \<longrightarrow> ends rn (client_name i j) = None)"

lemma wire_end_wired:
  assumes "wired E rn" and "(i, j) \<notin> E"
  shows "\<exists>rn'. wire_end i j rn = Some rn' \<and> wired (insert (i, j) E) rn' \<and> servers rn' = servers rn \<and> heap rn' = heap rn \<and>
    reliable rn' = reliable rn \<and> net_done rn' = net_done rn"
  using assms by (simp add: wire_end_def MakeEnd_def wired_def Connect_def Enable_def)

lemma wire_ends_wired:
  "wired E rn \<Longrightarrow> \<forall>j \<in> set js. (i, j) \<notin> E \<Longrightarrow> distinct js \<Longrightarrow>
   \<exists>rn'. wire_ends i js rn = Some rn' \<and> wired (E \<union> {(i, j) | j. j \<in> set js \<and> j \<noteq> i}) rn' \<and>
     servers rn' = servers rn \<and> heap rn' = heap rn \<and> reliable rn' = reliable rn \<and> net_done rn' = net_done rn"
proof (induction js arbitrary: E rn)
  case (Cons j js)
  show ?case
  proof (cases "j = i")
    case True
    have "{(i, k) | k. k \<in> set (j # js) \<and> k \<noteq> i} = {(i, k) | k. k \<in> set js \<and> k \<noteq> i}" using True by auto
    with True Cons.IH [OF Cons.prems(1)] Cons.prems show ?thesis by simp
  next
    case False
    have "(i, j) \<notin> E" using Cons.prems(2) by simp
    from wire_end_wired [OF Cons.prems(1) this] obtain rn1 where rn1: "wire_end i j rn = Some rn1"
      "wired (insert (i, j) E) rn1" "servers rn1 = servers rn" "heap rn1 = heap rn" "reliable rn1 = reliable rn"
      "net_done rn1 = net_done rn" by blast
    have "\<forall>k \<in> set js. (i, k) \<notin> insert (i, j) E" using Cons.prems by auto
    from Cons.IH [OF rn1(2) this] Cons.prems(3) obtain rn' where
      rn': "wire_ends i js rn1 = Some rn'" "wired (insert (i, j) E \<union> {(i, j) | j. j \<in> set js \<and> j \<noteq> i}) rn'"
      "servers rn' = servers rn1" "heap rn' = heap rn1" "reliable rn' = reliable rn1" "net_done rn' = net_done rn1" by auto
    moreover have "insert (i, j) E \<union> {(i, j) | j. j \<in> set js \<and> j \<noteq> i} = E \<union> {(i, k) | k. k \<in> set (j # js) \<and> k \<noteq> i}"
      using False by auto
    ultimately show ?thesis using False rn1 by simp
  qed
qed (simp add: wired_def)

lemma wired_add_service [simp]: "wired E (add_service i svc rn) = wired E rn"
  by (simp add: wired_def add_service_def)

lemma wire_nodes_wired:
  "wired E rn \<Longrightarrow> \<forall>i \<in> set is. \<forall>j. (i, j) \<notin> E \<Longrightarrow> distinct is \<Longrightarrow>
   \<exists>rn'. wire_nodes n svc is rn = Some rn' \<and> wired (E \<union> {(i, j) | i j. i \<in> set is \<and> j < n \<and> j \<noteq> i}) rn' \<and>
     servers rn' = servers rn \<and> heap rn' = (\<lambda>i. if i \<in> set is then AddService (svc i) (heap rn i) else heap rn i) \<and>
     reliable rn' = reliable rn \<and> net_done rn' = net_done rn"
proof (induction "is" arbitrary: E rn)
  case (Cons i "is")
  from wire_ends_wired [OF Cons.prems(1), of "[0..<n]" i] Cons.prems(2) obtain rn1 where
    rn1: "wire_ends i [0..<n] rn = Some rn1" "wired (E \<union> {(i, j) | j. j < n \<and> j \<noteq> i}) rn1"
    "servers rn1 = servers rn" "heap rn1 = heap rn" "reliable rn1 = reliable rn" "net_done rn1 = net_done rn" by auto
  let ?E = "E \<union> {(i, j) | j. j < n \<and> j \<noteq> i}" and ?rn = "add_service i (svc i) rn1"
  have "wired ?E ?rn" "\<forall>k \<in> set is. \<forall>j. (k, j) \<notin> ?E" using rn1(2) Cons.prems(2,3) by auto
  from Cons.IH [OF this] Cons.prems(3) obtain rn' where
    rn': "wire_nodes n svc is ?rn = Some rn'" "wired (?E \<union> {(i, j) | i j. i \<in> set is \<and> j < n \<and> j \<noteq> i}) rn'"
    "servers rn' = servers ?rn" "heap rn' = (\<lambda>i. if i \<in> set is then AddService (svc i) (heap ?rn i) else heap ?rn i)"
    "reliable rn' = reliable ?rn" "net_done rn' = net_done ?rn" by auto
  have "?E \<union> {(i, j) | i j. i \<in> set is \<and> j < n \<and> j \<noteq> i} = E \<union> {(k, j) | k j. k \<in> set (i # is) \<and> j < n \<and> j \<noteq> k}"
    by auto
  moreover have "heap rn' = (\<lambda>k. if k \<in> set (i # is) then AddService (svc k) (heap rn k) else heap rn k)"
    using rn'(4) rn1(4) Cons.prems(3) by (auto simp: add_service_def)
  moreover have "servers rn' = servers rn" "reliable rn' = reliable rn" "net_done rn' = net_done rn"
    using rn'(3,5,6) rn1(3,5,6) by (simp_all add: add_service_def)
  ultimately show ?case using rn1(1) rn'(1,2) by (intro exI [of _ rn']) simp
qed (simp add: wired_def)

lemma servers_fold:
  "servers (fold (\<lambda>i. AddServer (server_name i) i) is rn) (server_name j) =
     (if j \<in> set is then Some j else servers rn (server_name j))"
  by (induction "is" arbitrary: rn) (auto simp: AddServer_def)

lemma fields_fold [simp]:
  "ends (fold (\<lambda>i. AddServer (server_name i) i) is rn) = ends rn"
  "heap (fold (\<lambda>i. AddServer (server_name i) i) is rn) = heap rn"
  "reliable (fold (\<lambda>i. AddServer (server_name i) i) is rn) = reliable rn"
  "net_done (fold (\<lambda>i. AddServer (server_name i) i) is rn) = net_done rn"
  by (induction "is" arbitrary: rn) (simp_all add: AddServer_def)

lemma wire_routes:
  "\<exists>rn. wire n svc = Some rn \<and> reliable rn \<and> \<not> net_done rn \<and>
     (\<forall>i < n. \<forall>j < n. i \<noteq> j \<longrightarrow> enabled rn (client_name i j) \<and> connections rn (client_name i j) = Some (server_name j)) \<and>
     (\<forall>j < n. servers rn (server_name j) = Some j \<and> services (heap rn j) (svc_name (svc j)) = Some (svc j) \<and>
       dispatchf (heap rn j) = None)"
proof -
  define rn0 :: "'a Network" where "rn0 = fold (\<lambda>i. AddServer (server_name i) i) [0..<n] MakeNetwork"
  have rn0: "servers rn0 (server_name j) = Some j" if "j < n" for j using that by (simp add: rn0_def servers_fold)
  have "wired {} rn0" by (simp add: wired_def rn0_def) (simp add: MakeNetwork_def)
  from wire_nodes_wired [OF this _ distinct_upt, of 0 n n svc] obtain rn where
    rn: "wire_nodes n svc [0..<n] rn0 = Some rn" "wired ({} \<union> {(i, j) | i j. i \<in> set [0..<n] \<and> j < n \<and> j \<noteq> i}) rn"
    "servers rn = servers rn0" "heap rn = (\<lambda>i. if i \<in> set [0..<n] then AddService (svc i) (heap rn0 i) else heap rn0 i)"
    "reliable rn = reliable rn0" "net_done rn = net_done rn0" by blast
  have "reliable rn0" "\<not> net_done rn0" "dispatchf (heap rn0 j) = None" for j by (simp_all add: rn0_def MakeNetwork_def MakeServer_def)
  moreover have "wire n svc = Some rn" using rn(1) by (simp add: wire_def rn0_def)
  ultimately show ?thesis using rn(2-6) rn0 by (intro exI [of _ rn]) (auto simp: wired_def AddService_def)
qed

end
