(* ===== verification/Labgob.thy ===== *)
theory Labgob
  imports Go_Prelude "HOL-Library.Multiset"
begin

text \<open>
  The wrapper of \<^verbatim>\<open>internal/raft/labgob/labgob.go\<close> around \<^verbatim>\<open>encoding/gob\<close>: before a value is
  encoded, decoded or registered, its type is searched for fields that gob would skip silently, and the target of a decoding is
  searched for values that gob may leave in place. A \<^verbatim>\<open>reflect.Type\<close> is a value of a type \<open>'t\<close>, which a record
  \<open>reflect\<close> describes: the finitely many types of a program with their kinds and names. The gob library is a
  parameter. \<open>None\<close> is a panic (the type of a nil interface) or missing fuel; the fuel is the number of types, which is
  proved to be enough. Field names are ASCII. Each operation runs alone here; in the source the lock covers the map and the
  counter, not the whole search.

  The lemmas describe the search as reachability: every type that can be reached from the value is checked,
  and every lower-case field is reported exactly once over the life of the process.
\<close>

section \<open>Reflection\<close>

datatype basic_kind = BoolKind | IntKind | FloatKind | StringKind

datatype 't Kind =
    Struct "(string \<times> 't) list"
  | Slice 't
  | Array 't
  | Ptr 't
  | MapOf 't 't \<comment> \<open>element and key\<close>
  | BasicKind basic_kind
  | OtherKind

record 't reflect =
  types :: "'t list"
  kind :: "'t \<Rightarrow> 't Kind"
  type_name :: "'t \<Rightarrow> string"

text \<open>Values, as far as the search of a decoding target looks at them; a float is its bit pattern.\<close>

datatype basic = BoolB bool | IntB int | FloatB "64 word" | StringB string

datatype 't Value =
    StructV 't "(string \<times> 't Value) list"
  | PtrV 't "'t Value option"
  | BasicV 't basic
  | OtherV 't

primrec typeOf :: "'t Value \<Rightarrow> 't" where
  "typeOf (StructV t _) = t"
| "typeOf (PtrV t _) = t"
| "typeOf (BasicV t _) = t"
| "typeOf (OtherV t) = t"

text \<open>\<^verbatim>\<open>reflect.DeepEqual\<close> with the zero value; both zeros of floating-point numbers are equal.\<close>

primrec is_zero :: "basic \<Rightarrow> bool" where
  "is_zero (BoolB b) \<longleftrightarrow> \<not> b"
| "is_zero (IntB i) \<longleftrightarrow> i = 0"
| "is_zero (FloatB w) \<longleftrightarrow> w = 0 \<or> w = 2 ^ 63"
| "is_zero (StringB s) \<longleftrightarrow> s = []"

text \<open>\<^verbatim>\<open>unicode.IsUpper\<close> of the first rune; of the empty name it is the replacement character.\<close>

definition upper_case :: "string \<Rightarrow> bool" where
  "upper_case name = (case name of [] \<Rightarrow> False | c # _ \<Rightarrow> of_char c \<in> {65 .. 90 :: nat})"

section \<open>The search of a type\<close>

datatype warning =
    LowerCaseField string string
  | NonDefault string

record 't labgob =
  errorCount :: nat
  checked :: "'t set"
  printed :: "warning list"

definition initial_labgob :: "'t labgob" where
  "initial_labgob = \<lparr>errorCount = 0, checked = {}, printed = []\<rparr>"

definition check_name :: "string \<Rightarrow> string \<Rightarrow> 't labgob \<Rightarrow> 't labgob" where
  "check_name struct name s =
     (if \<not> upper_case name
      then s\<lparr>printed := printed s @ [LowerCaseField name struct], errorCount := errorCount s + 1\<rparr>
      else s)"

primrec check_fields ::
  "('t \<Rightarrow> 't labgob \<Rightarrow> 't labgob option) \<Rightarrow> string \<Rightarrow> (string \<times> 't) list \<Rightarrow> 't labgob \<Rightarrow> 't labgob option"
where
  "check_fields check struct [] s = Some s"
| "check_fields check struct (f # fs) s =
     (case check (snd f) (check_name struct (fst f) s) of
        None \<Rightarrow> None
      | Some s' \<Rightarrow> check_fields check struct fs s')"

primrec checkType :: "nat \<Rightarrow> 't reflect \<Rightarrow> 't \<Rightarrow> 't labgob \<Rightarrow> 't labgob option" where
  "checkType 0 r t s = None"
| "checkType (Suc n) r t s =
     (if t \<in> checked s then Some s
      else let s = s\<lparr>checked := insert t (checked s)\<rparr>
           in case kind r t of
                Struct fs \<Rightarrow> check_fields (checkType n r) (type_name r t) fs s
              | Slice e \<Rightarrow> checkType n r e s
              | Array e \<Rightarrow> checkType n r e s
              | Ptr e \<Rightarrow> checkType n r e s
              | MapOf e k \<Rightarrow>
                  (case checkType n r e s of
                     None \<Rightarrow> None
                   | Some s' \<Rightarrow> checkType n r k s')
              | _ \<Rightarrow> Some s)"

definition checkValue :: "'t reflect \<Rightarrow> 't Value option \<Rightarrow> 't labgob \<Rightarrow> 't labgob option" where
  "checkValue r v s =
     (case v of
        None \<Rightarrow> None
      | Some v \<Rightarrow> checkType (length (types r) + 1) r (typeOf v) s)"

section \<open>The search of a decoding target\<close>

definition warn_default :: "string \<Rightarrow> string \<Rightarrow> 't labgob \<Rightarrow> 't labgob" where
  "warn_default name tname s =
     (let s = (if errorCount s < 1
               then s\<lparr>printed := printed s @ [NonDefault (if name = [] then tname else name)]\<rparr>
               else s)
      in s\<lparr>errorCount := errorCount s + 1\<rparr>)"

function checkDefault1 :: "'t reflect \<Rightarrow> 't Value \<Rightarrow> nat \<Rightarrow> string \<Rightarrow> 't labgob \<Rightarrow> 't labgob" where
  "checkDefault1 r value depth name s =
     (if depth > 3 then s
      else case value of
             StructV t fs \<Rightarrow>
               fold (\<lambda>(name1, vv). checkDefault1 r vv (depth + 1)
                                     (if name \<noteq> [] then name @ ''.'' @ name1 else name1)) fs s
           | PtrV t None \<Rightarrow> s
           | PtrV t (Some elem) \<Rightarrow> checkDefault1 r elem (depth + 1) name s
           | BasicV t b \<Rightarrow> if \<not> is_zero b then warn_default name (type_name r t) s else s
           | OtherV t \<Rightarrow> s)"
  by auto
termination by (relation "measure (\<lambda>(r, value, depth, name, s). 4 - depth)") auto

declare checkDefault1.simps [simp del]

definition checkDefault :: "'t reflect \<Rightarrow> 't Value option \<Rightarrow> 't labgob \<Rightarrow> 't labgob" where
  "checkDefault r value s =
     (case value of None \<Rightarrow> s | Some v \<Rightarrow> checkDefault1 r v 1 [] s)"

section \<open>The wrapped coders\<close>

text \<open>The gob library: the states \<open>'e\<close> of an encoder and its writer, \<open>'d\<close> of a decoder and its reader, and
  \<open>'g\<close> of the registry, whose operations may panic.\<close>

record ('t, 'e, 'd, 'g) gob =
  gob_NewEncoder :: "bytes \<Rightarrow> 'e"
  gob_Encode :: "'t Value option \<Rightarrow> 'e \<Rightarrow> string option \<times> 'e"
  gob_Bytes :: "'e \<Rightarrow> bytes"
  gob_NewDecoder :: "bytes \<Rightarrow> 'd"
  gob_Decode :: "'t Value option \<Rightarrow> 'd \<Rightarrow> string option \<times> 't Value option \<times> 'd"
  gob_Register :: "'t Value option \<Rightarrow> 'g \<Rightarrow> 'g option"
  gob_RegisterName :: "string \<Rightarrow> 't Value option \<Rightarrow> 'g \<Rightarrow> 'g option"

record 'e LabEncoder =
  enc_gob :: 'e

record 'd LabDecoder =
  dec_gob :: 'd

definition NewEncoder :: "('t, 'e, 'd, 'g) gob \<Rightarrow> bytes \<Rightarrow> 'e LabEncoder" where
  "NewEncoder g w = \<lparr>enc_gob = gob_NewEncoder g w\<rparr>"

definition Encode ::
  "('t, 'e, 'd, 'g) gob \<Rightarrow> 't reflect \<Rightarrow> 't Value option \<Rightarrow> 'e LabEncoder \<Rightarrow> 't labgob \<Rightarrow>
   (string option \<times> 'e LabEncoder \<times> 't labgob) option"
where
  "Encode g r v enc s =
     (case checkValue r v s of
        None \<Rightarrow> None
      | Some s' \<Rightarrow>
          (case gob_Encode g v (enc_gob enc) of (err, e) \<Rightarrow> Some (err, enc\<lparr>enc_gob := e\<rparr>, s')))"

text \<open>A \<^verbatim>\<open>reflect.Value\<close> that holds a value is encoded as that value.\<close>

definition EncodeValue ::
  "('t, 'e, 'd, 'g) gob \<Rightarrow> 't reflect \<Rightarrow> 't Value \<Rightarrow> 'e LabEncoder \<Rightarrow> 't labgob \<Rightarrow>
   (string option \<times> 'e LabEncoder \<times> 't labgob) option"
where
  "EncodeValue g r v enc s =
     (case checkValue r (Some v) s of
        None \<Rightarrow> None
      | Some s' \<Rightarrow>
          (case gob_Encode g (Some v) (enc_gob enc) of (err, e) \<Rightarrow> Some (err, enc\<lparr>enc_gob := e\<rparr>, s')))"

definition NewDecoder :: "('t, 'e, 'd, 'g) gob \<Rightarrow> bytes \<Rightarrow> 'd LabDecoder" where
  "NewDecoder g bs = \<lparr>dec_gob = gob_NewDecoder g bs\<rparr>"

definition Decode ::
  "('t, 'e, 'd, 'g) gob \<Rightarrow> 't reflect \<Rightarrow> 't Value option \<Rightarrow> 'd LabDecoder \<Rightarrow> 't labgob \<Rightarrow>
   (string option \<times> 't Value option \<times> 'd LabDecoder \<times> 't labgob) option"
where
  "Decode g r v dec s =
     (case checkValue r v s of
        None \<Rightarrow> None
      | Some s1 \<Rightarrow>
          let s2 = checkDefault r v s1
          in case gob_Decode g v (dec_gob dec) of (err, v', d) \<Rightarrow> Some (err, v', dec\<lparr>dec_gob := d\<rparr>, s2))"

definition Register ::
  "('t, 'e, 'd, 'g) gob \<Rightarrow> 't reflect \<Rightarrow> 't Value option \<Rightarrow> 'g \<Rightarrow> 't labgob \<Rightarrow> ('g \<times> 't labgob) option"
where
  "Register g r v reg s =
     (case checkValue r v s of
        None \<Rightarrow> None
      | Some s' \<Rightarrow> (case gob_Register g v reg of None \<Rightarrow> None | Some reg' \<Rightarrow> Some (reg', s')))"

definition RegisterName ::
  "('t, 'e, 'd, 'g) gob \<Rightarrow> 't reflect \<Rightarrow> string \<Rightarrow> 't Value option \<Rightarrow> 'g \<Rightarrow> 't labgob \<Rightarrow> ('g \<times> 't labgob) option"
where
  "RegisterName g r name v reg s =
     (case checkValue r v s of
        None \<Rightarrow> None
      | Some s' \<Rightarrow> (case gob_RegisterName g name v reg of None \<Rightarrow> None | Some reg' \<Rightarrow> Some (reg', s')))"

text \<open>\<^verbatim>\<open>Marshall\<close> and \<^verbatim>\<open>Unmarshall\<close> of \<^verbatim>\<open>labrpc.go\<close>; an error of
  the coder ends the process.\<close>

definition Marshall ::
  "('t, 'e, 'd, 'g) gob \<Rightarrow> 't reflect \<Rightarrow> 't Value option \<Rightarrow> 't labgob \<Rightarrow> (bytes \<times> 't labgob) option"
where
  "Marshall g r args s =
     (case Encode g r args (NewEncoder g []) s of
        Some (None, qe, s') \<Rightarrow> Some (gob_Bytes g (enc_gob qe), s')
      | _ \<Rightarrow> None)"

definition Unmarshall ::
  "('t, 'e, 'd, 'g) gob \<Rightarrow> 't reflect \<Rightarrow> bytes \<Rightarrow> 't Value option \<Rightarrow> 't labgob \<Rightarrow> ('t Value option \<times> 't labgob) option"
where
  "Unmarshall g r b repl s =
     (case Decode g r repl (NewDecoder g b) s of
        Some (None, v, rd, s') \<Rightarrow> Some (v, s')
      | _ \<Rightarrow> None)"

section \<open>The search visits what can be reached\<close>

text \<open>The types a type refers to, and what is wrong with its own fields.\<close>

definition refs :: "'t reflect \<Rightarrow> 't \<Rightarrow> 't list" where
  "refs r t =
     (case kind r t of
        Struct fs \<Rightarrow> map snd fs
      | Slice e \<Rightarrow> [e] | Array e \<Rightarrow> [e] | Ptr e \<Rightarrow> [e]
      | MapOf e k \<Rightarrow> [e, k]
      | _ \<Rightarrow> [])"

definition complaints :: "'t reflect \<Rightarrow> 't \<Rightarrow> warning list" where
  "complaints r t =
     (case kind r t of
        Struct fs \<Rightarrow> [LowerCaseField f (type_name r t). (f, _) \<leftarrow> fs, \<not> upper_case f]
      | _ \<Rightarrow> [])"

definition reachable_types :: "'t reflect \<Rightarrow> 't \<Rightarrow> 't set" where
  "reachable_types r t = {u. (t, u) \<in> {(a, b). b \<in> set (refs r a)}\<^sup>*}"

definition closed_types :: "'t reflect \<Rightarrow> 't set \<Rightarrow> bool" where
  "closed_types r T \<longleftrightarrow> (\<forall>t \<in> T. set (refs r t) \<subseteq> T)"

text \<open>What a part of the search has done: the new types \<open>N\<close> come with their references, and their fields and those given
  in advance are reported.\<close>

definition visited :: "'t reflect \<Rightarrow> 't list \<Rightarrow> warning list \<Rightarrow> 't labgob \<Rightarrow> 't labgob \<Rightarrow> bool" where
  "visited r ts cs s s' \<longleftrightarrow>
     (\<exists>N ds. finite N \<and> N \<inter> checked s = {} \<and> checked s' = checked s \<union> N \<and> set ts \<subseteq> checked s' \<and>
        N \<subseteq> (\<Union>t \<in> set ts. reachable_types r t) \<and> (\<forall>u \<in> N. set (refs r u) \<subseteq> checked s') \<and>
        printed s' = printed s @ ds \<and> errorCount s' = errorCount s + length ds \<and>
        mset ds = mset cs + (\<Sum>u \<in> N. mset (complaints r u)))"

lemma visitedE:
  assumes "visited r ts cs s s'"
  obtains N ds where "finite N" "N \<inter> checked s = {}" "checked s' = checked s \<union> N" "set ts \<subseteq> checked s'"
    "N \<subseteq> (\<Union>t \<in> set ts. reachable_types r t)" "\<forall>u \<in> N. set (refs r u) \<subseteq> checked s'"
    "printed s' = printed s @ ds" "errorCount s' = errorCount s + length ds"
    "mset ds = mset cs + (\<Sum>u \<in> N. mset (complaints r u))"
  using assms unfolding visited_def by blast

lemma visited_old: "t \<in> checked s \<Longrightarrow> visited r [t] [] s s"
  unfolding visited_def by (intro exI [of _ "{}"] exI [of _ "[]"]) simp

lemma visited_none [simp]: "visited r [] [] s s"
  unfolding visited_def by (intro exI [of _ "{}"] exI [of _ "[]"]) simp

lemma visited_mono: "visited r ts cs s s' \<Longrightarrow> checked s \<subseteq> checked s'"
  by (auto elim: visitedE)

lemma visited_append:
  assumes "visited r ts cs s s1" and "visited r us ds s1 s2"
  shows "visited r (ts @ us) (cs @ ds) s s2"
proof -
  obtain N xs where N: "finite N" "N \<inter> checked s = {}" "checked s1 = checked s \<union> N" "set ts \<subseteq> checked s1"
    "N \<subseteq> (\<Union>t \<in> set ts. reachable_types r t)" "\<forall>u \<in> N. set (refs r u) \<subseteq> checked s1"
    "printed s1 = printed s @ xs" "errorCount s1 = errorCount s + length xs"
    "mset xs = mset cs + (\<Sum>u \<in> N. mset (complaints r u))"
    by (rule visitedE [OF assms(1)])
  obtain M ys where M: "finite M" "M \<inter> checked s1 = {}" "checked s2 = checked s1 \<union> M" "set us \<subseteq> checked s2"
    "M \<subseteq> (\<Union>t \<in> set us. reachable_types r t)" "\<forall>u \<in> M. set (refs r u) \<subseteq> checked s2"
    "printed s2 = printed s1 @ ys" "errorCount s2 = errorCount s1 + length ys"
    "mset ys = mset ds + (\<Sum>u \<in> M. mset (complaints r u))"
    by (rule visitedE [OF assms(2)])
  have disj: "N \<inter> M = {}" using N(3) M(2) by auto
  show ?thesis unfolding visited_def
  proof (intro exI [of _ "N \<union> M"] exI [of _ "xs @ ys"] conjI)
    show "(N \<union> M) \<inter> checked s = {}" using N(2,3) M(2) by auto
    show "N \<union> M \<subseteq> (\<Union>t \<in> set (ts @ us). reachable_types r t)" using N(5) M(5) by auto
    show "\<forall>u \<in> N \<union> M. set (refs r u) \<subseteq> checked s2" using N(6) M(3,6) by blast
    show "mset (xs @ ys) = mset (cs @ ds) + (\<Sum>u \<in> N \<union> M. mset (complaints r u))"
      using N(1,9) M(1,9) disj by (simp add: sum.union_disjoint)
  qed (use N M in auto)
qed

lemma reachable_types_self [simp]: "t \<in> reachable_types r t"
  by (simp add: reachable_types_def)

lemma reachable_types_step: "u \<in> set (refs r t) \<Longrightarrow> reachable_types r u \<subseteq> reachable_types r t"
  by (auto simp: reachable_types_def intro: converse_rtrancl_into_rtrancl)

text \<open>A new type is marked before its references are searched.\<close>

lemma visited_new:
  assumes "t \<notin> checked s" and "visited r (refs r t) (complaints r t) (s\<lparr>checked := insert t (checked s)\<rparr>) s'"
  shows "visited r [t] [] s s'"
proof -
  obtain N ds where N: "finite N" "N \<inter> insert t (checked s) = {}" "checked s' = insert t (checked s) \<union> N"
    "set (refs r t) \<subseteq> checked s'" "N \<subseteq> (\<Union>u \<in> set (refs r t). reachable_types r u)"
    "\<forall>u \<in> N. set (refs r u) \<subseteq> checked s'" "printed s' = printed s @ ds" "errorCount s' = errorCount s + length ds"
    "mset ds = mset (complaints r t) + (\<Sum>u \<in> N. mset (complaints r u))"
    using assms(2) by (auto elim: visitedE)
  have "t \<notin> N" using N(2) by auto
  moreover have "N \<subseteq> reachable_types r t" using N(5) reachable_types_step by fastforce
  ultimately show ?thesis unfolding visited_def using N assms(1)
    by (intro exI [of _ "insert t N"] exI [of _ ds]) auto
qed

lemma visited_name:
  "visited r [] [LowerCaseField f n. f \<leftarrow> [name], \<not> upper_case f] s (check_name n name s)"
  unfolding visited_def by (intro exI [of _ "{}"] exI [of _ "[LowerCaseField f n. f \<leftarrow> [name], \<not> upper_case f]"])
    (simp add: check_name_def)

section \<open>The search ends\<close>

text \<open>The search of a single type, for the steps of the induction over the fuel.\<close>

definition searches :: "'t reflect \<Rightarrow> 't set \<Rightarrow> nat \<Rightarrow> 't \<Rightarrow> ('t \<Rightarrow> 't labgob \<Rightarrow> 't labgob option) \<Rightarrow> bool" where
  "searches r T n t check \<longleftrightarrow>
     (\<forall>s. card (T - checked s) < n \<longrightarrow> (\<exists>s'. check t s = Some s' \<and> visited r [t] [] s s'))"

lemma unchecked_mono: "finite T \<Longrightarrow> checked s \<subseteq> checked s' \<Longrightarrow> card (T - checked s') \<le> card (T - checked s)"
  by (rule card_mono) auto

lemma check_fields_visits:
  assumes "finite T" and "\<forall>f \<in> set fs. searches r T n (snd f) check" and "card (T - checked s) < n"
  shows "\<exists>s'. check_fields check name fs s = Some s' \<and>
    visited r (map snd fs) [LowerCaseField f name. (f, _) \<leftarrow> fs, \<not> upper_case f] s s'"
  using assms(2,3)
proof (induction fs arbitrary: s)
  case (Cons f fs)
  obtain g u where f: "f = (g, u)" by (rule prod.exhaust)
  let ?s1 = "check_name name g s"
  have v1: "visited r [] [LowerCaseField f name. f \<leftarrow> [g], \<not> upper_case f] s ?s1" by (rule visited_name)
  have n1: "card (T - checked ?s1) < n" using unchecked_mono [OF assms(1) visited_mono [OF v1]] Cons.prems(2) by linarith
  then obtain s2 where s2: "check u ?s1 = Some s2" and v2: "visited r [u] [] ?s1 s2"
    using Cons.prems(1) f by (auto simp: searches_def)
  have "card (T - checked s2) < n" using unchecked_mono [OF assms(1) visited_mono [OF v2]] n1 by linarith
  with Cons.IH Cons.prems(1) obtain s3 where s3: "check_fields check name fs s2 = Some s3"
    "visited r (map snd fs) [LowerCaseField f name. (f, _) \<leftarrow> fs, \<not> upper_case f] s2 s3" by fastforce
  have "visited r (map snd (f # fs)) [LowerCaseField f name. (f, _) \<leftarrow> f # fs, \<not> upper_case f] s s3"
    using visited_append [OF visited_append [OF v1 v2] s3(2)] f by simp
  then show ?case using f s2 s3(1) by simp
qed simp

lemma checkType_searches:
  assumes "finite T" and "closed_types r T"
  shows "t \<in> T \<Longrightarrow> searches r T n t (checkType n r)"
proof (induction n arbitrary: t)
  case 0
  show ?case by (simp add: searches_def)
next
  case (Suc n)
  have refs: "u \<in> set (refs r t) \<Longrightarrow> searches r T n u (checkType n r)" for u
    using Suc assms(2) by (auto simp: closed_types_def)
  show ?case unfolding searches_def
  proof (intro allI impI)
    fix s :: "'a labgob"
    assume fuel: "card (T - checked s) < Suc n"
    show "\<exists>s'. checkType (Suc n) r t s = Some s' \<and> visited r [t] [] s s'"
    proof (cases "t \<in> checked s")
      case True
      then show ?thesis by (simp add: visited_old)
    next
      case False
      let ?s = "s\<lparr>checked := insert t (checked s)\<rparr>"
      have "card (T - checked ?s) < card (T - checked s)"
        using Suc.prems False assms(1) by (intro psubset_card_mono) auto
      then have n: "card (T - checked ?s) < n" using fuel by linarith
      have one: "\<exists>s'. checkType n r u ?s = Some s' \<and> visited r [u] [] ?s s'" if "u \<in> set (refs r t)" for u
        using refs [OF that] n unfolding searches_def by blast
      have "\<exists>s'. checkType (Suc n) r t s = Some s' \<and> visited r (refs r t) (complaints r t) ?s s'"
      proof (cases "kind r t")
        case (Struct fs)
        have "\<forall>f \<in> set fs. searches r T n (snd f) (checkType n r)" using refs Struct by (simp add: refs_def)
        from check_fields_visits [OF assms(1) this n] Struct False show ?thesis
          by (simp add: refs_def complaints_def)
      next
        case (MapOf e k)
        have ek: "refs r t = [e, k]" "complaints r t = []" using MapOf by (simp_all add: refs_def complaints_def)
        with one obtain s1 where s1: "checkType n r e ?s = Some s1" "visited r [e] [] ?s s1" by auto
        have "card (T - checked s1) < n" using unchecked_mono [OF assms(1) visited_mono [OF s1(2)]] n by linarith
        then obtain s2 where s2: "checkType n r k s1 = Some s2" "visited r [k] [] s1 s2"
          using refs [of k] ek(1) by (auto simp: searches_def)
        show ?thesis using visited_append [OF s1(2) s2(2)] s1(1) s2(1) MapOf False ek by simp
      qed (use one False in \<open>simp_all add: refs_def complaints_def\<close>)
      then show ?thesis using visited_new [OF False] by blast
    qed
  qed
qed

text \<open>When the references of the checked types are checked, the new types are those that can be reached.\<close>

lemma closed_types_reach:
  assumes "closed_types r T" and "t \<in> T"
  shows "reachable_types r t \<subseteq> T"
proof
  fix u
  assume "u \<in> reachable_types r t"
  then have "(t, u) \<in> {(a, b). b \<in> set (refs r a)}\<^sup>*" by (simp add: reachable_types_def)
  then show "u \<in> T" by (induction rule: rtrancl_induct) (use assms in \<open>auto simp: closed_types_def\<close>)
qed

lemma visited_all:
  assumes "visited r [t] [] s s'" and "closed_types r (checked s)"
  shows "checked s' = checked s \<union> reachable_types r t \<and> closed_types r (checked s') \<and>
    (\<exists>cs. printed s' = printed s @ cs \<and> errorCount s' = errorCount s + length cs \<and>
       mset cs = (\<Sum>u \<in> reachable_types r t - checked s. mset (complaints r u)))"
proof -
  obtain N ds where N: "N \<inter> checked s = {}" "checked s' = checked s \<union> N" "t \<in> checked s'"
    "N \<subseteq> reachable_types r t" "\<forall>u \<in> N. set (refs r u) \<subseteq> checked s'"
    "printed s' = printed s @ ds" "errorCount s' = errorCount s + length ds"
    "mset ds = (\<Sum>u \<in> N. mset (complaints r u))"
    by (rule visitedE [OF assms(1)]) simp
  have closed: "closed_types r (checked s')" using N(2,5) assms(2) by (auto simp: closed_types_def)
  have "reachable_types r t \<subseteq> checked s'" by (rule closed_types_reach [OF closed N(3)])
  then have "checked s' = checked s \<union> reachable_types r t" "N = reachable_types r t - checked s"
    using N(1,2,4) by auto
  then show ?thesis using N closed by auto
qed

text \<open>The types of the program refer to each other only.\<close>

lemma checkValue_visits:
  assumes "closed_types r (set (types r))" and "typeOf v \<in> set (types r)" and "closed_types r (checked s)"
  shows "\<exists>s'. checkValue r (Some v) s = Some s' \<and>
    checked s' = checked s \<union> reachable_types r (typeOf v) \<and> closed_types r (checked s') \<and>
    (\<exists>cs. printed s' = printed s @ cs \<and> errorCount s' = errorCount s + length cs \<and>
       mset cs = (\<Sum>u \<in> reachable_types r (typeOf v) - checked s. mset (complaints r u)))"
proof -
  have "card (set (types r) - checked s) \<le> length (types r)"
    by (rule le_trans [OF card_mono [OF finite_set Diff_subset] card_length])
  then obtain s' where c: "checkType (length (types r) + 1) r (typeOf v) s = Some s'" and v: "visited r [typeOf v] [] s s'"
    using checkType_searches [OF finite_set assms(1,2), of "length (types r) + 1"] unfolding searches_def
    by (metis Suc_eq_plus1 less_Suc_eq_le)
  have "checkValue r (Some v) s = Some s'" by (simp only: checkValue_def option.case c)
  with visited_all [OF v assms(3)] show ?thesis by blast
qed

section \<open>Fresh targets\<close>

text \<open>\<^verbatim>\<open>reflect.Zero\<close>, which follows the fields of structs, and the pointer to it that
  \<^verbatim>\<open>reflect.New\<close> or the address of a new variable is.\<close>

primrec zero_basic :: "basic_kind \<Rightarrow> basic" where
  "zero_basic BoolKind = BoolB False"
| "zero_basic IntKind = IntB 0"
| "zero_basic FloatKind = FloatB 0"
| "zero_basic StringKind = StringB []"

primrec Zero :: "nat \<Rightarrow> 't reflect \<Rightarrow> 't \<Rightarrow> 't Value" where
  "Zero 0 r t = OtherV t"
| "Zero (Suc n) r t =
     (case kind r t of
        Struct fs \<Rightarrow> StructV t (map (\<lambda>(f, u). (f, Zero n r u)) fs)
      | Ptr _ \<Rightarrow> PtrV t None
      | BasicKind k \<Rightarrow> BasicV t (zero_basic k)
      | _ \<Rightarrow> OtherV t)"

definition New :: "'t reflect \<Rightarrow> 't \<Rightarrow> 't \<Rightarrow> 't Value" where
  "New r ptr t = PtrV ptr (Some (Zero (length (types r) + 1) r t))"

text \<open>A target that holds only zero values, and what is behind its pointers as well.\<close>

fun fresh :: "'t Value \<Rightarrow> bool" where
  "fresh (StructV t fs) \<longleftrightarrow> (\<forall>f \<in> set fs. fresh (snd f))"
| "fresh (PtrV t None) \<longleftrightarrow> True"
| "fresh (PtrV t (Some v)) \<longleftrightarrow> fresh v"
| "fresh (BasicV t b) \<longleftrightarrow> is_zero b"
| "fresh (OtherV t) \<longleftrightarrow> True"

lemma is_zero_zero [simp]: "is_zero (zero_basic k)"
  by (cases k) simp_all

lemma fresh_Zero: "fresh (Zero n r t)"
proof (induction n arbitrary: t)
  case (Suc n)
  then show ?case by (cases "kind r t") auto
qed simp

lemma fold_same: "(\<And>x. x \<in> set xs \<Longrightarrow> f x s = s) \<Longrightarrow> fold f xs s = s"
  by (induction xs) auto

lemma checkDefault1_fresh: "fresh v \<Longrightarrow> checkDefault1 r v depth name s = s"
proof (induction v arbitrary: depth name rule: fresh.induct)
  case (1 t fs)
  have "checkDefault1 r (snd f) d n s = s" if "f \<in> set fs" for f d n
    using 1 that by auto
  then have "fold (\<lambda>(name1, vv). checkDefault1 r vv (depth + 1) (if name \<noteq> [] then name @ ''.'' @ name1 else name1)) fs s = s"
    by (intro fold_same) (auto simp: split_beta)
  then show ?case by (simp add: checkDefault1.simps [of r "StructV t fs"])
qed (simp_all add: checkDefault1.simps [of r "PtrV _ _"] checkDefault1.simps [of r "BasicV _ _"] checkDefault1.simps [of r "OtherV _"])

lemma typeOf_New [simp]: "typeOf (New r p t) = p"
  by (simp add: New_def)

lemma fresh_New: "fresh (New r p t)"
  unfolding New_def by (simp only: fresh.simps fresh_Zero)

lemma checkDefault_fresh: "fresh v \<Longrightarrow> checkDefault r (Some v) s = s"
  by (simp add: checkDefault_def checkDefault1_fresh)

lemmas checkDefault_New [simp] = checkDefault_fresh [OF fresh_New]

text \<open>A struct without structs inside, behind a pointer: the replies of the calls are of this form.\<close>

definition non_default :: "(string \<times> 't Value) list \<Rightarrow> string list" where
  "non_default fs = [f. (f, v) \<leftarrow> fs, \<not> fresh v]"

definition plain_field :: "string \<times> 't Value \<Rightarrow> bool" where
  "plain_field f \<longleftrightarrow> fst f \<noteq> [] \<and> (case snd f of BasicV _ _ \<Rightarrow> True | OtherV _ \<Rightarrow> True | _ \<Rightarrow> False)"

lemma checkDefault1_plain:
  "plain_field f \<Longrightarrow> checkDefault1 r (snd f) 3 (fst f) s =
     s\<lparr>errorCount := errorCount s + length (non_default [f]),
       printed := printed s @ map NonDefault (if errorCount s < 1 then non_default [f] else [])\<rparr>"
  by (cases f) (auto simp: plain_field_def non_default_def warn_default_def checkDefault1.simps [of r "BasicV _ _"]
    checkDefault1.simps [of r "OtherV _"] split: Value.splits)

lemma fold_plain:
  "\<forall>f \<in> set fs. plain_field f \<Longrightarrow> fold (\<lambda>(name1, vv). checkDefault1 r vv 3 name1) fs s =
     s\<lparr>errorCount := errorCount s + length (non_default fs),
       printed := printed s @ map NonDefault (if errorCount s < 1 then take 1 (non_default fs) else [])\<rparr>"
proof (induction fs arbitrary: s)
  case (Cons f fs)
  then have "checkDefault1 r (snd f) 3 (fst f) s =
     s\<lparr>errorCount := errorCount s + length (non_default [f]),
       printed := printed s @ map NonDefault (if errorCount s < 1 then non_default [f] else [])\<rparr>"
    by (intro checkDefault1_plain) simp
  with Cons show ?case by (cases "fresh (snd f)") (auto simp: non_default_def split_beta)
qed (simp add: non_default_def)

end
