(* ===== verification/Messages.thy ===== *)
theory Messages
  imports Labgob
begin

text \<open>
  The types that the program hands to the coder of \<^verbatim>\<open>labgob\<close>: the arguments and replies of the two calls
  of \<^verbatim>\<open>internal/raft/raft.go\<close>, its persistent state, and the operation of
  \<^verbatim>\<open>internal/store/store.go\<close> that \<^verbatim>\<open>main\<close> registers. The definitions list the fields
  of the structs as the source declares them. No field is lower-case and every target of a decoding is fresh, so the coder never warns.
\<close>

datatype msg =
    T_int | T_int64 | T_bool | T_string | T_interface
  | T_LogEntry | T_LogEntries
  | T_RequestVoteArgs | T_RequestVoteReply | T_AppendEntriesArgs | T_AppendEntriesReply
  | T_Op

datatype msg_type =
    Plain msg
  | Pointer msg
  | DoublePointer msg \<comment> \<open>what \<^verbatim>\<open>reflect.New\<close> makes for a parameter that is a pointer\<close>

definition LogEntry_fields :: "(string \<times> msg) list" where
  "LogEntry_fields = [(''Term'', T_int), (''Command'', T_interface)]"

definition AppendEntriesArgs_fields :: "(string \<times> msg) list" where
  "AppendEntriesArgs_fields =
     [(''Term'', T_int), (''LeaderID'', T_int), (''PrevLogIndex'', T_int), (''PrevLogTerm'', T_int),
      (''Entries'', T_LogEntries), (''LeaderCommit'', T_int)]"

definition AppendEntriesReply_fields :: "(string \<times> msg) list" where
  "AppendEntriesReply_fields =
     [(''Term'', T_int), (''Success'', T_bool), (''XTerm'', T_int), (''XIndex'', T_int), (''XLen'', T_int)]"

definition RequestVoteArgs_fields :: "(string \<times> msg) list" where
  "RequestVoteArgs_fields =
     [(''Term'', T_int), (''CandidateId'', T_int), (''LastLogIndex'', T_int), (''LastLogTerm'', T_int)]"

definition RequestVoteReply_fields :: "(string \<times> msg) list" where
  "RequestVoteReply_fields = [(''Term'', T_int), (''VoteGranted'', T_bool)]"

definition Op_fields :: "(string \<times> msg) list" where
  "Op_fields = [(''Operation'', T_string), (''Key'', T_string), (''Value'', T_string), (''OpId'', T_int64)]"

definition plain_struct :: "(string \<times> msg) list \<Rightarrow> msg_type Kind" where
  "plain_struct fs = Struct [(f, Plain m). (f, m) \<leftarrow> fs]"

fun msg_kind :: "msg_type \<Rightarrow> msg_type Kind" where
  "msg_kind (Plain T_LogEntry) = plain_struct LogEntry_fields"
| "msg_kind (Plain T_LogEntries) = Slice (Plain T_LogEntry)"
| "msg_kind (Plain T_RequestVoteArgs) = plain_struct RequestVoteArgs_fields"
| "msg_kind (Plain T_RequestVoteReply) = plain_struct RequestVoteReply_fields"
| "msg_kind (Plain T_AppendEntriesArgs) = plain_struct AppendEntriesArgs_fields"
| "msg_kind (Plain T_AppendEntriesReply) = plain_struct AppendEntriesReply_fields"
| "msg_kind (Plain T_Op) = plain_struct Op_fields"
| "msg_kind (Plain T_bool) = BasicKind BoolKind"
| "msg_kind (Plain T_string) = BasicKind StringKind"
| "msg_kind (Plain T_interface) = OtherKind"
| "msg_kind (Plain _) = BasicKind IntKind"
| "msg_kind (Pointer m) = Ptr (Plain m)"
| "msg_kind (DoublePointer m) = Ptr (Pointer m)"

text \<open>The names of the types; a type made of others has none.\<close>

fun msg_name :: "msg_type \<Rightarrow> string" where
  "msg_name (Plain T_int) = ''int''"
| "msg_name (Plain T_int64) = ''int64''"
| "msg_name (Plain T_bool) = ''bool''"
| "msg_name (Plain T_string) = ''string''"
| "msg_name (Plain T_LogEntry) = ''LogEntry''"
| "msg_name (Plain T_RequestVoteArgs) = ''RequestVoteArgs''"
| "msg_name (Plain T_RequestVoteReply) = ''RequestVoteReply''"
| "msg_name (Plain T_AppendEntriesArgs) = ''AppendEntriesArgs''"
| "msg_name (Plain T_AppendEntriesReply) = ''AppendEntriesReply''"
| "msg_name (Plain T_Op) = ''Op''"
| "msg_name _ = []"

definition all_msgs :: "msg list" where
  "all_msgs =
     [T_int, T_int64, T_bool, T_string, T_interface, T_LogEntry, T_LogEntries, T_RequestVoteArgs, T_RequestVoteReply,
      T_AppendEntriesArgs, T_AppendEntriesReply, T_Op]"

definition program_types :: "msg_type reflect" where
  "program_types =
     \<lparr>types = map Plain all_msgs @ map Pointer all_msgs @ map DoublePointer all_msgs, kind = msg_kind, type_name = msg_name\<rparr>"

text \<open>The states of the coder in a process of the program. It encodes and registers values of its own types, and it
  decodes into new values: the replies of a call (\<^verbatim>\<open>var reply\<close>), the space that
  \<^verbatim>\<open>reflect.New\<close> makes for the arguments of a handler, and the variables of
  \<^verbatim>\<open>readPersist\<close>.\<close>

inductive coder_states :: "(msg_type, 'e, 'd, 'g) gob \<Rightarrow> msg_type labgob \<Rightarrow> bool" for g where
  start: "coder_states g initial_labgob"
| encode: "coder_states g s \<Longrightarrow> typeOf v \<in> set (types program_types) \<Longrightarrow>
    Encode g program_types (Some v) enc s = Some (err, enc', s') \<Longrightarrow> coder_states g s'"
| encode_value: "coder_states g s \<Longrightarrow> typeOf v \<in> set (types program_types) \<Longrightarrow>
    EncodeValue g program_types v enc s = Some (err, enc', s') \<Longrightarrow> coder_states g s'"
| decode: "coder_states g s \<Longrightarrow> Decode g program_types (Some (New program_types (Pointer m) (Plain m))) dec s = Some (err, v', dec', s') \<Longrightarrow>
    coder_states g s'"
| decode_args: "coder_states g s \<Longrightarrow>
    Decode g program_types (Some (New program_types (DoublePointer m) (Pointer m))) dec s = Some (err, v', dec', s') \<Longrightarrow>
    coder_states g s'"
| register: "coder_states g s \<Longrightarrow> typeOf v \<in> set (types program_types) \<Longrightarrow>
    Register g program_types (Some v) reg s = Some (reg', s') \<Longrightarrow> coder_states g s'"

section \<open>The coder never warns\<close>

lemma all_msgs_complete [simp]: "m \<in> set all_msgs"
  by (cases m) (simp_all add: all_msgs_def)

lemma program_types_complete [simp]: "t \<in> set (types program_types)"
  by (cases t) (simp_all add: program_types_def)

lemma closed_program_types: "closed_types program_types (set (types program_types))"
  by (auto simp: closed_types_def)

lemmas fields_defs = plain_struct_def LogEntry_fields_def AppendEntriesArgs_fields_def AppendEntriesReply_fields_def
  RequestVoteArgs_fields_def RequestVoteReply_fields_def Op_fields_def

text \<open>No type of the program has a lower-case field.\<close>

lemma fields_upper_case: "complaints program_types t = []"
proof (cases t)
  case (Plain m)
  then show ?thesis
    by (cases m) (simp_all add: complaints_def program_types_def fields_defs upper_case_def)
qed (simp_all add: complaints_def program_types_def)

definition quiet :: "msg_type labgob \<Rightarrow> bool" where
  "quiet s \<longleftrightarrow> errorCount s = 0 \<and> printed s = [] \<and> closed_types program_types (checked s)"

lemma checkValue_quiet:
  assumes "quiet s"
  shows "\<exists>s'. checkValue program_types (Some v) s = Some s' \<and> quiet s'"
proof -
  obtain s' cs where s': "checkValue program_types (Some v) s = Some s'"
    "closed_types program_types (checked s')" "printed s' = printed s @ cs" "errorCount s' = errorCount s + length cs"
    "mset cs = (\<Sum>u \<in> reachable_types program_types (typeOf v) - checked s. mset (complaints program_types u))"
    using checkValue_visits [OF closed_program_types, of v s] assms by (auto simp: quiet_def)
  then show ?thesis using assms by (simp add: fields_upper_case quiet_def)
qed

lemma quiet_keeps:
  assumes "quiet s" and "checkValue program_types (Some v) s = Some s'"
  shows "quiet s'"
  using checkValue_quiet [OF assms(1), of v] assms(2) by auto

lemma coder_states_quiet: "coder_states g s \<Longrightarrow> quiet s"
proof (induction rule: coder_states.induct)
  case start
  show ?case by (simp add: quiet_def initial_labgob_def closed_types_def)
qed (auto simp: Encode_def EncodeValue_def Decode_def Register_def Let_def dest: quiet_keeps split: option.splits prod.splits)

section \<open>Properties\<close>

text \<open>C21. Whatever the program has encoded, decoded and registered so far, in any order and with any outcomes of the gob library: no
  warning has been printed, the error counter is zero, and the wrapper accepts the next value of the program's types without a panic
  and stays silent. In particular every field of the arguments, the replies, the log entries and the operation is
  exported, and no target of a decoding holds an old value.\<close>

theorem messages_never_warn:
  assumes "coder_states g s"
  shows "errorCount s = 0 \<and> printed s = [] \<and>
    (\<forall>v enc. \<exists>err enc' s'. Encode g program_types (Some v) enc s = Some (err, enc', s') \<and> printed s' = []) \<and>
    (\<forall>m dec. \<exists>err v dec' s'. Decode g program_types (Some (New program_types (Pointer m) (Plain m))) dec s = Some (err, v, dec', s') \<and>
       printed s' = [])"
proof -
  have q: "quiet s" by (rule coder_states_quiet [OF assms])
  have "\<exists>err enc' s'. Encode g program_types (Some v) enc s = Some (err, enc', s') \<and> printed s' = []" for v enc
    using checkValue_quiet [OF q, of v] by (auto simp: Encode_def quiet_def split: prod.splits)
  moreover have "\<exists>err v dec' s'. Decode g program_types (Some (New program_types (Pointer m) (Plain m))) dec s = Some (err, v, dec', s') \<and>
       printed s' = []" for m dec
    using checkValue_quiet [OF q, of "New program_types (Pointer m) (Plain m)"]
    by (auto simp: Decode_def quiet_def Let_def split: prod.splits)
  ultimately show ?thesis using q by (simp add: quiet_def)
qed

text \<open>A gob library that registers everything, and the process after \<^verbatim>\<open>main\<close> registered the operation.\<close>

definition silent_gob :: "(msg_type, bytes, bytes, unit) gob" where
  "silent_gob =
     \<lparr>gob_NewEncoder = (\<lambda>w. w), gob_Encode = (\<lambda>_ w. (None, w)), gob_Bytes = (\<lambda>w. w), gob_NewDecoder = (\<lambda>bs. bs),
      gob_Decode = (\<lambda>v bs. (None, v, bs)), gob_Register = (\<lambda>_ _. Some ()), gob_RegisterName = (\<lambda>_ _ _. Some ())\<rparr>"

lemma registered_op:
  "\<exists>s. Register silent_gob program_types (Some (Zero 2 program_types (Plain T_Op))) () initial_labgob = Some ((), s) \<and>
     Plain T_int64 \<in> checked s"
  by (simp add: Register_def checkValue_def program_types_def all_msgs_def fields_defs initial_labgob_def check_name_def
    upper_case_def silent_gob_def numeral_2_eq_2)

theorem messages_never_warn_witness:
  "\<exists>s. coder_states silent_gob s \<and> Plain T_int64 \<in> checked s \<and> errorCount s = 0 \<and> printed s = []"
proof -
  obtain s where s: "Register silent_gob program_types (Some (Zero 2 program_types (Plain T_Op))) () initial_labgob = Some ((), s)"
    "Plain T_int64 \<in> checked s" using registered_op by blast
  have c: "coder_states silent_gob s" by (rule coder_states.register [OF coder_states.start _ s(1)]) simp
  then show ?thesis using messages_never_warn [OF c] s(2) by blast
qed

text \<open>C23. The search for fields that gob would skip: if the types of the program are closed under reference (and likewise the ones
  already checked, which every operation keeps), a check ends without running out of fuel, marks exactly the types that can be reached from the
  value, also through recursive types, and reports every lower-case field of the newly reached structs exactly once; the counter grows by
  their number.\<close>

theorem checkValue_reports_once:
  assumes "closed_types r (set (types r))" and "typeOf v \<in> set (types r)" and "closed_types r (checked s)"
  shows "\<exists>s' cs. checkValue r (Some v) s = Some s' \<and>
    checked s' = checked s \<union> reachable_types r (typeOf v) \<and> closed_types r (checked s') \<and>
    printed s' = printed s @ cs \<and> errorCount s' = errorCount s + length cs \<and>
    mset cs = (\<Sum>u \<in> reachable_types r (typeOf v) - checked s. mset (complaints r u))"
  using checkValue_visits [OF assms] by blast

text \<open>A list cell that points to itself and has a lower-case field: type 0 is the struct, 1 the pointer to it, 2
  a number.\<close>

definition list_types :: "nat reflect" where
  "list_types =
     \<lparr>types = [0, 1, 2],
      kind = (\<lambda>t. if t = 0 then Struct [(''Next'', 1), (''val'', 2)] else if t = 1 then Ptr 0 else BasicKind IntKind),
      type_name = (\<lambda>t. if t = 0 then ''Cell'' else [])\<rparr>"

theorem checkValue_reports_once_witness:
  "\<exists>s'. checkValue list_types (Some (PtrV 1 None)) initial_labgob = Some s' \<and> checked s' = reachable_types list_types 1 \<and>
     0 \<in> checked s' \<and> errorCount s' = 1"
proof -
  have "closed_types list_types (set (types list_types))" "closed_types list_types (checked initial_labgob)"
    by (auto simp: closed_types_def list_types_def refs_def initial_labgob_def)
  from checkValue_reports_once [OF this(1) _ this(2), of "PtrV 1 None"]
  obtain s' where s': "checkValue list_types (Some (PtrV 1 None)) initial_labgob = Some s'" "checked s' = reachable_types list_types 1"
    by (auto simp: list_types_def initial_labgob_def)
  moreover have "checkValue list_types (Some (PtrV 1 None)) initial_labgob =
      Some \<lparr>errorCount = 1, checked = {0, 1, 2}, printed = [LowerCaseField ''val'' ''Cell'']\<rparr>"
    by (auto simp: checkValue_def list_types_def initial_labgob_def check_name_def upper_case_def)
  ultimately show ?thesis by auto
qed

text \<open>Decoding into a struct that is used again, with plain fields as the replies of the calls have them, is counted once per
  field that is not zero, and the first of them is printed if it is the first error of the process; the search of the types comes before.\<close>

theorem reused_target_is_counted:
  assumes "\<forall>f \<in> set fs. plain_field f" and "checkValue r (Some (PtrV p (Some (StructV t fs)))) s = Some s1"
  shows "\<exists>err v' dec'. Decode g r (Some (PtrV p (Some (StructV t fs)))) dec s =
    Some (err, v', dec',
      s1\<lparr>errorCount := errorCount s1 + length (non_default fs),
         printed := printed s1 @ map NonDefault (if errorCount s1 < 1 then take 1 (non_default fs) else [])\<rparr>)"
proof -
  have "checkDefault r (Some (PtrV p (Some (StructV t fs)))) s1 = fold (\<lambda>(name1, vv). checkDefault1 r vv 3 name1) fs s1"
    by (simp add: checkDefault_def checkDefault1.simps [of r "PtrV _ _"] checkDefault1.simps [of r "StructV _ _"] eval_nat_numeral)
  then show ?thesis using assms(2) fold_plain [OF assms(1)]
    by (auto simp: Decode_def Let_def split: prod.splits)
qed

theorem reused_target_is_counted_witness:
  "\<exists>err v dec s'. Decode silent_gob program_types
      (Some (PtrV (Pointer T_RequestVoteReply) (Some (StructV (Plain T_RequestVoteReply)
         [(''Term'', BasicV (Plain T_int) (IntB 3)), (''VoteGranted'', BasicV (Plain T_bool) (BoolB True))]))))
      \<lparr>dec_gob = []\<rparr> initial_labgob = Some (err, v, dec, s') \<and> errorCount s' = 2 \<and> printed s' = [NonDefault ''Term'']"
proof -
  let ?fs = "[(''Term'', BasicV (Plain T_int) (IntB 3)), (''VoteGranted'', BasicV (Plain T_bool) (BoolB True))]"
  let ?v = "PtrV (Pointer T_RequestVoteReply) (Some (StructV (Plain T_RequestVoteReply) ?fs))"
  have "quiet initial_labgob" by (rule coder_states_quiet [OF coder_states.start])
  then obtain s1 where s1: "checkValue program_types (Some ?v) initial_labgob = Some s1" "quiet s1"
    using checkValue_quiet by blast
  have "\<forall>f \<in> set ?fs. plain_field f" by (simp add: plain_field_def)
  from reused_target_is_counted [OF this s1(1), of silent_gob "\<lparr>dec_gob = []\<rparr>"] s1(2) show ?thesis
    by (auto simp: quiet_def non_default_def)
qed

end
