(* ===== verification/Process.thy ===== *)
theory Process
  imports Wiring Requests Raft_Persist Messages
begin

text \<open>
  The process that \<^verbatim>\<open>cmd/kvnode/main.go\<close> starts: it registers the operation with the coder, wires three
  peers over the simulated network, and opens the store and the Raft peer of each node on the node's
  directory. The outcomes of the file system, the contents of the directories, the codec and the gob library are
  parameters. The lemmas show that the engine and the Raft peer of a node, which share a
  directory, do not touch each other's files.
\<close>

definition raft_file :: path where
  "raft_file = (DataDir, ''raft_state.bin'')"

text \<open>\<^verbatim>\<open>raft.Make\<close> on the file of the node, and the store on its directory.\<close>

definition start_node :: "(bytes \<Rightarrow> Op raftstate option) \<Rightarrow> bool \<Rightarrow> nat \<Rightarrow> nat \<Rightarrow> disk \<Rightarrow> Node" where
  "start_node dec compact n i d =
     (case ReadRaftState (MakePersister raft_file) d of
        (data, ps) \<Rightarrow>
          let rf = readPersist_file dec data ((Make n i None)\<lparr>persister := file_state dec raft_file d\<rparr>)
          in (case NewKVStoreWithLSMOptions \<lparr>EnableCompaction = compact\<rparr> d of
                (kv, d') \<Rightarrow> \<lparr>n_rf = rf, n_kv = kv, n_disk = d'\<rparr>))"

definition main_process ::
  "(msg_type, 'e, 'd, 'g) gob \<Rightarrow> 'g \<Rightarrow> Op codec \<Rightarrow> (bytes \<Rightarrow> Op raftstate option) \<Rightarrow> string \<Rightarrow> (nat \<Rightarrow> disk) \<Rightarrow>
   (msg_type labgob \<times> (nat \<Rightarrow> Op Raft) Network \<times> Node list) option"
where
  "main_process g reg k dec env disks =
     (case Register g program_types (Some (Zero (length (types program_types) + 1) program_types (Plain T_Op))) reg initial_labgob of
        None \<Rightarrow> None
      | Some (reg', lg) \<Rightarrow>
          let serverCount = 3; compact = enableCompactionFromEnv env
          in (case wire serverCount (raft_service k) of
                None \<Rightarrow> None
              | Some rn \<Rightarrow> Some (lg, rn, map (\<lambda>i. start_node dec compact serverCount i (disks i)) [0..<serverCount])))"

section \<open>Files of others\<close>

text \<open>A file in the directory of the node that is not the manifest.\<close>

definition foreign :: "path \<Rightarrow> bool" where
  "foreign q \<longleftrightarrow> fst q = DataDir \<and> q \<noteq> manifest_path"

lemma foreign_raft_file: "foreign raft_file"
  by (simp add: foreign_def raft_file_def manifest_path_def)

lemma foreign_neq:
  assumes "foreign q"
  shows "q \<noteq> wal_path i" "q \<noteq> sst_path i" "q \<noteq> (WalDir, name)" "q \<noteq> manifest_path"
  using assms by (auto simp: foreign_def wal_path_def sst_path_def)

lemma OpenWAL_frame: "q \<noteq> p \<Longrightarrow> disk_file (snd (OpenWAL p d)) q = disk_file d q"
  using calls_frame(2) [of q p d] by (auto simp: OpenWAL_def split: prod.splits option.splits)

lemma WAL_Close_keeps [simp]: "disk_file (snd (WAL_Close w d)) = disk_file d"
  by (simp add: WAL_Close_def split: option.split)

lemma recover_one_frame: "foreign q \<Longrightarrow> disk_file (snd (recover_one i (t, d))) q = disk_file d q"
  using OpenWAL_frame [OF foreign_neq(1), of q i d]
  by (auto simp: recover_one_def split: prod.splits sum.splits)

lemma recover_fold_frame: "foreign q \<Longrightarrow> disk_file (snd (fold recover_one is (t, d))) q = disk_file d q"
proof (induction "is" arbitrary: t d)
  case (Cons i "is")
  obtain t1 d1 where one: "recover_one i (t, d) = (t1, d1)" by (rule prod.exhaust)
  with recover_one_frame [OF Cons.prems, of i t d] Cons.IH [OF Cons.prems, of t1 d1] show ?case by simp
qed simp

lemma flush_frame: "foreign q \<Longrightarrow> disk_file (snd (flush imm None db d)) q = disk_file d q"
  using foreign_neq [of q]
  by (auto simp: flush_def installFlushedTable_def delete_old_wal_def case_prod_beta writeSSTable_frame persistManifest_frame
    split: option.splits)

lemma removeAll_frame:
  assumes "foreign q"
  shows "disk_file (removeAllOldWalFiles d) q = disk_file d q"
proof -
  have "disk_file (fold (\<lambda>name d. if filepath_Ext name = ''.log'' then snd (os_Remove (WalDir, name) d) else d) names d) q = disk_file d q"
    for names
    using calls_frame(5) [OF foreign_neq(3) [OF assms]] by (induction names arbitrary: d) simp_all
  then show ?thesis by (simp add: removeAllOldWalFiles_def)
qed

lemma NewDBWithOptions_frame: "foreign q \<Longrightarrow> disk_file (snd (NewDBWithOptions options d)) q = disk_file d q"
  using OpenWAL_frame [OF foreign_neq(1)]
  by (simp add: NewDBWithOptions_def RecoverFromWAL_def flush_recovered_def Let_def case_prod_beta removeAll_frame flush_frame recover_fold_frame)

text \<open>The operations of a running engine, whose handles are log files.\<close>

definition log_handles :: "DB \<Rightarrow> bool" where
  "log_handles db \<longleftrightarrow> (\<forall>p. wal db = Some (Some p) \<longrightarrow> fst p = WalDir)"

lemma wal_write_foreign:
  "log_handles db \<Longrightarrow> wal db = Some w \<Longrightarrow> foreign q \<Longrightarrow> disk_file (snd (wal_write w buf d)) q = disk_file d q"
  by (rule wal_write_frame) (cases q, auto simp: log_handles_def foreign_def)

lemma DB_write_foreign:
  assumes "log_handles db" and "foreign q"
  shows "disk_file (snd (snd (DB_Put key val db d))) q = disk_file d q"
    and "disk_file (snd (snd (DB_Delete key db d))) q = disk_file d q"
  using wal_write_foreign [OF assms(1) _ assms(2)]
  by (auto simp: DB_Put_def DB_Delete_def WAL_AppendPut_def WAL_AppendDelete_def case_prod_beta split: option.splits)

lemma flush_job_foreign:
  assumes "foreign q" and "\<And>p. old = Some (Some p) \<Longrightarrow> fst p = WalDir"
  shows "disk_file (snd (flush imm old db d)) q = disk_file d q"
proof -
  have "disk_file (delete_old_wal old d') q = disk_file d' q" for d'
    using assms by (cases q) (auto simp: delete_old_wal_def foreign_def case_prod_beta split: option.split intro!: WAL_Delete_frame)
  then show ?thesis
    using foreign_neq [OF assms(1)]
    by (auto simp: flush_def installFlushedTable_def case_prod_beta writeSSTable_frame persistManifest_frame split: option.splits)
qed

section \<open>A node\<close>

lemma start_node_simps:
  "n_rf (start_node dec compact n i d) = Make n i (file_state dec raft_file d)"
  "disk_file (n_disk (start_node dec compact n i d)) raft_file = disk_file d raft_file"
  "file_state dec raft_file (n_disk (start_node dec compact n i d)) = file_state dec raft_file d"
proof -
  let ?nd = "start_node dec compact n i d"
  have frame: "disk_file (snd (NewKVStoreWithLSMOptions options d)) raft_file = disk_file d raft_file" for options
    using NewDBWithOptions_frame [OF foreign_raft_file] by (simp add: NewKVStoreWithLSMOptions_def case_prod_beta)
  show "disk_file (n_disk ?nd) raft_file = disk_file d raft_file"
    using frame by (simp add: start_node_def Let_def case_prod_beta)
  then show "file_state dec raft_file (n_disk ?nd) = file_state dec raft_file d" by (simp add: file_state_def)
  have "n_rf ?nd = readPersist (file_state dec raft_file d) ((Make n i None)\<lparr>persister := file_state dec raft_file d\<rparr>)"
    by (simp add: start_node_def Let_def case_prod_beta readPersist_refines MakePersister_def)
  then show "n_rf ?nd = Make n i (file_state dec raft_file d)"
    by (auto simp: Make_def readPersist_def split: option.splits)
qed

end
