(* ===== verification/Spec2Isabelle.thy ===== *)
theory Spec2Isabelle
  imports LSM_Properties Durability_Properties Raft_Properties Raft_Timer Store_Properties Gateway_Properties Process
    "HOL-Library.Countable"
begin

text \<open>
  A verification development for the replicated key-value store of this repository: several peers in one process
  agree on a log of commands by Raft, apply it to a log-structured storage engine each, and serve clients
  through an HTTP gateway. Paths are relative to \<^verbatim>\<open>src\<close>.

  \<^bold>\<open>How the program works.\<close> \<^verbatim>\<open>cmd/kvnode/main.go\<close> builds a simulated network, and for every
  peer an engine, a persister, a Raft node and a store. A client's \<^verbatim>\<open>PUT\<close>, \<^verbatim>\<open>GET\<close> or \<^verbatim>\<open>DELETE\<close> reaches the gateway
  (\<^verbatim>\<open>internal/api/server.go\<close>), which asks the stores in turn. The store of the leader
  (\<^verbatim>\<open>internal/store/store.go\<close>) hands the command to Raft (\<^verbatim>\<open>internal/raft/raft.go\<close>) and waits on a channel. Raft
  replicates its log with \<^verbatim>\<open>RequestVote\<close> and \<^verbatim>\<open>AppendEntries\<close> over \<^verbatim>\<open>internal/raft/labrpc\<close>, saves term, vote and log in a file
  (\<^verbatim>\<open>persister.go\<close>) and sends committed commands to the apply loop of every store. The apply loop runs them on the
  engine (\<^verbatim>\<open>internal/lsm\<close>): write-ahead log, memory table, sorted tables on disk, and compaction.

  \<^bold>\<open>Theories, bottom up.\<close>
  \<^item> \<open>Go_Prelude\<close>, \<open>Go_Strings\<close>, \<open>Go_Heap\<close>: what the code uses of Go, byte slices and codecs, decimal numbers and file
    names, \<^verbatim>\<open>sort.Search\<close>, \<^verbatim>\<open>container/heap\<close>. \<open>Transition\<close>: reachability and the invariant rule.
  \<^item> \<open>KV_Spec\<close>: the contract of the layers, a map from keys to their last write (locale \<open>kv_table\<close>).
    \<open>MemTable\<close> (\<^verbatim>\<open>memtable.go\<close>) implements it by a sorted slice and interprets the locale.
  \<^item> \<open>Disk\<close>: files as bytes, system calls that may fail. \<open>WAL\<close> (\<^verbatim>\<open>internal/wal/wal.go\<close>), \<open>SSTable\<close>
    (\<^verbatim>\<open>sstable_format.go\<close>, \<^verbatim>\<open>sstable_writer.go\<close>, \<^verbatim>\<open>sstable_reader.go\<close>, \<^verbatim>\<open>compaction_iterator.go\<close>), \<open>Manifest\<close> and \<open>Loader\<close>
    (\<^verbatim>\<open>kvstore_compaction.go\<close>): the formats down to the byte, their writers and readers, and that the readers return what was
    written, from torn logs a prefix of it.
  \<^item> \<open>Merge\<close> (\<^verbatim>\<open>compaction_merge.go\<close>, \<^verbatim>\<open>compaction_builder.go\<close>): the merge by a heap keeps the newest version of every key. The locale
    \<open>weak_order\<close> is what the heap asks of the comparison.
  \<^item> \<open>DB\<close>, \<open>Metrics\<close> (\<^verbatim>\<open>kvstore.go\<close>, \<^verbatim>\<open>kvstore_compaction.go\<close>, \<^verbatim>\<open>metrics.go\<close>): the engine; every method is a function of the
    engine and the disk. \<open>DB_View\<close>, \<open>Compaction\<close>, \<open>Stored\<close>: the engine refines a map (\<open>db_view\<close>, \<open>db_inv\<close>), with every
    system call allowed to fail. \<open>LSM_Properties\<close> has the properties.
  \<^item> \<open>Recovery\<close>, \<open>Durability\<close>, \<open>Durability_Properties\<close>: startup from any disk the engine can leave behind, the
    sections of a flush as steps that interleave with the other operations, crashes, and the invariant that the
    engine reads as the last writes of the acknowledged history.
  \<^item> \<open>Raft_Node\<close>: one peer; each handler is a function of the state it locks. \<open>Raft_Cluster\<close>: peers, messages and
    crashes as a step relation, with vote invariants. \<open>Raft_Log\<close>: the invariants of logs, cursors and entry shapes. \<open>Raft_Effects\<close>:
    what one step can do to a peer and to the network. \<open>Raft_History\<close>: the ghost history of leaders and their logs. \<open>Raft_Safety\<close>:
    acknowledgements, votes and commitment, up to leader completeness and the agreement of committed prefixes. \<open>Raft_Trace\<close>:
    executable executions. \<open>Raft_Sync\<close>: the retry loop of a sender. \<open>Raft_Progress\<close>: from every reachable state a schedule
    commits a new command. \<open>Raft_Persist\<close>: the state file. \<open>Raft_Properties\<close> has the properties. \<open>Raft_Timer\<close>: a peer with its
    election timer, and what the timer bounds.
  \<^item> \<open>Store\<close>, \<open>Store_Properties\<close>: the apply loop and the requests, split where they block. \<open>Requests\<close>: a request from call to
    return. \<open>Gateway\<close> (\<^verbatim>\<open>server.go\<close>): the handlers of the key-value routes. \<open>Go_Float\<close>: rounding to \<^verbatim>\<open>float64\<close>. \<open>Diagnostics\<close>: the
    snapshots of metrics, their aggregate, and the dispatch of a request to its route. \<open>Gateway_Properties\<close> has the properties.
  \<^item> \<open>Network\<close>: \<^verbatim>\<open>labrpc\<close>, with the locale \<open>rpc\<close> of what a caller relies on. \<open>Labgob\<close> (\<^verbatim>\<open>labgob.go\<close>): the
    search for fields that gob would skip and for targets that are not fresh. \<open>Messages\<close>: the types the program
    encodes. \<open>Wiring\<close>: what \<^verbatim>\<open>main.go\<close> connects, and the calls of the peers. \<open>Process\<close>: the start of the whole process
    on the directories of its nodes. This theory adds the properties that span network, wiring, peers and engines.

  \<^bold>\<open>What is proved.\<close> Raft: at most one leader per term, matching logs; where winners of elections have no acknowledged indices
  left from before, no two peers ever apply different commands at one index and leaders hold all that was committed; a state that a crash restores, no index out
  of range in any handler, leaders that only append, commands applied in order, a sender loop that ends, and no reachable state from
  which a new command could not be committed by all peers; an election starts 300 to 499 ms after the last reset of the timer, and
  heartbeats that come more often prevent it. Store: the stores of
  any two peers hold the map of one sequence of commands, each up to its commit index; the engine
  holds the map of the applied log, also when a restart applies it again, reads through the log see exactly the
  writes before them, acknowledged writes were applied and stay in every committed log. Engine: puts, deletes, flushes and full compactions refine a
  map, and with compaction off no acknowledged write is lost in a crash. Formats: round trips. Gateway: one request, to
  the first node that believes to lead; no route panics; the averages and times of the engine are correctly rounded. Network: calls run at most once, in order; the coder never warns about the program's messages;
  the process comes up with every peer in the state of its file and able to call every other.
  Where the code does not do what it means to, the property states what it does: committed entries can
  diverge through stale acknowledgements, compaction, its inputs left on disk, a late removal of a log and a torn manifest bring old versions back,
  empty values are deleted by the merge, a corrupt table hides all others, a torn save lets a peer vote twice, a failed allocation ends
  flushing, a channel is taken from a newer request, and a deposed leader is reported (the last by a theorem of \<open>Gateway_Properties\<close>).

  \<^bold>\<open>Bounds and assumptions.\<close> Keys and values are shorter than \<open>2 ^ 32\<close> bytes (values by one more, for the
  tombstone mark), tables shorter than \<open>2 ^ 63\<close>, and file numbers below \<open>10 ^ 6\<close> where a restart reads them
  back, because the code prints at least and reads at most six digits. Recovery assumes nonempty keys: a
  deletion of the empty key has size 0 and does not trigger the flush at startup. The crash model lets a crash cut off the
  log record being appended, and lets any number of startups crash again, before the replayed table is written, after it,
  or while the logs are removed from the oldest on; inside the write of a table or of the manifest it does not stop, because there
  the property fails, as two of the properties show. Compaction is off in the crash model. The history of acknowledged writes is below \<open>2 ^ 60\<close> bytes. A cluster
  has at least two peers: with one, no reply ever counts the votes. Terms and indexes are integers, as
  64-bit overflow would take longer than any run. Messages stay in the network, so losing, repeating and
  reordering them are all included; in the cluster timers are events that may happen at any time. \<open>wc.reach n unacked\<close> are the states of
  executions in which every winner of an election has acknowledged indices 0, as a peer that was not leader before since it started; all
  other properties of Raft hold in all executions. \<open>sender_loop\<close> runs on fuel; the value of
  \<open>nextIndex\<close> is enough, since every rejection lowers it. \<open>checkType\<close> runs on fuel, one more than the number of types, which is
  enough since every level marks a type. What other goroutines do while a request waits is the
  argument \<open>call\<close> of the request. Encoders of messages and of the persisted state are parameters which decode
  what they encoded. Texts are ASCII. A \<open>float64\<close> is a rational with 53 significant bits: infinities and the numbers near
  0 with a shorter mantissa are out of reach of the metrics. The metrics of the engine are exact while their sums are below \<open>2 ^ 53\<close>.

  \<^bold>\<open>Not modelled.\<close> The programs under \<^verbatim>\<open>tests\<close> are load generators. \<^verbatim>\<open>encoding/gob\<close>, reflection and the
  web framework are libraries: gob is a parameter, reflection a description of the types and methods, the parsed request an argument of
  the route. Delays of the network have no effect of their own. The time a write of a peer's state takes and the statistics of the
  runtime are arguments of the metrics. The start of the listener is left out.
  \<^verbatim>\<open>Snapshot\<close> is empty in the source. Console output has no effect on the state, except for the warnings of \<^verbatim>\<open>labgob\<close>, which are
  modelled.
\<close>

section \<open>A node that crashes and starts again\<close>




section \<open>The network of the process\<close>




definition calm :: "'s dice" where
  "calm = \<lparr>drop_request = 500, drop_reply = 500, gave_up = False, meanwhile = (\<lambda>rn. rn)\<rparr>"


text \<open>The wiring that the main program builds delivers both kinds of requests from any peer to any other, on the level
  of encoded arguments and replies.\<close>

theorem main_wires_cluster:
  assumes "i < n" and "j < n" and "i \<noteq> j" and "meanwhile r = (\<lambda>rn. rn)" and "\<not> gave_up r"
  shows "\<exists>rn. wire n (raft_service k) = Some rn \<and>
    (\<forall>bs args rf reply. dec_vote k bs = Some args \<and> RequestVote args (st j) = Some (rf, reply) \<longrightarrow>
       (\<exists>rn'. Call r (client_name i j) ''Raft.RequestVote'' bs rn st = Some (Some (enc_vote_reply k reply), rn', st(j := rf)))) \<and>
    (\<forall>bs args rf reply. dec_append k bs = Some args \<and> AppendEntries args (st j) = Some (rf, reply) \<longrightarrow>
       (\<exists>rn'. Call r (client_name i j) ''Raft.AppendEntries'' bs rn st = Some (Some (enc_append_reply k reply), rn', st(j := rf))))"
proof -
  from wire_routes [of n "raft_service k"] obtain rn where rn: "wire n (raft_service k) = Some rn" "reliable rn" "\<not> net_done rn"
    "enabled rn (client_name i j)" "connections rn (client_name i j) = Some (server_name j)"
    "servers rn (server_name j) = Some j" "services (heap rn j) (svc_name (raft_service k j)) = Some (raft_service k j)"
    "dispatchf (heap rn j) = None" using assms(1-3) by blast
  have svc: "services (heap rn j) ''Raft'' = Some (raft_service k j)" using rn(7) by (simp add: raft_service_methods)
  note call = Call_reliable [OF rn(5,6,4,2,3) _ rn(8) svc _ _ assms(4,5)]
  have vote: "\<exists>rn'. Call r (client_name i j) ''Raft.RequestVote'' bs rn st = Some (Some (enc_vote_reply k reply), rn', st(j := rf))"
    if "dec_vote k bs = Some args" "RequestVote args (st j) = Some (rf, reply)" for bs args rf reply
    by (rule call [of _ "''RequestVote''" "vote_method k j"])
      (use that in \<open>simp_all add: raft_service_methods split_last_dot_def vote_method_def\<close>)
  have app: "\<exists>rn'. Call r (client_name i j) ''Raft.AppendEntries'' bs rn st = Some (Some (enc_append_reply k reply), rn', st(j := rf))"
    if "dec_append k bs = Some args" "AppendEntries args (st j) = Some (rf, reply)" for bs args rf reply
    by (rule call [of _ "''AppendEntries''" "append_method k j"])
      (use that in \<open>simp_all add: raft_service_methods split_last_dot_def append_method_def\<close>)
  show ?thesis using rn(1) vote app by blast
qed

theorem main_wires_cluster_witness:
  "\<exists>rn rn'. wire 3 (raft_service \<lparr>enc_vote = (\<lambda>a. []), dec_vote = (\<lambda>bs. Some first_ballot), enc_vote_reply = (\<lambda>r. if rr_VoteGranted r then [1] else [0]),
       dec_vote_reply = (\<lambda>bs. None), enc_append = (\<lambda>a. []), dec_append = (\<lambda>bs. None), enc_append_reply = (\<lambda>r. []), dec_append_reply = (\<lambda>bs. None)\<rparr>) = Some rn \<and>
     Call calm (client_name 0 1) ''Raft.RequestVote'' [] rn (\<lambda>i. Make 3 i None) =
       Some (Some [1], rn', (\<lambda>i. Make 3 i None)(1 := rf_voter))"
proof -
  let ?k = "\<lparr>enc_vote = (\<lambda>a. []), dec_vote = (\<lambda>bs. Some first_ballot), enc_vote_reply = (\<lambda>r. if rr_VoteGranted r then [1] else [0]),
       dec_vote_reply = (\<lambda>bs. None), enc_append = (\<lambda>a. []), dec_append = (\<lambda>bs. None), enc_append_reply = (\<lambda>r. []), dec_append_reply = (\<lambda>bs. None)\<rparr> :: nat codec"
  obtain rn where rn: "wire 3 (raft_service ?k) = Some rn"
    "\<forall>bs args rf reply. dec_vote ?k bs = Some args \<and> RequestVote args (Make 3 1 None) = Some (rf, reply) \<longrightarrow>
       (\<exists>rn'. Call calm (client_name 0 1) ''Raft.RequestVote'' bs rn (\<lambda>i. Make 3 i None) =
          Some (Some (enc_vote_reply ?k reply), rn', (\<lambda>i. Make 3 i None)(1 := rf)))"
    using main_wires_cluster [of 0 3 1 calm ?k "\<lambda>i. Make 3 i None"] by (auto simp: calm_def)
  moreover have "dec_vote ?k [] = Some first_ballot" by simp
  ultimately obtain rn' where "Call calm (client_name 0 1) ''Raft.RequestVote'' [] rn (\<lambda>i. Make 3 i None) =
      Some (Some (enc_vote_reply ?k \<lparr>rr_Term = 1, rr_VoteGranted = True\<rparr>), rn', (\<lambda>i. Make 3 i None)(1 := rf_voter))"
    using rf_voter_run by blast
  with rn(1) show ?thesis by auto
qed


text \<open>A codec that satisfies the assumption: a number per value, written in unary.\<close>

definition unary :: "'a::countable \<Rightarrow> bytes" where
  "unary x = replicate (to_nat x) 0"

definition of_unary :: "bytes \<Rightarrow> 'a::countable" where
  "of_unary bs = from_nat (length bs)"

lemma of_unary_unary [simp]: "of_unary (unary x) = x"
  by (simp add: of_unary_def unary_def)

definition entry_tuple :: "Op LogEntry \<Rightarrow> int \<times> (string \<times> bytes \<times> bytes \<times> int) option" where
  "entry_tuple e = (le_Term e, map_option (\<lambda>op. (Operation op, op_Key op, op_Value op, OpId op)) (le_Command e))"

definition tuple_entry :: "int \<times> (string \<times> bytes \<times> bytes \<times> int) option \<Rightarrow> Op LogEntry" where
  "tuple_entry x =
     (case x of (t, c) \<Rightarrow> \<lparr>le_Term = t, le_Command = map_option (\<lambda>(oper, k, v, i).
        \<lparr>Operation = oper, op_Key = k, op_Value = v, OpId = i\<rparr>) c\<rparr>)"

lemma tuple_entry_tuple [simp]: "tuple_entry (entry_tuple e) = e"
  by (cases e) (auto simp: tuple_entry_def entry_tuple_def option.map_comp comp_def intro: option.map_ident_strong)




end
